(* ===== verification/Prelude.thy ===== *)
theory Prelude
  imports Main
begin

section \<open>Prelude: machine integers, undefined behaviour, shared lemmas\<close>

text \<open>
  What every component of the development shares:
  \<^item> the program's fixed-width signed integers, kept as mathematical integers together with
    their ranges (\<open>is_int32\<close>, \<open>is_int64\<close>) and the two's complement wrap-around that
    \<^verbatim>\<open>std::atomic<int>::fetch_add\<close> and \<^verbatim>\<open>fetch_sub\<close> perform (\<open>wrap32\<close>, \<open>wrap64\<close>);
  \<^item> the places where C++ leaves the behaviour undefined, as values of the type \<open>ub\<close>, and
    the sequencing of computations that can reach one (\<open>bind_res\<close>);
  \<^item> \<open>absl::Status\<close> as the builders use it (\<open>status\<close>);
  \<^item> the collections \<open>limen_simps\<close> (unfoldings the component proofs run on) and
    \<open>limen_inv\<close> (invariant preservation), and lemmas on lists and sums of integers.
\<close>

named_theorems limen_simps
named_theorems limen_inv

subsection \<open>Signed machine integers\<close>

abbreviation INT_MAX :: int where "INT_MAX \<equiv> 2147483647"
abbreviation INT_MIN :: int where "INT_MIN \<equiv> - 2147483648"
abbreviation INT64_MAX :: int where "INT64_MAX \<equiv> 9223372036854775807"
abbreviation INT64_MIN :: int where "INT64_MIN \<equiv> - 9223372036854775808"

definition is_int32 :: "int \<Rightarrow> bool" where
  "is_int32 x \<longleftrightarrow> INT_MIN \<le> x \<and> x \<le> INT_MAX"

definition is_int64 :: "int \<Rightarrow> bool" where
  "is_int64 x \<longleftrightarrow> INT64_MIN \<le> x \<and> x \<le> INT64_MAX"

definition wrap32 :: "int \<Rightarrow> int" where
  "wrap32 x = (x + 2147483648) mod 4294967296 - 2147483648"

definition wrap64 :: "int \<Rightarrow> int" where
  "wrap64 x = (x + 9223372036854775808) mod 18446744073709551616 - 9223372036854775808"

subsection \<open>Undefined behaviour and status values\<close>

text \<open>
  \<open>SignedOverflow\<close>: arithmetic on a plain signed integer leaves its type.
  \<open>OutOfBounds\<close>: an array is accessed outside its bounds.
  \<open>BadCast\<close>: a floating-point value with no representation in the target integer type is
  converted.
  \<open>BadAlloc\<close>: an array of negative length is requested; the library is compiled without
  exceptions, so the program does not continue.
  \<open>Dangling\<close>: a pointer to an object that no longer exists is dereferenced.
\<close>

datatype ub = SignedOverflow | OutOfBounds | BadCast | BadAlloc | Dangling

type_synonym 'a res = "ub + 'a"

datatype status = InvalidArgument string

definition bind_res :: "'e + 'a \<Rightarrow> ('a \<Rightarrow> 'e + 'b) \<Rightarrow> 'e + 'b" where
  "bind_res m f = (case m of Inl e \<Rightarrow> Inl e | Inr x \<Rightarrow> f x)"

definition chk32 :: "int \<Rightarrow> int res" where
  "chk32 x = (if is_int32 x then Inr x else Inl SignedOverflow)"

definition chk64 :: "int \<Rightarrow> int res" where
  "chk64 x = (if is_int64 x then Inr x else Inl SignedOverflow)"

text \<open>Signed division of C++ truncates towards zero; dividing the least value by \<open>-1\<close>
  overflows.\<close>

definition div64 :: "int \<Rightarrow> int \<Rightarrow> int res" where
  "div64 a b = chk64 (sgn a * sgn b * (\<bar>a\<bar> div \<bar>b\<bar>))"

text \<open>Array accesses with a signed index.\<close>

definition store_at :: "int \<Rightarrow> 'a \<Rightarrow> 'a list \<Rightarrow> 'a list res" where
  "store_at i v xs = (if 0 \<le> i \<and> i < int (length xs) then Inr (xs[nat i := v]) else Inl OutOfBounds)"

definition load_at :: "'a list \<Rightarrow> int \<Rightarrow> 'a res" where
  "load_at xs i = (if 0 \<le> i \<and> i < int (length xs) then Inr (xs ! nat i) else Inl OutOfBounds)"

subsection \<open>Lemmas on the machine integers\<close>

lemma wrap32_range [simp, intro]: "is_int32 (wrap32 x)"
  by (simp add: is_int32_def wrap32_def)

lemma wrap64_range [simp, intro]: "is_int64 (wrap64 x)"
  by (simp add: is_int64_def wrap64_def)

lemma wrap32_id [simp]: "is_int32 x \<Longrightarrow> wrap32 x = x"
  by (simp add: is_int32_def wrap32_def)

lemma wrap64_id [simp]: "is_int64 x \<Longrightarrow> wrap64 x = x"
  by (simp add: is_int64_def wrap64_def)

lemma wrap32_add_left [simp]: "wrap32 (wrap32 x + y) = wrap32 (x + y)"
proof -
  have "wrap32 x + y + 2147483648 = (x + 2147483648) mod 4294967296 + y"
    by (simp add: wrap32_def)
  then show ?thesis
    unfolding wrap32_def by (simp add: mod_simps algebra_simps)
qed

lemma wrap64_add_left [simp]: "wrap64 (wrap64 x + y) = wrap64 (x + y)"
proof -
  have "wrap64 x + y + 9223372036854775808 = (x + 9223372036854775808) mod 18446744073709551616 + y"
    by (simp add: wrap64_def)
  then show ?thesis
    unfolding wrap64_def by (simp add: mod_simps algebra_simps)
qed

lemma wrap64_add_right [simp]: "wrap64 (y + wrap64 x) = wrap64 (y + x)"
  using wrap64_add_left [of x y] by (simp only: add.commute)

lemma chk32_Inr [simp]: "chk32 x = Inr y \<longleftrightarrow> y = x \<and> is_int32 x"
  by (auto simp: chk32_def)

lemma chk64_Inr [simp]: "chk64 x = Inr y \<longleftrightarrow> y = x \<and> is_int64 x"
  by (auto simp: chk64_def)

lemma chk64_ok: "is_int64 x \<Longrightarrow> chk64 x = Inr x"
  by simp

lemma chk32_ok: "is_int32 x \<Longrightarrow> chk32 x = Inr x"
  by simp

lemma is_int32_int64: "is_int32 x \<Longrightarrow> is_int64 x"
  by (simp add: is_int32_def is_int64_def)

subsection \<open>Lemmas on results\<close>

lemma bind_res_simps [simp]:
  "bind_res (Inl e) f = Inl e"
  "bind_res (Inr x) f = f x"
  by (simp_all add: bind_res_def)

lemma bind_res_Inr: "bind_res m f = Inr y \<longleftrightarrow> (\<exists>x. m = Inr x \<and> f x = Inr y)"
  by (cases m) auto

lemma bind_res_Inr_E [elim]:
  assumes "bind_res m f = Inr y"
  obtains x where "m = Inr x" and "f x = Inr y"
  using assms by (auto simp: bind_res_Inr)

subsection \<open>Lemmas on lists, and the tally of a list\<close>

lemma sum_list_update_int:
  "i < length xs \<Longrightarrow> sum_list (xs[i := v]) = sum_list xs - xs ! i + (v :: int)"
  by (induction xs arbitrary: i) (auto split: nat.split)

lemma list_all_update [simp]: "list_all P ps \<Longrightarrow> P q \<Longrightarrow> list_all P (ps[i := q])"
  by (auto simp: list_all_iff dest!: subsetD [OF set_update_subset_insert])

text \<open>How many entries satisfy a predicate. The interleaving models keep a list with the place of
  every thread; their invariants say which tally a shared counter is.\<close>

definition tally :: "('a \<Rightarrow> bool) \<Rightarrow> 'a list \<Rightarrow> int" where
  "tally P xs = sum_list (map (\<lambda>x. of_bool (P x)) xs)"

lemma tally_Nil [simp]: "tally P [] = 0"
  by (simp add: tally_def)

lemma tally_Cons [simp]: "tally P (x # xs) = of_bool (P x) + tally P xs"
  by (simp add: tally_def)

lemma tally_update [simp]:
  "i < length xs \<Longrightarrow> tally P (xs[i := x]) = tally P xs - of_bool (P (xs ! i)) + of_bool (P x)"
  by (simp add: tally_def map_update sum_list_update_int)

lemma tally_nonneg [simp]: "0 \<le> tally P xs"
  unfolding tally_def by (rule sum_list_nonneg) auto

lemma tally_mem: "x \<in> set xs \<Longrightarrow> P x \<Longrightarrow> 1 \<le> tally P xs"
  by (induction xs) (auto simp: add_increasing2)

lemma tally_pos: "i < length xs \<Longrightarrow> P (xs ! i) \<Longrightarrow> 1 \<le> tally P xs"
  using tally_mem by force

lemma tally_alone:
  assumes "tally P xs \<le> 1" and "i < length xs" and "P (xs ! i)" and "j < length xs" and "j \<noteq> i"
  shows "\<not> P (xs ! j)"
  using assms
proof (induction xs arbitrary: i j)
  case (Cons x xs)
  show ?case
  proof (cases i)
    case 0
    then obtain n where "j = Suc n" using Cons.prems(5) by (cases j) auto
    then show ?thesis using 0 Cons.prems tally_pos [of n xs P] by auto
  next
    case (Suc m)
    then have "1 \<le> tally P xs" using Cons.prems tally_pos [of m xs P] by simp
    moreover have "of_bool (P x) + tally P xs \<le> 1" using Cons.prems(1) by simp
    ultimately have x: "\<not> P x" "tally P xs \<le> 1" by (cases "P x"; simp)+
    show ?thesis
    proof (cases j)
      case (Suc n)
      then show ?thesis using Cons.IH [OF x(2), of m n] Cons.prems \<open>i = Suc m\<close> by simp
    qed (use x(1) in simp)
  qed
qed simp

lemma tally_le_length: "tally P xs \<le> int (length xs)"
  unfolding tally_def by (induction xs) auto

lemma tally_replicate [simp]: "tally P (replicate n x) = (if P x then int n else 0)"
  by (simp add: tally_def sum_list_replicate)

end
