(* ===== verification/Limit_Base.thy ===== *)
theory Limit_Base
  imports Prelude
begin

section \<open>Limits: the limit interface and its sample-free implementations\<close>

text \<open>
  The abstract class \<^verbatim>\<open>Limit\<close> (\<^verbatim>\<open>include/limen/limit.h\<close>), the base class \<^verbatim>\<open>AbstractLimit\<close>
  (\<^verbatim>\<open>abstract_limit.h\<close>, \<^verbatim>\<open>abstract_limit.cc\<close>) and the two algorithms whose value does not
  depend on samples, \<^verbatim>\<open>FixedLimit\<close> and \<^verbatim>\<open>SettableLimit\<close>.

  An object is a record; a subclass is an extension of its base class's record. A virtual
  interface is a record of its operations, one field per virtual method (\<open>limit_ops\<close>).
  Change callbacks are code of the caller: a callback is a value of the type \<open>'cb\<close>, and an
  operation that runs callbacks returns the invocations it makes, in order, beside the new
  state. The critical sections under \<^verbatim>\<open>mu_\<close> are single operations.
\<close>

subsection \<open>The interface\<close>

record ('l, 'cb) limit_ops =
  GetLimit :: "'l \<Rightarrow> int"
  NotifyOnChange :: "'cb \<Rightarrow> 'l \<Rightarrow> 'l"
  OnSample :: "int \<Rightarrow> int \<Rightarrow> int \<Rightarrow> bool \<Rightarrow> 'l \<Rightarrow> ('l \<times> ('cb \<times> int) list) res"

subsection \<open>AbstractLimit\<close>

record 'cb abstract_limit =
  m_limit :: int
  m_listeners :: "'cb list"

definition AbstractLimit_new :: "int \<Rightarrow> 'cb abstract_limit" where
  "AbstractLimit_new initial_limit = \<lparr>m_limit = initial_limit, m_listeners = []\<rparr>"

definition AbstractLimit_GetLimit :: "('cb, 'z) abstract_limit_scheme \<Rightarrow> int" where
  "AbstractLimit_GetLimit s = m_limit s"

definition SetLimitLocked ::
  "int \<Rightarrow> ('cb, 'z) abstract_limit_scheme \<Rightarrow>
   ('cb, 'z) abstract_limit_scheme \<times> ('cb \<times> int) list" where
  "SetLimitLocked new_limit s =
     (let old_limit = m_limit s in
      if new_limit = old_limit then (s, [])
      else (s\<lparr>m_limit := new_limit\<rparr>, map (\<lambda>listener. (listener, new_limit)) (m_listeners s)))"

definition SetLimit ::
  "int \<Rightarrow> ('cb, 'z) abstract_limit_scheme \<Rightarrow>
   ('cb, 'z) abstract_limit_scheme \<times> ('cb \<times> int) list" where
  "SetLimit new_limit s = SetLimitLocked new_limit s"

definition AbstractLimit_NotifyOnChange ::
  "'cb \<Rightarrow> ('cb, 'z) abstract_limit_scheme \<Rightarrow> ('cb, 'z) abstract_limit_scheme" where
  "AbstractLimit_NotifyOnChange callback s = s\<lparr>m_listeners := m_listeners s @ [callback]\<rparr>"

definition AbstractLimit_OnSample ::
  "(int \<Rightarrow> int \<Rightarrow> int \<Rightarrow> bool \<Rightarrow> ('cb, 'z) abstract_limit_scheme \<Rightarrow>
      (int \<times> ('cb, 'z) abstract_limit_scheme) res) \<Rightarrow>
   int \<Rightarrow> int \<Rightarrow> int \<Rightarrow> bool \<Rightarrow> ('cb, 'z) abstract_limit_scheme \<Rightarrow>
   (('cb, 'z) abstract_limit_scheme \<times> ('cb \<times> int) list) res" where
  "AbstractLimit_OnSample Update start_time_ns rtt_ns inflight did_drop s =
     bind_res (Update start_time_ns rtt_ns inflight did_drop s)
       (\<lambda>(new_limit, s'). Inr (SetLimitLocked new_limit s'))"

text \<open>The virtual table of a subclass of \<^verbatim>\<open>AbstractLimit\<close> with the override \<open>Update\<close>.\<close>

definition AbstractLimit_ops ::
  "(int \<Rightarrow> int \<Rightarrow> int \<Rightarrow> bool \<Rightarrow> ('cb, 'z) abstract_limit_scheme \<Rightarrow>
      (int \<times> ('cb, 'z) abstract_limit_scheme) res) \<Rightarrow>
   (('cb, 'z) abstract_limit_scheme, 'cb) limit_ops" where
  "AbstractLimit_ops Update =
     \<lparr>GetLimit = AbstractLimit_GetLimit,
      NotifyOnChange = AbstractLimit_NotifyOnChange,
      OnSample = AbstractLimit_OnSample Update\<rparr>"

subsection \<open>FixedLimit and SettableLimit\<close>

definition FixedLimit_Of :: "int \<Rightarrow> 'cb abstract_limit" where
  "FixedLimit_Of limit = AbstractLimit_new limit"

definition FixedLimit_Update ::
  "int \<Rightarrow> int \<Rightarrow> int \<Rightarrow> bool \<Rightarrow> 'cb abstract_limit \<Rightarrow> (int \<times> 'cb abstract_limit) res" where
  "FixedLimit_Update start_time_ns rtt_ns inflight did_drop s = Inr (AbstractLimit_GetLimit s, s)"

definition FixedLimit_ops :: "('cb abstract_limit, 'cb) limit_ops" where
  "FixedLimit_ops = AbstractLimit_ops FixedLimit_Update"

definition SettableLimit_StartingAt :: "int \<Rightarrow> 'cb abstract_limit" where
  "SettableLimit_StartingAt limit = AbstractLimit_new limit"

definition SettableLimit_Update ::
  "int \<Rightarrow> int \<Rightarrow> int \<Rightarrow> bool \<Rightarrow> 'cb abstract_limit \<Rightarrow> (int \<times> 'cb abstract_limit) res" where
  "SettableLimit_Update start_time_ns rtt_ns inflight did_drop s = Inr (AbstractLimit_GetLimit s, s)"

definition SettableLimit_ops :: "('cb abstract_limit, 'cb) limit_ops" where
  "SettableLimit_ops = AbstractLimit_ops SettableLimit_Update"

subsection \<open>The contract of the interface\<close>

text \<open>
  What a client of a \<^verbatim>\<open>Limit\<close> relies on. \<open>notifies ops listeners s s' calls\<close>: the
  invocations \<open>calls\<close> are those of every registered callback, in registration order, with
  the new value, if the value changed from \<open>s\<close> to \<open>s'\<close>, and none otherwise.
\<close>

definition change_calls :: "int \<Rightarrow> int \<Rightarrow> 'cb list \<Rightarrow> ('cb \<times> int) list" where
  "change_calls old_limit new_limit ls =
     (if new_limit = old_limit then [] else map (\<lambda>l. (l, new_limit)) ls)"

text \<open>A client that stores the value of each invocation of its own callback \<open>cb\<close>.\<close>

fun replay :: "'cb \<Rightarrow> ('cb \<times> int) list \<Rightarrow> int \<Rightarrow> int" where
  "replay cb [] v = v"
| "replay cb ((c, n) # cs) v = replay cb cs (if c = cb then n else v)"

text \<open>A sequence of samples through the interface.\<close>

fun feed ::
  "('l, 'cb) limit_ops \<Rightarrow> (int \<times> int \<times> int \<times> bool) list \<Rightarrow> 'l \<Rightarrow> ('l \<times> ('cb \<times> int) list) res"
where
  "feed ops [] s = Inr (s, [])"
| "feed ops ((t, r, i, d) # xs) s =
     bind_res (OnSample ops t r i d s) (\<lambda>(s', cs).
     bind_res (feed ops xs s') (\<lambda>(s'', cs'). Inr (s'', cs @ cs')))"

lemma replay_map [simp]:
  "replay cb (map (\<lambda>l. (l, n)) ls) v = (if cb \<in> set ls then n else v)"
  by (induction ls arbitrary: v) auto

lemma replay_append [simp]: "replay cb (xs @ ys) v = replay cb ys (replay cb xs v)"
  by (induction xs arbitrary: v) auto

locale limit_contract =
  fixes ops :: "('l, 'cb) limit_ops"
    and inv :: "'l \<Rightarrow> bool"
    and listeners :: "'l \<Rightarrow> 'cb list"
  assumes notify_inv: "inv s \<Longrightarrow> inv (NotifyOnChange ops cb s)"
    and notify_limit: "GetLimit ops (NotifyOnChange ops cb s) = GetLimit ops s"
    and notify_listeners: "listeners (NotifyOnChange ops cb s) = listeners s @ [cb]"
    and sample_inv: "inv s \<Longrightarrow> OnSample ops t r i d s = Inr (s', cs) \<Longrightarrow> inv s'"
    and sample_listeners:
      "inv s \<Longrightarrow> OnSample ops t r i d s = Inr (s', cs) \<Longrightarrow> listeners s' = listeners s"
    and sample_calls:
      "inv s \<Longrightarrow> OnSample ops t r i d s = Inr (s', cs) \<Longrightarrow>
         cs = change_calls (GetLimit ops s) (GetLimit ops s') (listeners s)"
begin

text \<open>For a client that forwards a sample or keeps it to itself.\<close>

lemma maybe_sampled:
  assumes "inv s" and "s' = s \<and> cs = [] \<or> (\<exists>t r i d. OnSample ops t r i d s = Inr (s', cs))"
  shows "inv s' \<and> listeners s' = listeners s \<and> cs = change_calls (GetLimit ops s) (GetLimit ops s') (listeners s)"
  using assms(2)
proof (elim disjE exE)
  fix t r i d
  assume "OnSample ops t r i d s = Inr (s', cs)"
  then show ?thesis using sample_inv [OF assms(1)] sample_listeners [OF assms(1)] sample_calls [OF assms(1)] by blast
qed (use assms(1) in \<open>simp add: change_calls_def\<close>)

lemma sample_mirror:
  assumes "inv s" and "cb \<in> set (listeners s)" and "OnSample ops t r i d s = Inr (s', cs)"
  shows "replay cb cs (GetLimit ops s) = GetLimit ops s'"
  using sample_calls [OF assms(1,3)] assms(2) by (auto simp: change_calls_def)

lemma feed_mirror:
  assumes "inv s" and "cb \<in> set (listeners s)" and "feed ops xs s = Inr (s', cs)"
  shows "inv s' \<and> listeners s' = listeners s \<and> replay cb cs (GetLimit ops s) = GetLimit ops s'"
  using assms
proof (induction xs arbitrary: s cs)
  case Nil
  then show ?case by simp
next
  case (Cons x xs)
  obtain t r i d where x: "x = (t, r, i, d)" by (cases x)
  from Cons.prems(3) obtain s1 cs1 cs2 where
    step: "OnSample ops t r i d s = Inr (s1, cs1)" and rest: "feed ops xs s1 = Inr (s', cs2)"
    and cs: "cs = cs1 @ cs2"
    by (auto simp: x bind_res_Inr)
  have inv1: "inv s1" and ls1: "listeners s1 = listeners s"
    using sample_inv [OF Cons.prems(1) step] sample_listeners [OF Cons.prems(1) step] by auto
  from Cons.IH [OF inv1 _ rest] Cons.prems(2) ls1 sample_mirror [OF Cons.prems(1,2) step]
  show ?case by (simp add: cs)
qed

text \<open>A client registered once keeps an exact copy of the limit over any run.\<close>

lemma registered_mirror:
  assumes "inv s" and "feed ops xs (NotifyOnChange ops cb s) = Inr (s', cs)"
  shows "replay cb cs (GetLimit ops s) = GetLimit ops s'"
  using feed_mirror [OF notify_inv [OF assms(1)] _ assms(2), of cb]
  by (simp add: notify_limit notify_listeners)

end

subsection \<open>AbstractLimit keeps the contract\<close>

lemmas abstract_limit_defs =
  AbstractLimit_new_def AbstractLimit_GetLimit_def SetLimitLocked_def SetLimit_def
  AbstractLimit_NotifyOnChange_def AbstractLimit_OnSample_def AbstractLimit_ops_def

declare abstract_limit_defs [limen_simps]

lemma SetLimitLocked_effect:
  assumes "SetLimitLocked n s = (s', cs)"
  shows "m_limit s' = n" and "m_listeners s' = m_listeners s"
    and "cs = change_calls (m_limit s) n (m_listeners s)"
  using assms by (auto simp: SetLimitLocked_def change_calls_def Let_def split: if_splits)

interpretation fixed: limit_contract FixedLimit_ops "\<lambda>s. True" m_listeners
  by unfold_locales
     (auto simp: limen_simps FixedLimit_ops_def FixedLimit_Update_def change_calls_def Let_def)

interpretation settable: limit_contract SettableLimit_ops "\<lambda>s. True" m_listeners
  by unfold_locales
     (auto simp: limen_simps SettableLimit_ops_def SettableLimit_Update_def change_calls_def Let_def)

subsection \<open>Programmatic changes\<close>

text \<open>A sequence of calls of \<^verbatim>\<open>SettableLimit::SetLimit\<close>.\<close>

fun set_limits :: "int list \<Rightarrow> ('cb, 'z) abstract_limit_scheme \<Rightarrow> ('cb, 'z) abstract_limit_scheme \<times> ('cb \<times> int) list" where
  "set_limits [] s = (s, [])"
| "set_limits (n # ns) s =
     (let (s', cs) = SetLimit n s; (s'', cs') = set_limits ns s' in (s'', cs @ cs'))"

text \<open>
  A settable limit always reports the value it was last given, and a registered callback
  is told of it: replaying the invocations gives the same value, and a value that is set twice
  in a row is announced once.
\<close>

lemma settable_limit_publishes:
  assumes "cb \<in> set (m_listeners s)" and "set_limits ns s = (s', cs)"
  shows "m_limit s' = last (m_limit s # ns) \<and> replay cb cs (m_limit s) = m_limit s'
    \<and> length cs = length (m_listeners s) * (length (remdups_adj (m_limit s # ns)) - 1)"
  using assms
proof (induction ns arbitrary: s cs)
  case Nil
  then show ?case by simp
next
  case (Cons n ns)
  obtain s1 cs1 where s1: "SetLimit n s = (s1, cs1)" by fastforce
  then obtain cs2 where s2: "set_limits ns s1 = (s', cs2)" and r: "cs = cs1 @ cs2"
    using Cons.prems(2) by (auto simp: Let_def split: prod.splits)
  have e: "m_limit s1 = n" "m_listeners s1 = m_listeners s" "cs1 = change_calls (m_limit s) n (m_listeners s)"
    using SetLimitLocked_effect [of n s s1 cs1] s1 by (simp_all add: SetLimit_def)
  have pos: "0 < length (remdups_adj (n # ns))" by simp
  have IH: "m_limit s' = last (n # ns)" "replay cb cs2 n = m_limit s'"
    "length cs2 = length (m_listeners s) * (length (remdups_adj (n # ns)) - 1)"
    using Cons.IH [OF _ s2] Cons.prems(1) e by auto
  have "length cs = length (m_listeners s) * (length (remdups_adj (m_limit s # n # ns)) - 1)"
  proof (cases "n = m_limit s")
    case True
    then show ?thesis using r e IH by (simp add: change_calls_def)
  next
    case False
    obtain k where "length (remdups_adj (n # ns)) = Suc k" using pos gr0_implies_Suc by blast
    then show ?thesis using False r e IH by (simp add: change_calls_def)
  qed
  moreover have "replay cb cs (m_limit s) = m_limit s'"
    using IH(2) e(3) r Cons.prems(1) by (cases "n = m_limit s") (simp_all add: change_calls_def)
  ultimately show ?case using IH r by simp
qed

theorem settable_limit_publishes_witness:
  "\<exists>s' cs. set_limits [5, 5, 7] (AbstractLimit_NotifyOnChange (0::nat) (SettableLimit_StartingAt 4)) = (s', cs)
    \<and> m_limit s' = 7 \<and> replay 0 cs 4 = 7 \<and> length cs = 2"
proof -
  let ?s = "AbstractLimit_NotifyOnChange (0::nat) (SettableLimit_StartingAt 4)"
  obtain s' cs where r: "set_limits [5, 5, 7] ?s = (s', cs)" by fastforce
  have "0 \<in> set (m_listeners ?s)" "m_limit ?s = 4" "m_listeners ?s = [0]"
    by (simp_all add: limen_simps SettableLimit_StartingAt_def)
  then show ?thesis using settable_limit_publishes [of 0 ?s "[5, 5, 7]" s' cs] r by simp
qed

end
