(* ===== verification/Binary64.thy ===== *)
theory Binary64
  imports Complex_Main Prelude "HOL-Library.Log_Nat"
begin

section \<open>Binary64: the program's \<open>double\<close>\<close>

text \<open>
  IEEE 754 binary64 arithmetic with rounding to nearest, ties to even, as the program's
  \<^verbatim>\<open>double\<close> has it. A finite value is the rational number it denotes; the two infinities and
  the not-a-number value are separate constructors. The result of an operation on finite
  operands is the exact rational result rounded by \<open>to_double\<close>. The sign of a zero is not
  kept: no operation of the program divides by a negative zero or inspects the sign of one.
\<close>

datatype double = Fin rat | PInf | NInf | NaN

subsection \<open>Rounding\<close>

text \<open>\<open>ilog2 x\<close>: the exponent of the leading bit of a positive rational.\<close>

definition ilog2 :: "rat \<Rightarrow> int" where
  "ilog2 x =
     (let (p, q) = quotient_of x; k = bitlen p - bitlen q
      in if 2 powi k \<le> x then k else k - 1)"

text \<open>Round to the nearest integer, ties to even.\<close>

definition rne :: "rat \<Rightarrow> int" where
  "rne x =
     (let f = \<lfloor>x\<rfloor>; d = x - of_int f
      in if d < 1/2 then f else if 1/2 < d then f + 1 else if even f then f else f + 1)"

text \<open>The exponent of the last place of the 53-bit significand at \<open>x\<close>; below the normal range
  it stays at \<open>-1074\<close>.\<close>

definition ulp_exp :: "rat \<Rightarrow> int" where
  "ulp_exp x = max (ilog2 \<bar>x\<bar> - 52) (- 1074)"

definition rnd :: "rat \<Rightarrow> rat" where
  "rnd x = (if x = 0 then 0
            else of_int (rne (x / 2 powi ulp_exp x)) * 2 powi ulp_exp x)"

definition max_finite :: rat where
  "max_finite = (2 ^ 53 - 1) * 2 ^ 971"

definition to_double :: "rat \<Rightarrow> double" where
  "to_double x =
     (let r = rnd x
      in if max_finite < r then PInf else if r < - max_finite then NInf else Fin r)"

subsection \<open>Arithmetic\<close>

fun dneg :: "double \<Rightarrow> double" where
  "dneg (Fin x) = Fin (- x)"
| "dneg PInf = NInf"
| "dneg NInf = PInf"
| "dneg NaN = NaN"

fun dadd :: "double \<Rightarrow> double \<Rightarrow> double" where
  "dadd NaN y = NaN"
| "dadd x NaN = NaN"
| "dadd (Fin x) (Fin y) = to_double (x + y)"
| "dadd PInf NInf = NaN"
| "dadd NInf PInf = NaN"
| "dadd PInf y = PInf"
| "dadd NInf y = NInf"
| "dadd x PInf = PInf"
| "dadd x NInf = NInf"

definition dsub :: "double \<Rightarrow> double \<Rightarrow> double" where
  "dsub x y = dadd x (dneg y)"

definition inf_of_sign :: "rat \<Rightarrow> double" where
  "inf_of_sign x = (if x = 0 then NaN else if 0 < x then PInf else NInf)"

fun dmul :: "double \<Rightarrow> double \<Rightarrow> double" where
  "dmul NaN y = NaN"
| "dmul x NaN = NaN"
| "dmul (Fin x) (Fin y) = to_double (x * y)"
| "dmul PInf (Fin y) = inf_of_sign y"
| "dmul NInf (Fin y) = inf_of_sign (- y)"
| "dmul (Fin x) PInf = inf_of_sign x"
| "dmul (Fin x) NInf = inf_of_sign (- x)"
| "dmul PInf PInf = PInf"
| "dmul PInf NInf = NInf"
| "dmul NInf PInf = NInf"
| "dmul NInf NInf = PInf"

fun ddiv :: "double \<Rightarrow> double \<Rightarrow> double" where
  "ddiv NaN y = NaN"
| "ddiv x NaN = NaN"
| "ddiv (Fin x) (Fin y) = (if y = 0 then inf_of_sign x else to_double (x / y))"
| "ddiv PInf (Fin y) = (if y < 0 then NInf else PInf)"
| "ddiv NInf (Fin y) = (if y < 0 then PInf else NInf)"
| "ddiv (Fin x) y = Fin 0"
| "ddiv x y = NaN"

text \<open>The comparison is false as soon as one operand is not a number.\<close>

fun dless :: "double \<Rightarrow> double \<Rightarrow> bool" where
  "dless NaN y = False"
| "dless x NaN = False"
| "dless (Fin x) (Fin y) = (x < y)"
| "dless NInf y = (y \<noteq> NInf)"
| "dless x PInf = (x \<noteq> PInf)"
| "dless x y = False"

text \<open>\<^verbatim>\<open>std::max(a, b)\<close> is \<^verbatim>\<open>(a < b) ? b : a\<close> and \<^verbatim>\<open>std::min(a, b)\<close> is \<^verbatim>\<open>(b < a) ? b : a\<close>.\<close>

definition dmax :: "double \<Rightarrow> double \<Rightarrow> double" where
  "dmax a b = (if dless a b then b else a)"

definition dmin :: "double \<Rightarrow> double \<Rightarrow> double" where
  "dmin a b = (if dless b a then b else a)"

subsection \<open>Conversions, \<open>ceil\<close>, \<open>lround\<close>, \<open>sqrt\<close>\<close>

definition double_of_int :: "int \<Rightarrow> double" where
  "double_of_int n = to_double (of_int n)"

definition trunc :: "rat \<Rightarrow> int" where
  "trunc x = (if 0 \<le> x then \<lfloor>x\<rfloor> else \<lceil>x\<rceil>)"

fun int_of_double :: "double \<Rightarrow> int res" where
  "int_of_double (Fin x) = (if is_int32 (trunc x) then Inr (trunc x) else Inl BadCast)"
| "int_of_double _ = Inl BadCast"

fun dceil :: "double \<Rightarrow> double" where
  "dceil (Fin x) = Fin (of_int \<lceil>x\<rceil>)"
| "dceil d = d"

text \<open>\<^verbatim>\<open>std::lround\<close> rounds half away from zero, to a 64-bit \<^verbatim>\<open>long\<close>.\<close>

definition round_away :: "rat \<Rightarrow> int" where
  "round_away x = (if 0 \<le> x then \<lfloor>x + 1/2\<rfloor> else \<lceil>x - 1/2\<rceil>)"

fun lround :: "double \<Rightarrow> int res" where
  "lround (Fin x) = (if is_int64 (round_away x) then Inr (round_away x) else Inl BadCast)"
| "lround _ = Inl BadCast"

text \<open>The integer square root, and the correctly rounded square root built on it.\<close>

fun isqrt :: "nat \<Rightarrow> nat" where
  "isqrt n =
     (if n = 0 then 0
      else let r = 2 * isqrt (n div 4) in if (r + 1) * (r + 1) \<le> n then r + 1 else r)"

declare isqrt.simps [simp del]

definition sqrt_exp :: "rat \<Rightarrow> int" where
  "sqrt_exp x = max (ilog2 x div 2 - 52) (- 1074)"

definition sqrt_sig :: "rat \<Rightarrow> int" where
  "sqrt_sig s =
     (let m = int (isqrt (nat \<lfloor>s\<rfloor>)); mid = of_int (m * m + m) + 1/4
      in if s < mid then m else if mid < s then m + 1 else if even m then m else m + 1)"

definition sqrt_rnd :: "rat \<Rightarrow> rat" where
  "sqrt_rnd x = of_int (sqrt_sig (x / 2 powi (2 * sqrt_exp x))) * 2 powi sqrt_exp x"

fun dsqrt :: "double \<Rightarrow> double" where
  "dsqrt (Fin x) = (if x = 0 then Fin 0 else if x < 0 then NaN else to_double (sqrt_rnd x))"
| "dsqrt PInf = PInf"
| "dsqrt _ = NaN"

subsection \<open>The leading exponent\<close>

lemma bitlen_powi:
  assumes "0 < (p::int)"
  shows "2 powi (bitlen p - 1) \<le> (of_int p :: rat)" and "(of_int p :: rat) < 2 powi bitlen p"
proof -
  have b: "0 < bitlen p"
    using assms bitlen_nonneg [of p] bitlen_eq_zero_iff [of p] by linarith
  have le: "2 ^ nat (bitlen p - 1) \<le> p" and lt: "p < 2 ^ nat (bitlen p)"
    using bitlen_bounds [OF assms] by auto
  have "(of_int (2 ^ nat (bitlen p - 1)) :: rat) \<le> of_int p"
    using le by (simp only: of_int_le_iff)
  then show "2 powi (bitlen p - 1) \<le> (of_int p :: rat)"
    using b by (simp add: power_int_def)
  have "(of_int p :: rat) < of_int (2 ^ nat (bitlen p))"
    using lt by (simp only: of_int_less_iff)
  then show "(of_int p :: rat) < 2 powi bitlen p"
    using b by (simp add: power_int_def)
qed

lemma ilog2_bounds:
  assumes "0 < x"
  shows "2 powi ilog2 x \<le> x" and "x < 2 powi (ilog2 x + 1)"
proof -
  obtain p q where pq: "quotient_of x = (p, q)" by (cases "quotient_of x")
  have q: "0 < q" by (rule quotient_of_denom_pos [OF pq])
  have x: "x = of_int p / of_int q" by (rule quotient_of_div [OF pq])
  have p: "0 < p" using assms q x by (simp add: zero_less_divide_iff)
  define k where "k = bitlen p - bitlen q"
  have "x < 2 powi bitlen p / 2 powi (bitlen q - 1)"
    unfolding x by (rule frac_less) (use bitlen_powi [OF p] bitlen_powi [OF q] p q in auto)
  then have up: "x < 2 powi (k + 1)"
    by (simp add: k_def power_int_diff power_int_add field_simps)
  have "2 powi (bitlen p - 1) / 2 powi bitlen q \<le> x"
    unfolding x by (rule frac_le) (use bitlen_powi [OF p] bitlen_powi [OF q] p q in auto)
  then have lo: "2 powi (k - 1) \<le> x"
    by (simp add: k_def power_int_diff power_int_add field_simps)
  have il: "ilog2 x = (if 2 powi k \<le> x then k else k - 1)"
    by (simp add: ilog2_def pq k_def)
  show "2 powi ilog2 x \<le> x" using lo il by auto
  show "x < 2 powi (ilog2 x + 1)" using up il by auto
qed

lemma powi_less_iff: "(2::rat) powi a < 2 powi b \<longleftrightarrow> a < b"
  by (meson linorder_not_le one_le_numeral one_less_numeral_iff power_int_increasing
      power_int_strict_increasing semiring_norm(76))

lemma ilog2_unique:
  assumes "0 < x" and "2 powi k \<le> x" and "x < 2 powi (k + 1)"
  shows "ilog2 x = k"
proof -
  have "2 powi k < (2::rat) powi (ilog2 x + 1)" "2 powi ilog2 x < (2::rat) powi (k + 1)"
    using ilog2_bounds [OF assms(1)] assms(2,3) by auto
  then show ?thesis by (simp add: powi_less_iff)
qed

lemma ilog2_mono:
  assumes "0 < x" and "x \<le> y"
  shows "ilog2 x \<le> ilog2 y"
proof -
  have "0 < y" using assms by simp
  have "2 powi ilog2 x < (2::rat) powi (ilog2 y + 1)"
    using ilog2_bounds [OF \<open>0 < x\<close>] ilog2_bounds [OF \<open>0 < y\<close>] assms by auto
  then show ?thesis by (simp add: powi_less_iff)
qed

subsection \<open>Rounding to integers\<close>

lemma rne_of_int [simp]: "rne (of_int n) = n"
  by (simp add: rne_def)

lemma rne_error: "\<bar>of_int (rne x) - x\<bar> \<le> 1/2"
proof -
  have "of_int \<lfloor>x\<rfloor> \<le> x" "x < of_int \<lfloor>x\<rfloor> + 1"
    using floor_correct [of x] by simp_all
  then show ?thesis unfolding rne_def Let_def by (simp split: if_split)
qed

lemma rne_mono: "x \<le> y \<Longrightarrow> rne x \<le> rne y"
proof -
  assume "x \<le> y"
  then have f: "\<lfloor>x\<rfloor> \<le> \<lfloor>y\<rfloor>" by (rule floor_mono)
  show ?thesis
  proof (cases "\<lfloor>x\<rfloor> = \<lfloor>y\<rfloor>")
    case True
    then show ?thesis using \<open>x \<le> y\<close> by (auto simp: rne_def Let_def)
  next
    case False
    have "rne x \<le> \<lfloor>x\<rfloor> + 1" "\<lfloor>y\<rfloor> \<le> rne y" by (auto simp: rne_def Let_def)
    then show ?thesis using f False by linarith
  qed
qed

lemma rne_le: "x \<le> of_int n \<Longrightarrow> rne x \<le> n"
  using rne_mono [of x "of_int n"] by simp

lemma rne_ge: "of_int n \<le> x \<Longrightarrow> n \<le> rne x"
  using rne_mono [of "of_int n" x] by simp

lemma rne_minus [simp]: "rne (- x) = - rne x"
proof (cases "x = of_int \<lfloor>x\<rfloor>")
  case True
  then obtain n where "x = of_int n" by blast
  then show ?thesis by (simp flip: of_int_minus)
next
  case False
  then have c: "\<lfloor>- x\<rfloor> = - \<lfloor>x\<rfloor> - 1"
    by (metis (no_types) ceiling_altdef ceiling_def add.commute diff_conv_add_uminus minus_add_distrib
        verit_minus_simplify(4))
  show ?thesis by (auto simp: rne_def Let_def c algebra_simps)
qed

subsection \<open>Rounding to 53 bits\<close>

lemma powi2_pos [simp]: "0 < (2::rat) powi k"
  by simp

lemma powi2_split: "(2::rat) powi a = 2 powi (a - b) * 2 powi b"
  by (simp flip: power_int_add)

lemma powi2_double: "(2::rat) powi (2 * k) = 2 powi k * 2 powi k"
  using power_int_add [of "2::rat" k k] by (simp only: mult_2) simp

lemma powi2_int: "0 \<le> k \<Longrightarrow> (2::rat) powi k = of_int (2 ^ nat k)"
  by (simp add: power_int_def)

text \<open>A multiple of the unit in the last place bounds the rounded value on its own side.\<close>

lemma rnd_le_multiple:
  assumes "x \<noteq> 0" and "x \<le> of_int n * 2 powi ulp_exp x"
  shows "rnd x \<le> of_int n * 2 powi ulp_exp x"
proof -
  have "x / 2 powi ulp_exp x \<le> of_int n"
    using assms(2) by (simp add: pos_divide_le_eq)
  then have "rne (x / 2 powi ulp_exp x) \<le> n" by (rule rne_le)
  then show ?thesis using assms(1) by (simp add: rnd_def)
qed

lemma rnd_ge_multiple:
  assumes "x \<noteq> 0" and "of_int n * 2 powi ulp_exp x \<le> x"
  shows "of_int n * 2 powi ulp_exp x \<le> rnd x"
proof -
  have "of_int n \<le> x / 2 powi ulp_exp x"
    using assms(2) by (simp add: pos_le_divide_eq)
  then have "n \<le> rne (x / 2 powi ulp_exp x)" by (rule rne_ge)
  then show ?thesis using assms(1) by (simp add: rnd_def)
qed

lemma rnd_multiple: "x = of_int n * 2 powi ulp_exp x \<Longrightarrow> rnd x = x"
  using rnd_le_multiple [of x n] rnd_ge_multiple [of x n] by (cases "x = 0") (auto simp: rnd_def)

lemma rnd_0 [simp]: "rnd 0 = 0"
  by (simp add: rnd_def)

lemma ulp_exp_minus [simp]: "ulp_exp (- x) = ulp_exp x"
  by (simp add: ulp_exp_def)

lemma rnd_minus [simp]: "rnd (- x) = - rnd x"
  by (simp add: rnd_def)

lemma rnd_le_powi:
  assumes "0 < x" and "x \<le> 2 powi b" and "ulp_exp x \<le> b"
  shows "rnd x \<le> 2 powi b"
proof -
  have eq: "(2::rat) powi b = of_int (2 ^ nat (b - ulp_exp x)) * 2 powi ulp_exp x"
    using assms(3) powi2_split [of b "ulp_exp x"] powi2_int [of "b - ulp_exp x"] by simp
  show ?thesis using rnd_le_multiple [of x "2 ^ nat (b - ulp_exp x)"] assms(1,2) eq by simp
qed

lemma rnd_ge_powi:
  assumes "0 < x" and "2 powi b \<le> x" and "ulp_exp x \<le> b"
  shows "2 powi b \<le> rnd x"
proof -
  have eq: "(2::rat) powi b = of_int (2 ^ nat (b - ulp_exp x)) * 2 powi ulp_exp x"
    using assms(3) powi2_split [of b "ulp_exp x"] powi2_int [of "b - ulp_exp x"] by simp
  show ?thesis using rnd_ge_multiple [of x "2 ^ nat (b - ulp_exp x)"] assms(1,2) eq by simp
qed

lemma rnd_nonneg: "0 \<le> x \<Longrightarrow> 0 \<le> rnd x"
  using rnd_ge_multiple [of x 0] by (cases "x = 0") auto

lemma rnd_mono_pos:
  assumes "0 < x" and "x \<le> y"
  shows "rnd x \<le> rnd y"
proof (cases "ulp_exp x = ulp_exp y")
  case True
  then have "x / 2 powi ulp_exp x \<le> y / 2 powi ulp_exp y"
    using assms by (simp add: divide_right_mono)
  then show ?thesis using assms True rne_mono by (simp add: rnd_def)
next
  case False
  have "0 < y" using assms by simp
  have "ilog2 x \<le> ilog2 y" using assms by (rule ilog2_mono)
  then have e: "ulp_exp x < ulp_exp y" and ey: "ulp_exp y = ilog2 y - 52"
    and l: "ilog2 x + 1 \<le> ilog2 y"
    using False assms \<open>0 < y\<close> by (auto simp: ulp_exp_def max_def split: if_splits)
  have "(2::rat) powi (ilog2 x + 1) \<le> 2 powi ilog2 y"
    using l by (intro power_int_increasing) auto
  then have "rnd x \<le> 2 powi ilog2 y"
    using rnd_le_powi [of x "ilog2 y"] ilog2_bounds [OF assms(1)] assms(1) e ey by auto
  also have "\<dots> \<le> rnd y"
    using rnd_ge_powi [of y "ilog2 y"] ilog2_bounds [OF \<open>0 < y\<close>] \<open>0 < y\<close> ey by auto
  finally show ?thesis .
qed

lemma rnd_mono:
  assumes "x \<le> y"
  shows "rnd x \<le> rnd y"
proof -
  consider "0 < x" | "x \<le> 0" "0 \<le> y" | "y < 0" using assms by linarith
  then show ?thesis
  proof cases
    case 1
    then show ?thesis using assms by (rule rnd_mono_pos)
  next
    case 2
    then show ?thesis using rnd_nonneg [of y] rnd_nonneg [of "- x"] by simp
  next
    case 3
    then show ?thesis using rnd_mono_pos [of "- y" "- x"] assms by simp
  qed
qed

lemma rnd_dyadic_less:
  assumes "\<bar>n\<bar> < 2 ^ 53" and "- 1074 \<le> k"
  shows "rnd (of_int n * 2 powi k) = of_int n * 2 powi k"
proof (cases "n = 0")
  case False
  define x where "x = (of_int n * 2 powi k :: rat)"
  have x0: "0 < \<bar>x\<bar>" using False by (simp add: x_def)
  have "of_int \<bar>n\<bar> < (2 ^ 53 :: rat)" using assms(1) by (metis of_int_less_iff of_int_numeral of_int_power)
  then have "\<bar>x\<bar> < 2 ^ 53 * 2 powi k" by (simp add: x_def abs_mult)
  then have "\<bar>x\<bar> < 2 powi (53 + k)" by (simp add: power_int_add)
  then have "2 powi ilog2 \<bar>x\<bar> < (2::rat) powi (53 + k)"
    using ilog2_bounds(1) [OF x0] by (rule le_less_trans [rotated])
  then have e: "ulp_exp x \<le> k" using assms(2) by (simp add: powi_less_iff ulp_exp_def)
  have "2 powi k = of_int (2 ^ nat (k - ulp_exp x)) * (2::rat) powi ulp_exp x"
    using e powi2_split [of k "ulp_exp x"] powi2_int [of "k - ulp_exp x"] by simp
  then have "x = of_int (n * 2 ^ nat (k - ulp_exp x)) * 2 powi ulp_exp x"
    by (simp only: x_def of_int_mult mult.assoc)
  then have "rnd x = x" by (rule rnd_multiple)
  then show ?thesis unfolding x_def .
qed simp

lemma rnd_dyadic:
  assumes "\<bar>n\<bar> \<le> 2 ^ 53" and "- 1074 \<le> k"
  shows "rnd (of_int n * 2 powi k) = of_int n * 2 powi k"
proof (cases "\<bar>n\<bar> = 2 ^ 53")
  case True
  then have "even n" by (metis dvd_abs_iff dvd_power even_numeral zero_less_numeral)
  then obtain m where n: "n = 2 * m" by blast
  have "\<bar>m\<bar> < 2 ^ 53" using True n by simp
  then have "rnd (of_int m * 2 powi (k + 1)) = of_int m * 2 powi (k + 1)"
    using assms(2) by (intro rnd_dyadic_less) auto
  then show ?thesis by (simp add: n power_int_add mult.commute mult.left_commute)
next
  case False
  then show ?thesis using assms by (intro rnd_dyadic_less) auto
qed

lemma rnd_of_int [simp]: "\<bar>n\<bar> \<le> 2 ^ 53 \<Longrightarrow> rnd (of_int n) = of_int n"
  using rnd_dyadic [of n 0] by simp

lemma rnd_numeral [simp]: "(numeral w :: int) \<le> 2 ^ 53 \<Longrightarrow> rnd (numeral w) = numeral w"
  using rnd_of_int [of "numeral w"] by simp

lemma rnd_1 [simp]: "rnd 1 = 1"
  using rnd_of_int [of 1] by simp

text \<open>A rounded number has a significand of at most 53 bits, so rounding again changes nothing.\<close>

lemma rnd_significand:
  obtains n where "rnd x = of_int n * 2 powi ulp_exp x" and "\<bar>n\<bar> \<le> 2 ^ 53"
proof (cases "x = 0")
  case True
  then show ?thesis using that [of 0] by simp
next
  case False
  let ?u = "(2::rat) powi ulp_exp x"
  have x0: "0 < \<bar>x\<bar>" using False by simp
  have "(2::rat) powi (ilog2 \<bar>x\<bar> + 1) \<le> 2 powi (ulp_exp x + 53)"
    by (intro power_int_increasing) (auto simp: ulp_exp_def)
  then have "\<bar>x\<bar> \<le> ?u * 2 ^ 53" using ilog2_bounds(2) [OF x0] by (simp add: power_int_add)
  then have "\<bar>x / ?u\<bar> \<le> 2 ^ 53" by (simp add: abs_divide pos_divide_le_eq mult.commute)
  then have "x / ?u \<le> 2 ^ 53 \<and> - (x / ?u) \<le> 2 ^ 53" by (simp only: abs_le_iff)
  then have u: "x / ?u \<le> of_int (2 ^ 53)" and l: "of_int (- (2 ^ 53)) \<le> x / ?u"
    unfolding of_int_minus of_int_power of_int_numeral by linarith+
  from rne_le [OF u] rne_ge [OF l] have "rne (x / ?u) \<le> 2 ^ 53" "- (2 ^ 53) \<le> rne (x / ?u)" .
  then show ?thesis using that [of "rne (x / ?u)"] False by (simp add: rnd_def abs_le_iff)
qed

lemma rnd_idem [simp]: "rnd (rnd x) = rnd x"
proof -
  obtain n where n: "rnd x = of_int n * 2 powi ulp_exp x" "\<bar>n\<bar> \<le> 2 ^ 53" by (rule rnd_significand)
  show ?thesis unfolding n(1) by (rule rnd_dyadic [OF n(2)]) (simp add: ulp_exp_def)
qed

lemma rnd_halve:
  assumes "rnd x = x" and "1 \<le> x"
  shows "rnd (x / 2) = x / 2"
proof -
  obtain n where n: "rnd x = of_int n * 2 powi ulp_exp x" "\<bar>n\<bar> \<le> 2 ^ 53" by (rule rnd_significand)
  have "(2::rat) powi 0 < 2 powi (ilog2 x + 1)"
    using ilog2_bounds(2) [of x] assms(2) by simp
  then have "- 1074 \<le> ulp_exp x - 1"
    unfolding powi_less_iff using assms(2) by (simp add: ulp_exp_def)
  then have "rnd (of_int n * 2 powi (ulp_exp x - 1)) = of_int n * 2 powi (ulp_exp x - 1)"
    using n(2) by (rule rnd_dyadic [rotated])
  moreover have "of_int n * 2 powi (ulp_exp x - 1) = x / 2"
    using n(1) assms(1) by (simp add: power_int_diff)
  ultimately show ?thesis by simp
qed

lemma rnd_half [simp]: "rnd (1/2) = 1/2"
  using rnd_dyadic [of 1 "-1"] by simp

lemma rnd_error:
  assumes "x \<noteq> 0"
  shows "\<bar>rnd x - x\<bar> \<le> 2 powi ulp_exp x / 2"
proof -
  let ?u = "(2::rat) powi ulp_exp x"
  have "rnd x - x = (of_int (rne (x / ?u)) - x / ?u) * ?u"
    using assms by (simp add: rnd_def left_diff_distrib)
  then have "\<bar>rnd x - x\<bar> = \<bar>of_int (rne (x / ?u)) - x / ?u\<bar> * ?u"
    by (simp add: abs_mult)
  also have "\<dots> \<le> 1/2 * ?u" by (rule mult_right_mono [OF rne_error]) simp
  finally show ?thesis by simp
qed

lemma rnd_rel_error:
  assumes "2 powi (- 1022) \<le> \<bar>x\<bar>"
  shows "\<bar>rnd x - x\<bar> \<le> \<bar>x\<bar> * 2 powi (- 53)"
proof -
  have x0: "0 < \<bar>x\<bar>" using assms powi2_pos [of "- 1022"] by linarith
  have "(2::rat) powi (- 1022) < 2 powi (ilog2 \<bar>x\<bar> + 1)"
    using assms ilog2_bounds(2) [OF x0] by (rule le_less_trans)
  then have "ulp_exp x = ilog2 \<bar>x\<bar> - 52"
    unfolding powi_less_iff by (simp add: ulp_exp_def)
  then have "2 powi ulp_exp x / 2 = 2 powi ilog2 \<bar>x\<bar> * (2::rat) powi (- 53)"
    by (simp add: power_int_diff power_int_minus)
  also have "\<dots> \<le> \<bar>x\<bar> * 2 powi (- 53)"
    using ilog2_bounds(1) [OF x0] by (rule mult_right_mono) simp
  finally show ?thesis using rnd_error [of x] x0 by linarith
qed


subsection \<open>Finite results\<close>

lemma rnd_max_finite [simp]: "rnd max_finite = max_finite"
  using rnd_dyadic [of "2 ^ 53 - 1" 971] by (simp add: max_finite_def)

lemma to_double_Fin: "\<bar>x\<bar> \<le> max_finite \<Longrightarrow> to_double x = Fin (rnd x)"
  using rnd_mono [of x max_finite] rnd_mono [of "- x" max_finite]
  by (auto simp: to_double_def Let_def abs_le_iff)

lemma max_finite_large: "2 ^ 1000 \<le> max_finite"
  by (simp add: max_finite_def)

lemma to_double_finite:
  assumes "\<bar>x\<bar> \<le> 2 ^ 1000"
  shows "to_double x = Fin (rnd x)"
  using assms max_finite_large by (intro to_double_Fin) linarith

text \<open>The finite values a computation can reach are rounded numbers.\<close>

fun is_double :: "double \<Rightarrow> bool" where
  "is_double (Fin x) = (rnd x = x)"
| "is_double d = True"

lemma is_double_to_double [simp]: "is_double (to_double x)"
  by (simp add: to_double_def Let_def)

lemma is_double_dadd [simp]: "is_double (dadd x y)"
  by (cases "(x, y)" rule: dadd.cases) auto

lemma is_double_dmax [simp]: "is_double x \<Longrightarrow> is_double y \<Longrightarrow> is_double (dmax x y)"
  by (simp add: dmax_def)

lemma is_double_dmin [simp]: "is_double x \<Longrightarrow> is_double y \<Longrightarrow> is_double (dmin x y)"
  by (simp add: dmin_def)

lemma to_double_small: "\<bar>x\<bar> \<le> 2 ^ 64 \<Longrightarrow> to_double x = Fin (rnd x)"
  using power_increasing [of 64 1000 "2::rat"] by (intro to_double_finite) linarith

lemma double_of_int_exact:
  assumes "\<bar>n\<bar> \<le> 2 ^ 53"
  shows "double_of_int n = Fin (of_int n)"
proof -
  have "\<bar>of_int n :: rat\<bar> \<le> 2 ^ 53"
    using assms by (metis of_int_abs of_int_le_iff of_int_numeral of_int_power)
  then have "\<bar>of_int n :: rat\<bar> \<le> 2 ^ 1000" by simp
  then show ?thesis using assms by (simp add: double_of_int_def to_double_finite)
qed

lemma double_of_int32 [simp]: "is_int32 n \<Longrightarrow> double_of_int n = Fin (of_int n)"
  by (rule double_of_int_exact) (auto simp: is_int32_def)

lemma to_double_numeral [simp]:
  assumes "(numeral w :: int) \<le> 2 ^ 53"
  shows "to_double (numeral w) = Fin (numeral w)"
  using double_of_int_exact [of "numeral w"] assms by (simp add: double_of_int_def)

lemma to_double_0 [simp]: "to_double 0 = Fin 0"
  using double_of_int_exact [of 0] by (simp add: double_of_int_def)

lemma to_double_1 [simp]: "to_double 1 = Fin 1"
  using double_of_int_exact [of 1] by (simp add: double_of_int_def)

lemma dmax_Fin [simp]: "dmax (Fin x) (Fin y) = Fin (max x y)"
  by (simp add: dmax_def max_def)

lemma dmin_Fin [simp]: "dmin (Fin x) (Fin y) = Fin (min x y)"
  by (auto simp: dmin_def min_def)

lemma dless_NaN [simp]: "\<not> dless x NaN"
  by (cases x) auto

text \<open>The clamp of the program: whatever the third operand, not-a-number included, the result is
  one of the bounds or lies between them.\<close>

lemma clamp_Fin:
  "\<exists>z. dmax (Fin lo) (dmin (Fin hi) d) = Fin z \<and> lo \<le> z \<and> z \<le> max lo hi"
  by (cases d) (auto simp: dmax_def dmin_def)

lemma trunc_mono: "x \<le> y \<Longrightarrow> trunc x \<le> trunc y"
proof -
  assume "x \<le> y"
  moreover have "\<lceil>x\<rceil> \<le> \<lfloor>y\<rfloor>" if "0 \<le> y" and "x < 0"
  proof -
    have "\<lceil>x\<rceil> \<le> 0" and "0 \<le> \<lfloor>y\<rfloor>" using that by simp_all
    then show ?thesis by linarith
  qed
  ultimately show ?thesis
    by (auto simp: trunc_def floor_mono ceiling_mono)
qed

lemma trunc_of_int [simp]: "trunc (of_int n) = n"
  by (simp add: trunc_def)

lemma trunc_between:
  assumes "of_int a \<le> x" and "x \<le> of_int b"
  shows "a \<le> trunc x \<and> trunc x \<le> b"
  using trunc_mono [OF assms(1)] trunc_mono [OF assms(2)] by simp

subsection \<open>Square roots\<close>

lemma isqrt_bounds: "isqrt n * isqrt n \<le> n \<and> n < (isqrt n + 1) * (isqrt n + 1)"
proof (induction n rule: isqrt.induct)
  case (1 n)
  show ?case
  proof (cases "n = 0")
    case True
    then show ?thesis by (simp add: isqrt.simps)
  next
    case False
    define r where "r = isqrt (n div 4)"
    have "r * r \<le> n div 4" "n div 4 < (r + 1) * (r + 1)"
      using "1.IH" [OF False] by (simp_all add: r_def)
    then have "4 * (r * r) \<le> n" "n < 4 * ((r + 1) * (r + 1))" by auto
    then have "(2 * r) * (2 * r) \<le> n" "n < (2 * r + 2) * (2 * r + 2)"
      by (simp_all add: algebra_simps)
    moreover have "isqrt n = (if (2 * r + 1) * (2 * r + 1) \<le> n then 2 * r + 1 else 2 * r)"
      using False by (simp add: isqrt.simps [of n] r_def Let_def)
    ultimately show ?thesis by simp
  qed
qed

lemma isqrt_int:
  assumes "0 \<le> z" and "m = int (isqrt (nat z))"
  shows "0 \<le> m" and "m * m \<le> z" and "z < (m + 1) * (m + 1)"
proof -
  have "int (isqrt (nat z) * isqrt (nat z)) \<le> int (nat z)"
    "int (nat z) < int ((isqrt (nat z) + 1) * (isqrt (nat z) + 1))"
    using isqrt_bounds [of "nat z"] by (simp_all only: of_nat_le_iff of_nat_less_iff)
  then show "m * m \<le> z" and "z < (m + 1) * (m + 1)"
    using assms by (simp_all add: algebra_simps)
qed (simp add: assms)

lemma square_le_imp_le: "0 \<le> (m::int) \<Longrightarrow> 0 \<le> k \<Longrightarrow> m * m < (k + 1) * (k + 1) \<Longrightarrow> m \<le> k"
  using mult_mono [of "k + 1" m "k + 1" m] by linarith

lemma scale_square:
  fixes u :: rat
  assumes "0 < u"
  shows "x \<le> (k * u)\<^sup>2 \<longleftrightarrow> x / (u * u) \<le> k * k" and "(k * u)\<^sup>2 \<le> x \<longleftrightarrow> k * k \<le> x / (u * u)"
  using assms by (simp_all add: field_simps power2_eq_square)

lemma sqrt_sig_le:
  assumes "0 < s" and "0 \<le> k" and "s \<le> of_int (k * k)"
  shows "sqrt_sig s \<le> k"
proof -
  define m where "m = int (isqrt (nat \<lfloor>s\<rfloor>))"
  have "\<lfloor>s\<rfloor> \<le> k * k" using assms(3) by (metis floor_mono floor_of_int)
  moreover have m: "0 \<le> m" "m * m \<le> \<lfloor>s\<rfloor>"
    using isqrt_int [of "\<lfloor>s\<rfloor>" m] assms(1) by (simp_all add: m_def)
  ultimately have mk: "m \<le> k"
    using square_le_imp_le [OF m(1) assms(2)] assms(2) by (simp add: algebra_simps)
  show ?thesis
  proof (cases "m = k")
    case True
    have "(0::rat) \<le> of_int m" using m by simp
    then have "s < of_int (m * m + m) + 1/4" using assms(3) True by simp
    then show ?thesis using mk unfolding sqrt_sig_def m_def [symmetric] Let_def by simp
  next
    case False
    then show ?thesis using mk unfolding sqrt_sig_def m_def [symmetric] Let_def by auto
  qed
qed

lemma sqrt_sig_ge:
  assumes "0 < s" and "0 \<le> k" and "of_int (k * k) \<le> s"
  shows "k \<le> sqrt_sig s"
proof -
  define m where "m = int (isqrt (nat \<lfloor>s\<rfloor>))"
  have "k * k \<le> \<lfloor>s\<rfloor>" using assms(3) by (metis floor_mono floor_of_int)
  moreover have m: "0 \<le> m" "\<lfloor>s\<rfloor> < (m + 1) * (m + 1)"
    using isqrt_int [of "\<lfloor>s\<rfloor>" m] assms(1) by (simp_all add: m_def)
  ultimately have "k \<le> m" using square_le_imp_le [OF assms(2) m(1)] by simp
  then show ?thesis unfolding sqrt_sig_def m_def [symmetric] Let_def by auto
qed

text \<open>A multiple of the unit of the root's last place bounds the rounded root on its own side.\<close>

lemma sqrt_rnd_le:
  assumes "0 < x" and "0 \<le> k" and "x \<le> (of_int k * 2 powi sqrt_exp x)\<^sup>2"
  shows "sqrt_rnd x \<le> of_int k * 2 powi sqrt_exp x"
proof -
  have "x / 2 powi (2 * sqrt_exp x) \<le> of_int (k * k)"
    using assms(3) unfolding powi2_double of_int_mult by (simp only: scale_square powi2_pos)
  then have "sqrt_sig (x / 2 powi (2 * sqrt_exp x)) \<le> k"
    using assms by (intro sqrt_sig_le) simp_all
  then show ?thesis by (simp add: sqrt_rnd_def)
qed

lemma sqrt_rnd_ge:
  assumes "0 < x" and "0 \<le> k" and "(of_int k * 2 powi sqrt_exp x)\<^sup>2 \<le> x"
  shows "of_int k * 2 powi sqrt_exp x \<le> sqrt_rnd x"
proof -
  have "of_int (k * k) \<le> x / 2 powi (2 * sqrt_exp x)"
    using assms(3) unfolding powi2_double of_int_mult by (simp only: scale_square powi2_pos)
  then have "k \<le> sqrt_sig (x / 2 powi (2 * sqrt_exp x))"
    using assms by (intro sqrt_sig_ge) simp_all
  then show ?thesis by (simp add: sqrt_rnd_def)
qed

text \<open>The rounded root has at most 53 bits, so that rounding it again changes nothing.\<close>

lemma rnd_sqrt_rnd:
  assumes "0 < x"
  shows "rnd (sqrt_rnd x) = sqrt_rnd x"
proof -
  let ?s = "x / 2 powi (2 * sqrt_exp x)"
  have "ilog2 x + 1 \<le> 2 * sqrt_exp x + 106" unfolding sqrt_exp_def max_def by presburger
  then have "(2::rat) powi (ilog2 x + 1) \<le> 2 powi (2 * sqrt_exp x + 106)"
    by (intro power_int_increasing) auto
  then have "x \<le> 2 powi (2 * sqrt_exp x) * 2 ^ 106"
    using ilog2_bounds(2) [OF assms] by (simp add: power_int_add)
  then have "?s \<le> 2 ^ 106" by (simp add: pos_divide_le_eq mult.commute)
  then have "?s \<le> of_int (2 ^ 53 * 2 ^ 53)" by simp
  then have "sqrt_sig ?s \<le> 2 ^ 53" using assms by (intro sqrt_sig_le) simp_all
  moreover have "0 \<le> sqrt_sig ?s" using assms by (intro sqrt_sig_ge) simp_all
  ultimately show ?thesis
    unfolding sqrt_rnd_def by (intro rnd_dyadic) (simp_all add: sqrt_exp_def)
qed

text \<open>For a 32-bit integer the rounded root and the exact one have the same ceiling.\<close>

lemma sqrt_exp_int32:
  assumes "0 < n" and "n \<le> INT_MAX"
  shows "- 52 \<le> sqrt_exp (of_int n)" and "sqrt_exp (of_int n) \<le> - 37"
proof -
  let ?x = "of_int n :: rat"
  have x0: "0 < ?x" using assms by simp
  have "?x < 2 powi 31" using assms(2) by (simp add: power_int_def)
  then have "2 powi ilog2 ?x < (2::rat) powi 31" using ilog2_bounds(1) [OF x0] by linarith
  then have "ilog2 ?x < 31" by (simp only: powi_less_iff)
  moreover have "(1::rat) < 2 powi (ilog2 ?x + 1)"
    by (rule le_less_trans [OF _ ilog2_bounds(2) [OF x0]]) (use assms(1) in simp)
  then have "(2::rat) powi 0 < 2 powi (ilog2 ?x + 1)" by simp
  then have "0 < ilog2 ?x + 1" by (simp only: powi_less_iff)
  ultimately show "- 52 \<le> sqrt_exp ?x" "sqrt_exp ?x \<le> - 37" by (auto simp: sqrt_exp_def)
qed

text \<open>One unit in the last place above \<open>c\<close> still has its square below \<open>c * c + 1\<close>.\<close>

lemma ulp_square:
  assumes "0 \<le> c" and "c \<le> 46340" and "0 < u" and "u \<le> 1 / 2 ^ 37"
  shows "(c + u)\<^sup>2 \<le> c * c + (1 :: rat)"
proof -
  have "c * u \<le> 46340 * (1 / 2 ^ 37)" using assms by (intro mult_mono) auto
  moreover have "u * u \<le> 1 * (1 / 2 ^ 37)" using assms by (intro mult_mono) auto
  ultimately show ?thesis by (simp add: power2_eq_square algebra_simps)
qed

lemma sqrt_rnd_ceiling:
  assumes "0 < n" and "n \<le> INT_MAX" and "0 < k" and "(k - 1) * (k - 1) < n" and "n \<le> k * k"
  shows "of_int (k - 1) < sqrt_rnd (of_int n)" and "sqrt_rnd (of_int n) \<le> of_int k"
proof -
  let ?x = "of_int n :: rat"
  define e where "e = sqrt_exp ?x"
  have x0: "0 < ?x" using assms by simp
  have e: "- 52 \<le> e" "e \<le> - 37" using sqrt_exp_int32 [OF assms(1,2)] by (simp_all add: e_def)
  define j where "j = (2::int) ^ nat (- e)"
  have "of_int j = (2::rat) powi (- e)" using e powi2_int [of "- e"] by (simp add: j_def)
  then have j: "of_int j * 2 powi e = (1::rat)" by (simp add: power_int_minus)
  have mult: "of_int (i * j) * 2 powi e = (of_int i :: rat)" for i
    using j by (simp add: mult.assoc)
  show "sqrt_rnd ?x \<le> of_int k"
  proof -
    have "?x \<le> (of_int (k * j) * 2 powi e)\<^sup>2"
      unfolding mult using assms(5) by (metis of_int_le_iff of_int_mult power2_eq_square)
    then have "sqrt_rnd ?x \<le> of_int (k * j) * 2 powi e"
      unfolding e_def by (intro sqrt_rnd_le [OF x0]) (use assms(3) in \<open>simp_all add: j_def\<close>)
    then show ?thesis unfolding mult .
  qed
  show "of_int (k - 1) < sqrt_rnd ?x"
  proof -
    define u where "u = (2::rat) powi e"
    define c where "c = (of_int (k - 1) :: rat)"
    have u: "0 < u" "u \<le> 1 / 2 ^ 37"
      using e power_int_increasing [of e "- 37" "2::rat"] by (simp_all add: u_def power_int_def field_simps)
    have "k - 1 \<le> 46340"
      using assms(2,3,4) square_le_imp_le [of "k - 1" 46340] by auto
    then have "c \<le> of_int 46340" unfolding c_def by (simp only: of_int_le_iff)
    moreover have "of_int 0 \<le> c" unfolding c_def of_int_le_iff using assms(3) by linarith
    ultimately have c: "0 \<le> c" "c \<le> 46340" by simp_all
    have "(c + u)\<^sup>2 \<le> c * c + 1" by (rule ulp_square [OF c u])
    also have "\<dots> \<le> ?x"
      unfolding c_def using assms(4) by (metis of_int_1 of_int_add of_int_le_iff of_int_mult zless_imp_add1_zle)
    finally have sq: "(c + u)\<^sup>2 \<le> ?x" .
    have eq: "of_int ((k - 1) * j + 1) * 2 powi e = c + u"
      using mult [of "k - 1"] by (simp add: c_def u_def algebra_simps)
    have "of_int ((k - 1) * j + 1) * 2 powi e \<le> sqrt_rnd ?x"
      unfolding e_def by (rule sqrt_rnd_ge [OF x0]) (use assms(3) sq eq in \<open>simp_all add: e_def j_def\<close>)
    then show ?thesis using eq u by (simp add: c_def)
  qed
qed

text \<open>The root of an unsigned 32-bit number other than zero is between one and the number.\<close>

lemma sqrt_rnd_bounds:
  assumes "1 \<le> n" and "n < 2 ^ 32"
  shows "1 \<le> sqrt_rnd (of_int n)" and "sqrt_rnd (of_int n) \<le> of_int n"
proof -
  let ?x = "of_int n :: rat"
  define e where "e = sqrt_exp ?x"
  have x0: "0 < ?x" using assms by simp
  have "?x < of_int (2 ^ 32)" using assms(2) by (simp only: of_int_less_iff)
  then have "?x < 2 powi 32" by (simp add: power_int_def)
  then have "2 powi ilog2 ?x < (2::rat) powi 32" using ilog2_bounds(1) [OF x0] by linarith
  then have "ilog2 ?x < 32" by (simp only: powi_less_iff)
  then have e: "e \<le> 0" by (auto simp: e_def sqrt_exp_def)
  define j where "j = (2::int) ^ nat (- e)"
  have "of_int j = (2::rat) powi (- e)" using e powi2_int [of "- e"] by (simp add: j_def)
  then have mult: "of_int (i * j) * 2 powi e = (of_int i :: rat)" for i
    by (simp add: power_int_minus mult.assoc)
  have "of_int (1 * j) * 2 powi e \<le> sqrt_rnd ?x"
    unfolding e_def by (rule sqrt_rnd_ge [OF x0]) (use assms(1) mult [of 1] in \<open>simp_all add: e_def j_def\<close>)
  then show "1 \<le> sqrt_rnd ?x" unfolding mult by simp
  have "?x * 1 \<le> ?x * ?x" using assms(1) by (intro mult_left_mono) simp_all
  then have "?x \<le> (of_int (n * j) * 2 powi e)\<^sup>2" unfolding mult by (simp add: power2_eq_square)
  then have "sqrt_rnd ?x \<le> of_int (n * j) * 2 powi e"
    unfolding e_def by (intro sqrt_rnd_le [OF x0]) (use assms(1) in \<open>simp_all add: j_def\<close>)
  then show "sqrt_rnd ?x \<le> of_int n" unfolding mult .
qed

lemma dsqrt_uint32:
  assumes "1 \<le> n" and "n < 2 ^ 32"
  shows "dsqrt (double_of_int n) = Fin (sqrt_rnd (of_int n))"
proof -
  have "(of_int n :: rat) < of_int (2 ^ 32)" using assms(2) by (simp only: of_int_less_iff)
  then have "\<bar>sqrt_rnd (of_int n)\<bar> \<le> 2 ^ 64" using sqrt_rnd_bounds [OF assms] by simp
  moreover have "double_of_int n = Fin (of_int n)" using assms by (intro double_of_int_exact) simp
  ultimately show ?thesis using assms(1) rnd_sqrt_rnd [of "of_int n"] by (simp add: to_double_small)
qed


subsection \<open>What the algorithms need of the rounding\<close>

text \<open>
  The numerical arguments about the algorithms use three facts on the rounding and no more:
  it is monotone, exact on integers of up to 53 bits, and errs by at most a \<open>2^-53\<close> part of
  its argument (plus a constant that covers the subnormal range).
\<close>

locale rounding =
  fixes rd :: "rat \<Rightarrow> rat"
  assumes rd_mono: "x \<le> y \<Longrightarrow> rd x \<le> rd y"
    and rd_int: "\<bar>n\<bar> \<le> 2 ^ 53 \<Longrightarrow> rd (of_int n) = of_int n"
    and rd_err: "\<bar>rd x - x\<bar> \<le> \<bar>x\<bar> / 2 ^ 53 + 1 / 2 ^ 60"
begin

lemma rd_err_bound: "\<bar>x\<bar> \<le> m \<Longrightarrow> \<bar>rd x - x\<bar> \<le> m / 2 ^ 53 + 1 / 2 ^ 60"
  using rd_err [of x] divide_right_mono [of "\<bar>x\<bar>" m "2 ^ 53"] by simp

lemma rd_between:
  assumes "of_int a \<le> x" and "x \<le> of_int b" and "\<bar>a\<bar> \<le> 2 ^ 53" and "\<bar>b\<bar> \<le> 2 ^ 53"
  shows "of_int a \<le> rd x \<and> rd x \<le> of_int b"
  using rd_mono [OF assms(1)] rd_mono [OF assms(2)] rd_int [OF assms(3)] rd_int [OF assms(4)]
  by simp

text \<open>A product of a bounded number and a number of the unit interval, rounded.\<close>

lemma rd_scale:
  assumes "0 \<le> a" and "a \<le> of_int m" and "0 \<le> m" and "m \<le> 2 ^ 53" and "0 \<le> g" and "g \<le> 1"
  shows "0 \<le> rd (a * g) \<and> rd (a * g) \<le> of_int m \<and> \<bar>rd (a * g) - a * g\<bar> \<le> of_int m / 2 ^ 53 + 1 / 2 ^ 60"
proof -
  have "0 \<le> a * g" using assms by simp
  moreover have "a * g \<le> of_int m" using assms mult_mono [of a "of_int m" g 1] by simp
  ultimately show ?thesis
    using rd_between [of 0 "a * g" m] assms(3,4) rd_err_bound [of "a * g" "of_int m"] by simp
qed

text \<open>The smoothing step \<open>a (1 - s) + b s\<close>, every operation rounded.\<close>

lemma rd_blend:
  assumes a: "0 \<le> a" "a \<le> 2 ^ 31" and b: "0 \<le> b" "b \<le> 2 ^ 32" and s: "0 \<le> s" "s \<le> 1"
  shows "0 \<le> rd (rd (a * rd (1 - s)) + rd (b * s)) \<and> rd (rd (a * rd (1 - s)) + rd (b * s)) \<le> 2 ^ 33
    \<and> \<bar>rd (rd (a * rd (1 - s)) + rd (b * s)) - (a * (1 - s) + b * s)\<bar> \<le> 1 / 2 ^ 18"
proof -
  define c where "c = rd (1 - s)"
  define A where "A = rd (a * c)"
  define B where "B = rd (b * s)"
  have c: "0 \<le> c" "c \<le> 1" "\<bar>c - (1 - s)\<bar> \<le> 1 / 2 ^ 53 + 1 / 2 ^ 60"
    using rd_between [of 0 "1 - s" 1] rd_err_bound [of "1 - s" 1] s by (simp_all add: c_def)
  have A: "0 \<le> A" "A \<le> 2 ^ 31" "\<bar>A - a * c\<bar> \<le> 2 ^ 31 / 2 ^ 53 + 1 / 2 ^ 60"
    using rd_scale [of a "2 ^ 31" c] a c by (simp_all add: A_def)
  have B: "0 \<le> B" "B \<le> 2 ^ 32" "\<bar>B - b * s\<bar> \<le> 2 ^ 32 / 2 ^ 53 + 1 / 2 ^ 60"
    using rd_scale [of b "2 ^ 32" s] b s by (simp_all add: B_def)
  have sum: "0 \<le> rd (A + B)" "rd (A + B) \<le> 2 ^ 33" "\<bar>rd (A + B) - (A + B)\<bar> \<le> 2 ^ 33 / 2 ^ 53 + 1 / 2 ^ 60"
    using rd_between [of 0 "A + B" "2 ^ 33"] rd_err_bound [of "A + B" "2 ^ 33"] A B by simp_all
  have "\<bar>a * c - a * (1 - s)\<bar> = a * \<bar>c - (1 - s)\<bar>" using a by (simp add: abs_mult flip: right_diff_distrib)
  also have "\<dots> \<le> 2 ^ 31 * (1 / 2 ^ 53 + 1 / 2 ^ 60)" using a c by (intro mult_mono) auto
  finally have "\<bar>a * c - a * (1 - s)\<bar> \<le> 2 ^ 31 * (1 / 2 ^ 53 + 1 / 2 ^ 60)" .
  then have "\<bar>rd (A + B) - (a * (1 - s) + b * s)\<bar> \<le> 1 / 2 ^ 18"
    using A(3) B(3) sum(3) unfolding abs_le_iff right_diff_distrib mult_1_right by simp
  then show ?thesis using sum by (simp add: A_def B_def c_def)
qed

end

lemma rnd_abs_error: "\<bar>rnd x - x\<bar> \<le> \<bar>x\<bar> / 2 ^ 53 + 1 / 2 ^ 60"
proof (cases "2 powi (- 1022) \<le> \<bar>x\<bar>")
  case True
  have "(2::rat) powi (- 53) = 1 / 2 ^ 53" by (simp add: power_int_minus field_simps)
  then show ?thesis using rnd_rel_error [OF True] by simp
next
  case False
  show ?thesis
  proof (cases "x = 0")
    case False
    then have x0: "0 < \<bar>x\<bar>" by simp
    have "2 powi ilog2 \<bar>x\<bar> < (2::rat) powi (- 1022)"
      using ilog2_bounds(1) [OF x0] \<open>\<not> 2 powi (- 1022) \<le> \<bar>x\<bar>\<close> by simp
    then have e: "ulp_exp x = - 1074" unfolding powi_less_iff by (simp add: ulp_exp_def)
    have "\<bar>rnd x - x\<bar> \<le> 2 powi (- 1074) / 2" using rnd_error [OF False] unfolding e .
    also have "\<dots> \<le> 2 powi (- 60)"
      using power_int_increasing [of "- 1074" "- 60" "2::rat"] powi2_pos [of "- 1074"] by linarith
    also have "\<dots> = 1 / 2 ^ 60" by (simp add: power_int_minus field_simps)
    also have "\<dots> \<le> \<bar>x\<bar> / 2 ^ 53 + 1 / 2 ^ 60" by simp
    finally show ?thesis .
  qed simp
qed

interpretation b64: rounding rnd
  by unfold_locales (fact rnd_mono rnd_of_int rnd_abs_error)+

end
