(* ===== verification/Measurements.thy ===== *)
theory Measurements
  imports Binary64
begin

section \<open>Measurements: aggregates over a stream of samples\<close>

text \<open>
  The interface \<^verbatim>\<open>Measurement\<close> (\<^verbatim>\<open>measurement.h\<close>) and its three implementations
  \<^verbatim>\<open>ExpAvgMeasurement\<close> (\<^verbatim>\<open>exp_avg_measurement.h\<close>, \<^verbatim>\<open>exp_avg_measurement.cc\<close>), \<^verbatim>\<open>MinimumMeasurement\<close>
  (\<^verbatim>\<open>minimum_measurement.h\<close>) and \<^verbatim>\<open>SingleMeasurement\<close> (\<^verbatim>\<open>single_measurement.h\<close>). Every
  \<^verbatim>\<open>double\<close> is a \<open>double\<close> of the theory \<open>Binary64\<close>, every operation on one is rounded.
  \<open>Add\<close> can reach undefined behaviour in \<^verbatim>\<open>ExpAvgMeasurement\<close> only, where \<^verbatim>\<open>n + 1\<close> and
  \<^verbatim>\<open>++count_\<close> are computed in \<^verbatim>\<open>int\<close>.
\<close>

subsection \<open>The interface\<close>

record 'm measurement_ops =
  M_Add :: "double \<Rightarrow> 'm \<Rightarrow> (double \<times> 'm) res"
  M_Get :: "'m \<Rightarrow> double"
  M_Reset :: "'m \<Rightarrow> 'm"
  M_Update :: "(double \<Rightarrow> double) \<Rightarrow> 'm \<Rightarrow> 'm"

subsection \<open>ExpAvgMeasurement\<close>

record exp_avg =
  ea_value :: double
  ea_sum :: double
  ea_count :: int
  ea_window :: int
  ea_warmup_window :: int

definition ExpAvg_new :: "int \<Rightarrow> int \<Rightarrow> exp_avg" where
  "ExpAvg_new window warmup_window =
     \<lparr>ea_value = Fin 0, ea_sum = Fin 0, ea_count = 0, ea_window = window,
      ea_warmup_window = warmup_window\<rparr>"

definition SteadyStateFactor :: "int \<Rightarrow> double res" where
  "SteadyStateFactor n = bind_res (chk32 (n + 1)) (\<lambda>n1. Inr (ddiv (Fin 2) (double_of_int n1)))"

definition ExpAvg_Add :: "double \<Rightarrow> exp_avg \<Rightarrow> (double \<times> exp_avg) res" where
  "ExpAvg_Add sample s =
     (if ea_count s < ea_warmup_window s then
        bind_res (chk32 (ea_count s + 1)) (\<lambda>count.
          let sum = dadd (ea_sum s) sample; value = ddiv sum (double_of_int count)
          in Inr (value, s\<lparr>ea_count := count, ea_sum := sum, ea_value := value\<rparr>))
      else
        bind_res (SteadyStateFactor (ea_window s)) (\<lambda>factor.
          let value = dadd (dmul (ea_value s) (dsub (Fin 1) factor)) (dmul sample factor)
          in Inr (value, s\<lparr>ea_value := value\<rparr>)))"

definition ExpAvg_Get :: "exp_avg \<Rightarrow> double" where
  "ExpAvg_Get s = ea_value s"

definition ExpAvg_Reset :: "exp_avg \<Rightarrow> exp_avg" where
  "ExpAvg_Reset s = s\<lparr>ea_value := Fin 0, ea_sum := Fin 0, ea_count := 0\<rparr>"

definition ExpAvg_Update :: "(double \<Rightarrow> double) \<Rightarrow> exp_avg \<Rightarrow> exp_avg" where
  "ExpAvg_Update operation s = s\<lparr>ea_value := operation (ea_value s)\<rparr>"

definition ExpAvg_ops :: "exp_avg measurement_ops" where
  "ExpAvg_ops = \<lparr>M_Add = ExpAvg_Add, M_Get = ExpAvg_Get, M_Reset = ExpAvg_Reset,
     M_Update = ExpAvg_Update\<rparr>"

subsection \<open>MinimumMeasurement\<close>

record minimum =
  mm_value :: double
  mm_has_sample :: bool

definition Minimum_new :: minimum where
  "Minimum_new = \<lparr>mm_value = Fin 0, mm_has_sample = False\<rparr>"

definition Minimum_Add :: "double \<Rightarrow> minimum \<Rightarrow> (double \<times> minimum) res" where
  "Minimum_Add sample s =
     (let s' = (if \<not> mm_has_sample s \<or> dless sample (mm_value s)
                then s\<lparr>mm_value := sample, mm_has_sample := True\<rparr> else s)
      in Inr (mm_value s', s'))"

definition Minimum_Get :: "minimum \<Rightarrow> double" where
  "Minimum_Get s = mm_value s"

definition Minimum_Reset :: "minimum \<Rightarrow> minimum" where
  "Minimum_Reset s = s\<lparr>mm_value := Fin 0, mm_has_sample := False\<rparr>"

definition Minimum_Update :: "(double \<Rightarrow> double) \<Rightarrow> minimum \<Rightarrow> minimum" where
  "Minimum_Update operation s = s"

definition Minimum_ops :: "minimum measurement_ops" where
  "Minimum_ops = \<lparr>M_Add = Minimum_Add, M_Get = Minimum_Get, M_Reset = Minimum_Reset,
     M_Update = Minimum_Update\<rparr>"

subsection \<open>SingleMeasurement\<close>

record single =
  sm_value :: double

definition Single_new :: single where
  "Single_new = \<lparr>sm_value = Fin 0\<rparr>"

definition Single_Add :: "double \<Rightarrow> single \<Rightarrow> (double \<times> single) res" where
  "Single_Add sample s = Inr (sample, s\<lparr>sm_value := sample\<rparr>)"

definition Single_Get :: "single \<Rightarrow> double" where
  "Single_Get s = sm_value s"

definition Single_Reset :: "single \<Rightarrow> single" where
  "Single_Reset s = s\<lparr>sm_value := Fin 0\<rparr>"

definition Single_Update :: "(double \<Rightarrow> double) \<Rightarrow> single \<Rightarrow> single" where
  "Single_Update operation s = s\<lparr>sm_value := operation (sm_value s)\<rparr>"

definition Single_ops :: "single measurement_ops" where
  "Single_ops = \<lparr>M_Add = Single_Add, M_Get = Single_Get, M_Reset = Single_Reset,
     M_Update = Single_Update\<rparr>"

subsection \<open>The contract of the interface\<close>

text \<open>
  Adding a list of samples; the contract says that \<open>Add\<close> reports what a later \<open>Get\<close> reports,
  and that a reset measurement is a new one: it answers every further run as one that was
  just constructed does.
\<close>

fun add_samples :: "'m measurement_ops \<Rightarrow> double list \<Rightarrow> 'm \<Rightarrow> 'm res" where
  "add_samples ops [] s = Inr s"
| "add_samples ops (x # xs) s = bind_res (M_Add ops x s) (\<lambda>(v, s'). add_samples ops xs s')"

locale measurement =
  fixes ops :: "'m measurement_ops" and fresh :: "'m \<Rightarrow> 'm"
  assumes add_get: "M_Add ops x s = Inr (v, s') \<Longrightarrow> M_Get ops s' = v"
    and add_fresh: "M_Add ops x s = Inr (v, s') \<Longrightarrow> fresh s' = fresh s"
    and update_fresh: "fresh (M_Update ops f s) = fresh s"
    and reset: "M_Reset ops s = fresh s"
    and fresh_get: "M_Get ops (fresh s) = Fin 0"
begin

lemma add_samples_fresh: "add_samples ops xs s = Inr s' \<Longrightarrow> fresh s' = fresh s"
  by (induction xs arbitrary: s) (auto simp: bind_res_Inr dest: add_fresh)

text \<open>What happened before a reset is forgotten.\<close>

lemma reset_forgets:
  assumes "add_samples ops xs s = Inr s'"
  shows "add_samples ops ys (M_Reset ops s') = add_samples ops ys (M_Reset ops s)"
    and "M_Get ops (M_Reset ops s') = Fin 0"
  using add_samples_fresh [OF assms] by (simp_all add: reset fresh_get)

end

lemmas exp_avg_defs = ExpAvg_new_def ExpAvg_Add_def ExpAvg_Get_def ExpAvg_Reset_def
  ExpAvg_Update_def ExpAvg_ops_def SteadyStateFactor_def

lemmas minimum_defs = Minimum_new_def Minimum_Add_def Minimum_Get_def Minimum_Reset_def
  Minimum_Update_def Minimum_ops_def

lemmas single_defs = Single_new_def Single_Add_def Single_Get_def Single_Reset_def
  Single_Update_def Single_ops_def

interpretation exp_avg: measurement ExpAvg_ops "\<lambda>s. ExpAvg_new (ea_window s) (ea_warmup_window s)"
  by unfold_locales (auto simp: exp_avg_defs Let_def bind_res_Inr split: if_splits)

interpretation minimum: measurement Minimum_ops "\<lambda>s. Minimum_new"
  by unfold_locales (auto simp: minimum_defs Let_def)

interpretation single: measurement Single_ops "\<lambda>s. Single_new"
  by unfold_locales (auto simp: single_defs)

subsection \<open>The minimum\<close>

lemma minimum_samples_seen:
  assumes "mm_has_sample s" and "mm_value s = Fin m"
  shows "\<exists>s'. add_samples Minimum_ops (map Fin xs) s = Inr s' \<and> mm_has_sample s'
           \<and> mm_value s' = Fin (fold min xs m)"
  using assms
proof (induction xs arbitrary: s m)
  case Nil
  then show ?case by simp
next
  case (Cons x xs)
  define s1 where "s1 = (if x < m then s\<lparr>mm_value := Fin x, mm_has_sample := True\<rparr> else s)"
  have s1: "Minimum_Add (Fin x) s = Inr (mm_value s1, s1)" "mm_has_sample s1"
    "mm_value s1 = Fin (min x m)"
    using Cons.prems by (auto simp: s1_def Minimum_Add_def Let_def min_def)
  from Cons.IH [OF s1(2,3)] s1(1) show ?case by (auto simp: Minimum_ops_def)
qed

text \<open>
  The minimum measurement reports the least of all samples added since its construction
  or last reset, whatever their sign and zero included.
\<close>

lemma minimum_is_least:
  assumes "xs \<noteq> []" and "add_samples Minimum_ops (map Fin xs) (Minimum_Reset s) = Inr s'"
  shows "Minimum_Get s' = Fin (Min (set xs))"
proof -
  obtain x ys where xs: "xs = x # ys" using assms(1) by (cases xs) auto
  define s1 where "s1 = \<lparr>mm_value = Fin x, mm_has_sample = True\<rparr>"
  have "Minimum_Add (Fin x) (Minimum_Reset s) = Inr (Fin x, s1)"
    by (simp add: minimum_defs s1_def)
  then have "add_samples Minimum_ops (map Fin ys) s1 = Inr s'"
    using assms(2) by (simp add: xs Minimum_ops_def)
  moreover have "mm_has_sample s1" "mm_value s1 = Fin x" by (simp_all add: s1_def)
  ultimately have "mm_value s' = Fin (fold min ys x)"
    using minimum_samples_seen [of s1 x ys] by auto
  then show ?thesis using Min.set_eq_fold [of x ys] by (simp add: xs Minimum_Get_def)
qed

lemma minimum_is_least_witness:
  "\<exists>s'. add_samples Minimum_ops (map Fin [3, 0, - 2, 5]) (Minimum_Reset Minimum_new) = Inr s'
    \<and> Minimum_Get s' = Fin (Min (set [3, 0, - 2, 5]))"
proof -
  let ?s = "\<lparr>mm_value = Fin (- 2), mm_has_sample = True\<rparr>"
  have h: "add_samples Minimum_ops (map Fin [3, 0, - 2, 5]) (Minimum_Reset Minimum_new) = Inr ?s"
    by (simp add: minimum_defs)
  show ?thesis using h minimum_is_least [OF _ h] by blast
qed

end
