(* ===== verification/Gradient2.thy ===== *)
theory Gradient2
  imports Limit_Base Measurements
begin

section \<open>Gradient2: the adaptive algorithm\<close>

text \<open>
  \<^verbatim>\<open>Gradient2Limit\<close> (\<^verbatim>\<open>gradient2_limit.h\<close>, \<^verbatim>\<open>gradient2_limit.cc\<close>), a subclass of
  \<^verbatim>\<open>AbstractLimit\<close>: its builder, the default queue size function, the per-window \<^verbatim>\<open>Update\<close> with
  its four early exits and the histogram values it records. Every \<^verbatim>\<open>double\<close> operation is
  rounded as in \<open>Binary64\<close>, in the order the source writes them. The callable
  \<^verbatim>\<open>QueueSizeFn\<close> is a function of the caller, a field of the state; the OpenTelemetry handles
  are reduced to whether they exist, and what is recorded into them is kept as a list.
\<close>

subsection \<open>State\<close>

record 'cb gradient2 = "'cb abstract_limit" +
  g2_estimated_limit :: double
  g2_long_rtt :: exp_avg
  g2_min_limit :: int
  g2_max_limit :: int
  g2_queue_size_fn :: "int \<Rightarrow> int res"
  g2_smoothing :: double
  g2_tolerance :: double
  g2_id :: string
  g2_has_hist :: bool
  g2_recorded :: "(string \<times> double \<times> string) list"

definition DefaultSqrtQueueSize :: "int \<Rightarrow> int res" where
  "DefaultSqrtQueueSize current_limit =
     (let root = dsqrt (double_of_int (max 0 current_limit))
      in bind_res (int_of_double (dceil root)) (\<lambda>c. Inr (max 1 c)))"

subsection \<open>Builder\<close>

record gradient2_builder =
  gb_initial_limit :: int
  gb_min_limit :: int
  gb_max_concurrency :: int
  gb_queue_size_fn :: "int \<Rightarrow> int res"
  gb_rtt_tolerance :: double
  gb_smoothing :: double
  gb_long_window :: int
  gb_id :: string
  gb_meter_provider :: bool

definition Gradient2_Builder :: gradient2_builder where
  "Gradient2_Builder =
     \<lparr>gb_initial_limit = 20, gb_min_limit = 20, gb_max_concurrency = 200,
      gb_queue_size_fn = DefaultSqrtQueueSize, gb_rtt_tolerance = to_double (3/2),
      gb_smoothing = to_double (2/10), gb_long_window = 600, gb_id = [],
      gb_meter_provider = False\<rparr>"

definition InitialLimit :: "int \<Rightarrow> gradient2_builder \<Rightarrow> gradient2_builder" where
  "InitialLimit v b = b\<lparr>gb_initial_limit := v\<rparr>"

definition MinLimit :: "int \<Rightarrow> gradient2_builder \<Rightarrow> gradient2_builder" where
  "MinLimit v b = b\<lparr>gb_min_limit := v\<rparr>"

definition MaxConcurrency :: "int \<Rightarrow> gradient2_builder \<Rightarrow> gradient2_builder" where
  "MaxConcurrency v b = b\<lparr>gb_max_concurrency := v\<rparr>"

definition RttTolerance :: "double \<Rightarrow> gradient2_builder \<Rightarrow> gradient2_builder" where
  "RttTolerance v b = b\<lparr>gb_rtt_tolerance := v\<rparr>"

definition Smoothing :: "double \<Rightarrow> gradient2_builder \<Rightarrow> gradient2_builder" where
  "Smoothing v b = b\<lparr>gb_smoothing := v\<rparr>"

definition LongWindow :: "int \<Rightarrow> gradient2_builder \<Rightarrow> gradient2_builder" where
  "LongWindow v b = b\<lparr>gb_long_window := v\<rparr>"

definition Gradient2_Id :: "string \<Rightarrow> gradient2_builder \<Rightarrow> gradient2_builder" where
  "Gradient2_Id i b = b\<lparr>gb_id := i\<rparr>"

definition QueueSize_const :: "int \<Rightarrow> gradient2_builder \<Rightarrow> gradient2_builder" where
  "QueueSize_const v b = b\<lparr>gb_queue_size_fn := (\<lambda>cap. Inr v)\<rparr>"

definition QueueSize_fn :: "(int \<Rightarrow> int res) option \<Rightarrow> gradient2_builder \<Rightarrow> gradient2_builder" where
  "QueueSize_fn fn b =
     b\<lparr>gb_queue_size_fn := (case fn of Some f \<Rightarrow> f | None \<Rightarrow> DefaultSqrtQueueSize)\<rparr>"

definition Gradient2_Build :: "gradient2_builder \<Rightarrow> 'cb gradient2" where
  "Gradient2_Build b =
     \<lparr>m_limit = gb_initial_limit b, m_listeners = [],
      g2_estimated_limit = double_of_int (gb_initial_limit b),
      g2_long_rtt = ExpAvg_new (gb_long_window b) 10,
      g2_min_limit = gb_min_limit b, g2_max_limit = gb_max_concurrency b,
      g2_queue_size_fn = gb_queue_size_fn b, g2_smoothing = gb_smoothing b,
      g2_tolerance = gb_rtt_tolerance b, g2_id = gb_id b,
      g2_has_hist = gb_meter_provider b, g2_recorded = []\<rparr>"

subsection \<open>Update\<close>

definition RecordHistograms :: "double \<Rightarrow> double \<Rightarrow> double \<Rightarrow> 'cb gradient2 \<Rightarrow> 'cb gradient2" where
  "RecordHistograms short_rtt_ns long_rtt_ns queue_size s =
     (if \<not> g2_has_hist s then s
      else s\<lparr>g2_recorded := g2_recorded s @
               [(''limen.min_rtt'', long_rtt_ns, g2_id s),
                (''limen.min_window_rtt'', short_rtt_ns, g2_id s),
                (''limen.queue_size'', queue_size, g2_id s)]\<rparr>)"

definition Gradient2_drift :: "double \<Rightarrow> double \<Rightarrow> 'cb gradient2 \<Rightarrow> 'cb gradient2" where
  "Gradient2_drift long_rtt short_rtt s =
     (if dless (Fin 2) (ddiv long_rtt short_rtt)
      then s\<lparr>g2_long_rtt := ExpAvg_Update (\<lambda>v. dmul v (to_double (95/100))) (g2_long_rtt s)\<rparr>
      else s)"

definition Gradient2_gradient :: "double \<Rightarrow> double \<Rightarrow> double \<Rightarrow> double" where
  "Gradient2_gradient tolerance long_rtt short_rtt =
     dmax (Fin (1/2)) (dmin (Fin 1) (ddiv (dmul tolerance long_rtt) short_rtt))"

definition Gradient2_new_limit ::
  "double \<Rightarrow> double \<Rightarrow> double \<Rightarrow> double \<Rightarrow> int \<Rightarrow> int \<Rightarrow> double" where
  "Gradient2_new_limit estimated gradient queue_size smoothing min_limit max_limit =
     (let new_limit = dadd (dmul estimated gradient) queue_size;
          new_limit = dadd (dmul estimated (dsub (Fin 1) smoothing)) (dmul new_limit smoothing)
      in dmax (double_of_int min_limit) (dmin (double_of_int max_limit) new_limit))"

definition Gradient2_Update ::
  "int \<Rightarrow> int \<Rightarrow> int \<Rightarrow> bool \<Rightarrow> 'cb gradient2 \<Rightarrow> (int \<times> 'cb gradient2) res" where
  "Gradient2_Update start_time_ns rtt_ns inflight did_drop s =
     (if rtt_ns \<le> 0 then
        bind_res (int_of_double (g2_estimated_limit s)) (\<lambda>n. Inr (n, s))
      else
        let short_rtt = double_of_int rtt_ns in
        bind_res (ExpAvg_Add short_rtt (g2_long_rtt s)) (\<lambda>(long_rtt, ea).
        bind_res (int_of_double (g2_estimated_limit s)) (\<lambda>cap.
        bind_res (g2_queue_size_fn s cap) (\<lambda>q.
          let queue_size = double_of_int q;
              s = RecordHistograms short_rtt long_rtt queue_size (s\<lparr>g2_long_rtt := ea\<rparr>);
              s = Gradient2_drift long_rtt short_rtt s
          in if dless (double_of_int inflight) (ddiv (g2_estimated_limit s) (Fin 2)) then
               bind_res (int_of_double (g2_estimated_limit s)) (\<lambda>n. Inr (n, s))
             else
               let gradient = Gradient2_gradient (g2_tolerance s) long_rtt short_rtt;
                   new_limit = Gradient2_new_limit (g2_estimated_limit s) gradient queue_size
                                 (g2_smoothing s) (g2_min_limit s) (g2_max_limit s);
                   s = s\<lparr>g2_estimated_limit := new_limit\<rparr>
               in bind_res (int_of_double new_limit) (\<lambda>n. Inr (n, s))))))"

definition Gradient2_ops :: "('cb gradient2, 'cb) limit_ops" where
  "Gradient2_ops = AbstractLimit_ops Gradient2_Update"

subsection \<open>Well-formed states\<close>

text \<open>
  \<open>g2_config\<close>: what the types of the fields already guarantee (32-bit bounds, a callable
  that returns an \<^verbatim>\<open>int\<close>), together with the one condition that keeps
  \<^verbatim>\<open>SteadyStateFactor\<close> within \<^verbatim>\<open>int\<close>. \<open>g2_inv\<close>: the estimate is a finite \<^verbatim>\<open>double\<close> within
  \<^verbatim>\<open>int\<close>, the published limit is its truncation and the warm-up counter is in range.
\<close>

definition g2_config :: "'cb gradient2 \<Rightarrow> bool" where
  "g2_config s \<longleftrightarrow> is_int32 (g2_min_limit s) \<and> is_int32 (g2_max_limit s)
     \<and> (\<forall>c. is_int32 c \<longrightarrow> (\<exists>q. g2_queue_size_fn s c = Inr q \<and> is_int32 q))
     \<and> is_int32 (ea_window (g2_long_rtt s) + 1) \<and> is_int32 (ea_warmup_window (g2_long_rtt s))"

definition g2_inv :: "'cb gradient2 \<Rightarrow> bool" where
  "g2_inv s \<longleftrightarrow> g2_config s \<and> 0 \<le> ea_count (g2_long_rtt s) \<and>
     (\<exists>e. g2_estimated_limit s = Fin e \<and> of_int INT_MIN \<le> e \<and> e \<le> of_int INT_MAX
        \<and> rnd e = e \<and> m_limit s = trunc e)"

text \<open>The estimate lies between the configured bounds.\<close>

definition g2_bounded :: "'cb gradient2 \<Rightarrow> bool" where
  "g2_bounded s \<longleftrightarrow> (\<exists>e. g2_estimated_limit s = Fin e
     \<and> of_int (g2_min_limit s) \<le> e \<and> e \<le> of_int (g2_max_limit s))"


lemmas gradient2_defs = Gradient2_Update_def Gradient2_drift_def RecordHistograms_def Let_def

subsection \<open>The default queue size\<close>

lemma int_ceil_sqrt:
  assumes "0 < (n::int)"
  obtains k where "0 < k" and "(k - 1) * (k - 1) < n" and "n \<le> k * k"
proof
  let ?m = "int (isqrt (nat (n - 1)))"
  have m: "0 \<le> ?m" "?m * ?m \<le> n - 1" "n - 1 < (?m + 1) * (?m + 1)"
    using isqrt_int [of "n - 1" ?m] assms by simp_all
  show "0 < ?m + 1" using m by simp
  show "(?m + 1 - 1) * (?m + 1 - 1) < n" using m(2) by simp
  show "n \<le> (?m + 1) * (?m + 1)" using m(3) by linarith
qed

lemma dceil_sqrt_int:
  assumes "0 < n" and "is_int32 n" and "0 < k" and "(k - 1) * (k - 1) < n" and "n \<le> k * k"
  shows "dceil (dsqrt (double_of_int n)) = Fin (of_int k)"
proof -
  let ?r = "sqrt_rnd (of_int n)"
  have r: "of_int (k - 1) < ?r" "?r \<le> of_int k"
    using sqrt_rnd_ceiling [of n k] assms by (simp_all add: is_int32_def)
  have "k - 1 \<le> 46340"
    using square_le_imp_le [of "k - 1" 46340] assms by (simp add: is_int32_def)
  then have k: "(of_int k :: rat) \<le> of_int 46341" by (simp only: of_int_le_iff)
  have "0 \<le> (of_int (k - 1) :: rat)" using assms(3) by simp
  then have "\<bar>?r\<bar> \<le> 2 ^ 64" using r k by simp
  then have "dsqrt (Fin (of_int n)) = Fin ?r"
    using assms(1) rnd_sqrt_rnd [of "of_int n"] by (simp add: to_double_small)
  moreover have "\<lceil>?r\<rceil> = k" by (rule ceiling_unique) (use r in simp_all)
  ultimately show ?thesis using assms(2) by simp
qed

lemma DefaultSqrtQueueSize_spec:
  assumes "is_int32 n"
  shows "\<exists>k. DefaultSqrtQueueSize n = Inr k \<and> 1 \<le> k \<and> n \<le> k * k \<and> (1 < k \<longrightarrow> (k - 1) * (k - 1) < n)
    \<and> is_int32 k"
proof (cases "0 < n")
  case True
  then obtain k where k: "0 < k" "(k - 1) * (k - 1) < n" "n \<le> k * k" by (rule int_ceil_sqrt)
  then have "k - 1 \<le> 46340"
    using square_le_imp_le [of "k - 1" 46340] assms by (simp add: is_int32_def)
  then have "is_int32 k" using k(1) by (simp add: is_int32_def)
  then have "DefaultSqrtQueueSize n = Inr k"
    using dceil_sqrt_int [OF True assms k] True k(1) by (simp add: DefaultSqrtQueueSize_def)
  then show ?thesis using k \<open>is_int32 k\<close> by auto
next
  case False
  then have "DefaultSqrtQueueSize n = Inr 1"
    by (simp add: DefaultSqrtQueueSize_def is_int32_def trunc_def)
  then show ?thesis using False by (simp add: is_int32_def)
qed

text \<open>
  The default queue size is the integer square root rounded up, at least one: no rounding
  of the floating-point square root shows for any 32-bit limit, and the conversion back to
  \<^verbatim>\<open>int\<close> is always defined.
\<close>

lemma default_queue_size_ceil_sqrt:
  assumes "is_int32 n"
  shows "\<exists>k. DefaultSqrtQueueSize n = Inr k \<and> 1 \<le> k \<and> n \<le> k * k \<and> (1 < k \<longrightarrow> (k - 1) * (k - 1) < n)
    \<and> is_int32 k"
  using assms by (rule DefaultSqrtQueueSize_spec)

lemma default_queue_size_ceil_sqrt_witness:
  "is_int32 200 \<and> (\<exists>k. DefaultSqrtQueueSize 200 = Inr k \<and> 1 \<le> k \<and> 200 \<le> k * k
     \<and> (1 < k \<longrightarrow> (k - 1) * (k - 1) < 200) \<and> is_int32 k)"
proof -
  have h: "is_int32 200" by (simp add: is_int32_def)
  show ?thesis using h default_queue_size_ceil_sqrt [OF h] by blast
qed

subsection \<open>Every update is defined and keeps the invariant\<close>

lemma ExpAvg_Add_total:
  assumes "0 \<le> ea_count a" and "is_int32 (ea_warmup_window a)" and "is_int32 (ea_window a + 1)"
  shows "\<exists>v a'. ExpAvg_Add x a = Inr (v, a') \<and> 0 \<le> ea_count a' \<and> ea_value a' = v
    \<and> ea_window a' = ea_window a \<and> ea_warmup_window a' = ea_warmup_window a"
proof (cases "ea_count a < ea_warmup_window a")
  case True
  then have "is_int32 (ea_count a + 1)" using assms by (auto simp: is_int32_def)
  then show ?thesis using True assms by (simp add: exp_avg_defs Let_def chk32_ok)
next
  case False
  then show ?thesis using assms by (simp add: exp_avg_defs Let_def chk32_ok)
qed

lemma int_of_double_ok:
  assumes "of_int INT_MIN \<le> e" and "e \<le> of_int INT_MAX"
  shows "int_of_double (Fin e) = Inr (trunc e)"
  using trunc_between [OF assms] by (simp add: is_int32_def)

lemma new_limit_clamped:
  assumes "is_int32 lo" and "is_int32 hi"
  shows "\<exists>z. Gradient2_new_limit est g q sm lo hi = Fin z \<and> of_int lo \<le> z \<and> z \<le> max (of_int lo) (of_int hi)
    \<and> rnd z = z"
proof -
  have "is_double (Gradient2_new_limit est g q sm lo hi)"
    by (simp add: Gradient2_new_limit_def Let_def double_of_int_def)
  moreover obtain z where "Gradient2_new_limit est g q sm lo hi = Fin z" "of_int lo \<le> z"
      "z \<le> max (of_int lo) (of_int hi)"
    using assms clamp_Fin [of "of_int lo" "of_int hi"] by (auto simp: Gradient2_new_limit_def Let_def)
  ultimately show ?thesis by simp
qed

text \<open>One update, whatever the sample: it never reaches undefined behaviour, leaves the
  configuration and the listeners alone, and the value it returns is the truncated estimate.
  The estimate either is unchanged or comes out of the clamp.\<close>

text \<open>The part of \<^verbatim>\<open>Update\<close> before the two ways to end it: a positive round-trip time is averaged,
  recorded, and the average decayed; none of it touches the estimate or the configuration.\<close>

definition Gradient2_observed :: "int \<Rightarrow> double \<Rightarrow> exp_avg \<Rightarrow> int \<Rightarrow> 'cb gradient2 \<Rightarrow> 'cb gradient2" where
  "Gradient2_observed r v a q s = Gradient2_drift v (double_of_int r)
     (RecordHistograms (double_of_int r) v (double_of_int q) (s\<lparr>g2_long_rtt := a\<rparr>))"

lemma Gradient2_observes:
  assumes "g2_inv s" and "g2_estimated_limit s = Fin e" and "is_int32 (trunc e)"
  obtains v a q where "ExpAvg_Add (double_of_int r) (g2_long_rtt s) = Inr (v, a)" and "g2_queue_size_fn s (trunc e) = Inr q"
    and "g2_config (Gradient2_observed r v a q s)" and "0 \<le> ea_count (g2_long_rtt (Gradient2_observed r v a q s))"
proof -
  from assms obtain v a where a: "ExpAvg_Add (double_of_int r) (g2_long_rtt s) = Inr (v, a)"
      "0 \<le> ea_count a" "ea_window a = ea_window (g2_long_rtt s)"
      "ea_warmup_window a = ea_warmup_window (g2_long_rtt s)"
    using ExpAvg_Add_total [of "g2_long_rtt s" "double_of_int r"] by (auto simp: g2_inv_def g2_config_def)
  obtain q where q: "g2_queue_size_fn s (trunc e) = Inr q" using assms by (auto simp: g2_inv_def g2_config_def)
  have "g2_config (Gradient2_observed r v a q s)" "0 \<le> ea_count (g2_long_rtt (Gradient2_observed r v a q s))"
    using assms(1) a(2-4) by (auto simp: Gradient2_observed_def gradient2_defs ExpAvg_Update_def g2_inv_def g2_config_def)
  then show ?thesis using that a(1) q by blast
qed

lemma Gradient2_observed_frame [simp]:
  "g2_estimated_limit (Gradient2_observed r v a q s) = g2_estimated_limit s"
  "m_limit (Gradient2_observed r v a q s) = m_limit s" "m_listeners (Gradient2_observed r v a q s) = m_listeners s"
  "g2_min_limit (Gradient2_observed r v a q s) = g2_min_limit s" "g2_max_limit (Gradient2_observed r v a q s) = g2_max_limit s"
  "g2_tolerance (Gradient2_observed r v a q s) = g2_tolerance s" "g2_smoothing (Gradient2_observed r v a q s) = g2_smoothing s"
  by (auto simp: Gradient2_observed_def gradient2_defs ExpAvg_Update_def)

text \<open>The new estimate, within the bounds and within \<^verbatim>\<open>int\<close>.\<close>

lemma new_limit_int32:
  assumes "is_int32 lo" and "is_int32 hi"
  obtains z where "Gradient2_new_limit (Fin e) g q w lo hi = Fin z" and "of_int lo \<le> z"
    and "z \<le> max (of_int lo) (of_int hi)" and "rnd z = z" and "of_int INT_MIN \<le> z" and "z \<le> of_int INT_MAX"
proof -
  obtain z where z: "Gradient2_new_limit (Fin e) g q w lo hi = Fin z" "of_int lo \<le> z"
      "z \<le> max (of_int lo) (of_int hi)" "rnd z = z"
    using new_limit_clamped [OF assms, of "Fin e" g q w] by blast
  have "of_int INT_MIN \<le> (of_int lo :: rat)" "(of_int lo :: rat) \<le> of_int INT_MAX" "(of_int hi :: rat) \<le> of_int INT_MAX"
    using assms by (simp_all only: of_int_le_iff is_int32_def)
  then show ?thesis using that z by (auto simp: max_def split: if_splits)
qed

lemma Gradient2_Update_effect:
  assumes "g2_inv s"
  obtains n s' e e' where "Gradient2_Update t r i d s = Inr (n, s')"
    and "g2_estimated_limit s = Fin e" and "g2_estimated_limit s' = Fin e'" and "n = trunc e'"
    and "g2_inv (s'\<lparr>m_limit := n\<rparr>)" and "m_limit s' = m_limit s" and "m_listeners s' = m_listeners s"
    and "g2_min_limit s' = g2_min_limit s" and "g2_max_limit s' = g2_max_limit s"
    and "e' = e \<or> of_int (g2_min_limit s) \<le> e' \<and> e' \<le> max (of_int (g2_min_limit s)) (of_int (g2_max_limit s))"
proof -
  from assms obtain e where e: "g2_estimated_limit s = Fin e"
      "of_int INT_MIN \<le> e" "e \<le> of_int INT_MAX" "rnd e = e"
    by (auto simp: g2_inv_def)
  note cast = int_of_double_ok [OF e(2,3)]
  show ?thesis
  proof (cases "r \<le> 0")
    case True
    then show ?thesis
      using assms e cast by (intro that [of "trunc e" s e e]) (auto simp: Gradient2_Update_def g2_inv_def g2_config_def)
  next
    case False
    have "is_int32 (trunc e)" using trunc_between [OF e(2,3)] by (simp add: is_int32_def)
    then obtain v a q where a: "ExpAvg_Add (double_of_int r) (g2_long_rtt s) = Inr (v, a)"
        "g2_queue_size_fn s (trunc e) = Inr q" "g2_config (Gradient2_observed r v a q s)"
        "0 \<le> ea_count (g2_long_rtt (Gradient2_observed r v a q s))"
      by (rule Gradient2_observes [OF assms e(1)])
    define s2 where "s2 = Gradient2_observed r v a q s"
    have u: "Gradient2_Update t r i d s =
        (if dless (double_of_int i) (ddiv (Fin e) (Fin 2)) then Inr (trunc e, s2)
         else let s3 = s2\<lparr>g2_estimated_limit := Gradient2_new_limit (Fin e) (Gradient2_gradient (g2_tolerance s) v (double_of_int r))
                (double_of_int q) (g2_smoothing s) (g2_min_limit s) (g2_max_limit s)\<rparr>
           in bind_res (int_of_double (g2_estimated_limit s3)) (\<lambda>n. Inr (n, s3)))"
      using False a(1,2) e(1) cast
      by (simp add: Gradient2_Update_def Let_def s2_def Gradient2_observed_def [symmetric])
    have lohi: "is_int32 (g2_min_limit s)" "is_int32 (g2_max_limit s)"
      using assms by (simp_all add: g2_inv_def g2_config_def)
    obtain z where z: "Gradient2_new_limit (Fin e) (Gradient2_gradient (g2_tolerance s) v (double_of_int r))
          (double_of_int q) (g2_smoothing s) (g2_min_limit s) (g2_max_limit s) = Fin z"
        "of_int (g2_min_limit s) \<le> z" "z \<le> max (of_int (g2_min_limit s)) (of_int (g2_max_limit s))" "rnd z = z"
        "of_int INT_MIN \<le> z" "z \<le> of_int INT_MAX"
      by (rule new_limit_int32 [OF lohi])
    show ?thesis
    proof (cases "dless (double_of_int i) (ddiv (Fin e) (Fin 2))")
      case True
      then show ?thesis
        using u a(3,4) e by (intro that [of "trunc e" s2 e e]) (auto simp: s2_def g2_inv_def g2_config_def)
    next
      case False
      then show ?thesis
        using u a(3,4) e z int_of_double_ok [OF z(5,6)]
        by (intro that [of "trunc z" "s2\<lparr>g2_estimated_limit := Fin z\<rparr>" e z]) (auto simp: s2_def g2_inv_def g2_config_def)
    qed
  qed
qed


subsection \<open>Samples through the interface\<close>

lemma SetLimitLocked_eq:
  "SetLimitLocked n s = (s\<lparr>m_limit := n\<rparr>, change_calls (m_limit s) n (m_listeners s))"
  by (simp add: SetLimitLocked_def change_calls_def Let_def)

text \<open>The estimate has been clamped, or was between the bounds from the start: then it stays.\<close>

lemma Gradient2_OnSample_effect:
  assumes "g2_inv s"
  obtains s' where "OnSample Gradient2_ops t r i d s = Inr (s', change_calls (m_limit s) (m_limit s') (m_listeners s))"
    and "g2_inv s'" and "m_listeners s' = m_listeners s"
    and "g2_min_limit s' = g2_min_limit s" and "g2_max_limit s' = g2_max_limit s"
    and "g2_min_limit s \<le> g2_max_limit s \<Longrightarrow> g2_bounded s \<Longrightarrow> g2_bounded s'"
proof -
  obtain n u e e' where u: "Gradient2_Update t r i d s = Inr (n, u)"
      "g2_estimated_limit s = Fin e" "g2_estimated_limit u = Fin e'" "n = trunc e'"
      "g2_inv (u\<lparr>m_limit := n\<rparr>)" "m_limit u = m_limit s" "m_listeners u = m_listeners s"
      "g2_min_limit u = g2_min_limit s" "g2_max_limit u = g2_max_limit s"
      "e' = e \<or> of_int (g2_min_limit s) \<le> e' \<and> e' \<le> max (of_int (g2_min_limit s)) (of_int (g2_max_limit s))"
    using Gradient2_Update_effect [OF assms] by metis
  show ?thesis
  proof (rule that [of "u\<lparr>m_limit := n\<rparr>"])
    show "OnSample Gradient2_ops t r i d s =
        Inr (u\<lparr>m_limit := n\<rparr>, change_calls (m_limit s) (m_limit (u\<lparr>m_limit := n\<rparr>)) (m_listeners s))"
      using u by (simp add: Gradient2_ops_def AbstractLimit_ops_def AbstractLimit_OnSample_def SetLimitLocked_eq)
  qed (use u in \<open>auto simp: g2_bounded_def max_def\<close>)
qed

lemma Gradient2_GetLimit [simp]: "GetLimit Gradient2_ops s = m_limit s"
  by (simp add: Gradient2_ops_def limen_simps)

interpretation gradient2: limit_contract Gradient2_ops g2_inv m_listeners
proof (unfold_locales, goal_cases)
  case (1 s cb)
  then show ?case
    by (simp add: Gradient2_ops_def limen_simps g2_inv_def g2_config_def)
next
  case (4 s t r i d s' cs)
  then show ?case by (auto elim: Gradient2_OnSample_effect [of s t r i d])
next
  case (5 s t r i d s' cs)
  then show ?case by (auto elim: Gradient2_OnSample_effect [of s t r i d])
next
  case (6 s t r i d s' cs)
  have "cs = change_calls (m_limit s) (m_limit s') (m_listeners s)"
    by (rule Gradient2_OnSample_effect [OF 6(1), of t r i d]) (use 6(2) in simp)
  then show ?case by simp
qed (simp_all add: Gradient2_ops_def limen_simps)

lemma Gradient2_feed_bounded:
  assumes "g2_inv s" and "g2_min_limit s \<le> g2_max_limit s" and "g2_bounded s"
  shows "\<exists>s' cs. feed Gradient2_ops xs s = Inr (s', cs) \<and> g2_inv s' \<and> g2_bounded s'
    \<and> g2_min_limit s' = g2_min_limit s \<and> g2_max_limit s' = g2_max_limit s"
  using assms
proof (induction xs arbitrary: s)
  case Nil
  then show ?case by simp
next
  case (Cons x xs)
  obtain t r i d where x: "x = (t, r, i, d)" by (cases x)
  obtain u cs where u: "OnSample Gradient2_ops t r i d s = Inr (u, cs)" "g2_inv u"
      "g2_min_limit u = g2_min_limit s" "g2_max_limit u = g2_max_limit s" "g2_bounded u"
    using Gradient2_OnSample_effect [OF Cons.prems(1)] Cons.prems(2,3) by metis
  with Cons.IH [of u] Cons.prems(2) show ?case by (fastforce simp: x)
qed

lemma g2_bounded_limit:
  assumes "g2_inv s" and "g2_bounded s"
  shows "g2_min_limit s \<le> m_limit s \<and> m_limit s \<le> g2_max_limit s"
proof -
  from assms obtain e where "m_limit s = trunc e" "of_int (g2_min_limit s) \<le> e" "e \<le> of_int (g2_max_limit s)"
    by (auto simp: g2_inv_def g2_bounded_def)
  then show ?thesis using trunc_between by simp
qed

text \<open>What a builder must hold for the limit it builds to be well formed.\<close>

definition gb_ok :: "gradient2_builder \<Rightarrow> bool" where
  "gb_ok b \<longleftrightarrow> is_int32 (gb_min_limit b) \<and> is_int32 (gb_max_concurrency b) \<and> is_int32 (gb_initial_limit b)
     \<and> is_int32 (gb_long_window b + 1)
     \<and> (\<forall>c. is_int32 c \<longrightarrow> (\<exists>q. gb_queue_size_fn b c = Inr q \<and> is_int32 q))"

lemma Gradient2_Build_simps [simp]:
  "m_limit (Gradient2_Build b) = gb_initial_limit b"
  "m_listeners (Gradient2_Build b) = []"
  "g2_estimated_limit (Gradient2_Build b) = double_of_int (gb_initial_limit b)"
  "g2_min_limit (Gradient2_Build b) = gb_min_limit b"
  "g2_max_limit (Gradient2_Build b) = gb_max_concurrency b"
  by (simp_all add: Gradient2_Build_def)

lemma Gradient2_Build_inv:
  assumes "gb_ok b"
  shows "g2_inv (Gradient2_Build b)"
  using assms trunc_between [of "gb_initial_limit b" "of_int (gb_initial_limit b)" "gb_initial_limit b"]
  by (auto simp: gb_ok_def g2_inv_def g2_config_def Gradient2_Build_def ExpAvg_new_def is_int32_def)

text \<open>
  C1. Type and boundary safety: a limit built with \<^verbatim>\<open>MinLimit\<close> \<open>\<le>\<close> \<^verbatim>\<open>InitialLimit\<close> \<open>\<le>\<close> \<^verbatim>\<open>MaxConcurrency\<close>, with a long window
  below \<^verbatim>\<open>INT_MAX\<close> and a queue size function that returns (\<open>gb_ok\<close>), survives every sequence of samples, whatever their round-trip
  times, in-flight counts and drop flags, without undefined behaviour; the estimate, a finite number, never leaves
  the bounds, and the cap it publishes is the estimate truncated, and within them too.
\<close>

theorem gradient2_cap_within_bounds:
  assumes "gb_ok b" and "gb_min_limit b \<le> gb_initial_limit b"
    and "gb_initial_limit b \<le> gb_max_concurrency b"
  shows "\<exists>s cs. feed Gradient2_ops samples (Gradient2_Build b :: 'cb gradient2) = Inr (s, cs)
    \<and> (\<exists>e. g2_estimated_limit s = Fin e \<and> of_int (gb_min_limit b) \<le> e \<and> e \<le> of_int (gb_max_concurrency b)
          \<and> GetLimit Gradient2_ops s = trunc e)
    \<and> gb_min_limit b \<le> GetLimit Gradient2_ops s \<and> GetLimit Gradient2_ops s \<le> gb_max_concurrency b"
proof -
  let ?s = "Gradient2_Build b :: 'cb gradient2"
  have inv: "g2_inv ?s" using assms(1) by (rule Gradient2_Build_inv)
  have "is_int32 (gb_initial_limit b)" using assms(1) by (simp add: gb_ok_def)
  then have "g2_bounded ?s" using assms(2,3) by (simp add: g2_bounded_def)
  moreover have "g2_min_limit ?s \<le> g2_max_limit ?s" using assms by simp
  ultimately obtain s' cs where s': "feed Gradient2_ops samples ?s = Inr (s', cs)" "g2_inv s'"
      "g2_bounded s'" "g2_min_limit s' = gb_min_limit b" "g2_max_limit s' = gb_max_concurrency b"
    using Gradient2_feed_bounded [OF inv, of samples] by auto
  from s'(2,3) obtain e where "g2_estimated_limit s' = Fin e" "of_int (gb_min_limit b) \<le> e" "e \<le> of_int (gb_max_concurrency b)"
      "m_limit s' = trunc e"
    by (auto simp: g2_bounded_def g2_inv_def s'(4,5))
  then show ?thesis using s' g2_bounded_limit [OF s'(2,3)] by (intro exI [of _ s'] exI [of _ cs] exI [of _ e] conjI) simp_all
qed

lemma Gradient2_Builder_ok: "gb_ok Gradient2_Builder"
  using DefaultSqrtQueueSize_spec by (fastforce simp: gb_ok_def Gradient2_Builder_def is_int32_def [of "_::int"])

theorem gradient2_cap_within_bounds_witness:
  "gb_ok Gradient2_Builder \<and> (\<exists>s cs. feed Gradient2_ops [(0, 1000, 20, False), (5, 0, 3, True)] (Gradient2_Build Gradient2_Builder)
      = Inr (s, cs :: (nat \<times> int) list)
    \<and> (\<exists>e. g2_estimated_limit s = Fin e \<and> 20 \<le> e \<and> e \<le> 200 \<and> GetLimit Gradient2_ops s = trunc e)
    \<and> 20 \<le> GetLimit Gradient2_ops s \<and> GetLimit Gradient2_ops s \<le> 200)"
proof -
  have h: "gb_min_limit Gradient2_Builder = 20" "gb_initial_limit Gradient2_Builder = 20"
    "gb_max_concurrency Gradient2_Builder = 200"
    by (simp_all add: Gradient2_Builder_def)
  show ?thesis
    using gradient2_cap_within_bounds [OF Gradient2_Builder_ok, of "[(0, 1000, 20, False), (5, 0, 3, True)]"]
      Gradient2_Builder_ok by (simp add: h)
qed


subsection \<open>One adaptive step, numerically\<close>

lemma gradient_range: "\<exists>g. Gradient2_gradient tol long short = Fin g \<and> 1/2 \<le> g \<and> g \<le> 1"
  using clamp_Fin [of "1/2" 1 "ddiv (dmul tol long) short"] by (simp add: Gradient2_gradient_def)

lemma to_double_ge:
  assumes "rnd y = y" and "0 \<le> y" and "y \<le> x"
  shows "to_double x = PInf \<or> (\<exists>z. to_double x = Fin z \<and> y \<le> z)"
proof -
  have "y \<le> rnd x" using rnd_mono [OF assms(3)] assms(1) by simp
  moreover have "0 < max_finite" by (simp add: max_finite_def)
  ultimately show ?thesis using assms(2) by (auto simp: to_double_def Let_def)
qed

text \<open>The gradient is one when latency is within tolerance, rounding included.\<close>

lemma gradient_one:
  assumes "0 < short" and "rnd short = short" and "short \<le> tol * long"
  shows "Gradient2_gradient (Fin tol) (Fin long) (Fin short) = Fin 1"
proof -
  let ?m = "dmul (Fin tol) (Fin long)"
  have "?m = PInf \<or> (\<exists>z. ?m = Fin z \<and> short \<le> z)"
    using to_double_ge [OF assms(2) _ assms(3)] assms(1) by auto
  then have "ddiv ?m (Fin short) = PInf \<or> (\<exists>z. ddiv ?m (Fin short) = Fin z \<and> 1 \<le> z)"
  proof
    assume "\<exists>z. ?m = Fin z \<and> short \<le> z"
    then obtain z where z: "?m = Fin z" "short \<le> z" by blast
    have "1 \<le> z / short" using z(2) assms(1) by simp
    then show ?thesis using to_double_ge [of 1 "z / short"] z(1) assms(1) by auto
  qed (use assms in auto)
  then show ?thesis by (auto simp: Gradient2_gradient_def dmin_def dmax_def)
qed

text \<open>The rounded step stays within \<open>2^-16\<close> of the exact one.\<close>

lemma new_limit_value:
  assumes a: "0 \<le> a" "a \<le> of_int INT_MAX" and g: "1/2 \<le> g" "g \<le> 1" and q: "0 \<le> q" "is_int32 q"
    and s: "0 \<le> s" "s \<le> 1" and lo: "is_int32 lo" and hi: "is_int32 hi"
  obtains v where "Gradient2_new_limit (Fin a) (Fin g) (double_of_int q) (Fin s) lo hi
      = Fin (max (of_int lo) (min (of_int hi) v))"
    and "\<bar>v - (a * (1 - s) + (a * g + of_int q) * s)\<bar> \<le> 1 / 2 ^ 16"
proof -
  define b where "b = rnd (rnd (a * g) + of_int q)"
  define v where "v = rnd (rnd (a * rnd (1 - s)) + rnd (b * s))"
  have q': "(0::rat) \<le> of_int q" "(of_int q :: rat) \<le> of_int INT_MAX"
    using q by (simp_all only: of_int_0_le_iff of_int_le_iff is_int32_def)
  have ag: "0 \<le> rnd (a * g)" "rnd (a * g) \<le> 2 ^ 31" "\<bar>rnd (a * g) - a * g\<bar> \<le> 2 ^ 31 / 2 ^ 53 + 1 / 2 ^ 60"
    using b64.rd_scale [of a "2 ^ 31" g] a g by simp_all
  have b: "0 \<le> b" "b \<le> 2 ^ 32" "\<bar>b - (rnd (a * g) + of_int q)\<bar> \<le> 2 ^ 32 / 2 ^ 53 + 1 / 2 ^ 60"
    using b64.rd_between [of 0 "rnd (a * g) + of_int q" "2 ^ 32"] b64.rd_err_bound [of "rnd (a * g) + of_int q" "2 ^ 32"]
      ag q' by (simp_all add: b_def)
  have bl: "0 \<le> v" "v \<le> 2 ^ 33" "\<bar>v - (a * (1 - s) + b * s)\<bar> \<le> 1 / 2 ^ 18"
    using b64.rd_blend [of a b s] a b s by (simp_all add: v_def)
  have "\<bar>b * s - (a * g + of_int q) * s\<bar> = \<bar>b - (a * g + of_int q)\<bar> * s"
    using s by (simp add: abs_mult flip: left_diff_distrib)
  also have "\<dots> \<le> \<bar>b - (a * g + of_int q)\<bar>" using s by (simp add: mult_left_le)
  also have "\<dots> \<le> 1 / 2 ^ 18" using ag(3) b(3) unfolding abs_le_iff by simp
  finally have "\<bar>v - (a * (1 - s) + (a * g + of_int q) * s)\<bar> \<le> 1 / 2 ^ 16"
    using bl(3) unfolding abs_le_iff by simp
  moreover have "Gradient2_new_limit (Fin a) (Fin g) (double_of_int q) (Fin s) lo hi
      = Fin (max (of_int lo) (min (of_int hi) v))"
  proof -
    have "\<bar>a * g\<bar> \<le> 2 ^ 64" using a g mult_mono [of a "2 ^ 31" g 1] by simp
    moreover have "\<bar>rnd (a * g) + of_int q\<bar> \<le> 2 ^ 64" using ag q' by simp
    moreover have "\<bar>1 - s\<bar> \<le> 2 ^ 64" using s by simp
    moreover have c: "0 \<le> rnd (1 - s)" "rnd (1 - s) \<le> 1" using b64.rd_between [of 0 "1 - s" 1] s by simp_all
    moreover have "\<bar>a * rnd (1 - s)\<bar> \<le> 2 ^ 64" using a c mult_mono [of a "2 ^ 31" "rnd (1 - s)" 1] by simp
    moreover have "\<bar>b * s\<bar> \<le> 2 ^ 64" using b s mult_mono [of b "2 ^ 32" s 1] by simp
    moreover have "\<bar>rnd (a * rnd (1 - s)) + rnd (b * s)\<bar> \<le> 2 ^ 64"
      using b64.rd_scale [of a "2 ^ 31" "rnd (1 - s)"] b64.rd_scale [of b "2 ^ 32" s] a b c s by simp
    ultimately show ?thesis
      using q lo hi by (simp add: Gradient2_new_limit_def Let_def dsub_def to_double_small v_def b_def)
  qed
  ultimately show ?thesis using that by blast
qed


lemma Gradient2_adaptive:
  assumes inv: "g2_inv s" and r: "0 < r" and a: "g2_estimated_limit s = Fin a"
    and add: "ExpAvg_Add (double_of_int r) (g2_long_rtt s) = Inr (v, ea)"
    and q: "g2_queue_size_fn s (m_limit s) = Inr q"
    and busy: "\<not> dless (double_of_int i) (ddiv (Fin a) (Fin 2))"
  obtains s' cs z where "OnSample Gradient2_ops t r i d s = Inr (s', cs)"
    and "g2_estimated_limit s' = Fin z" and "m_limit s' = trunc z"
    and "Gradient2_new_limit (Fin a) (Gradient2_gradient (g2_tolerance s) v (double_of_int r))
           (double_of_int q) (g2_smoothing s) (g2_min_limit s) (g2_max_limit s) = Fin z"
proof -
  obtain s' where s': "OnSample Gradient2_ops t r i d s = Inr (s', change_calls (m_limit s) (m_limit s') (m_listeners s))"
      "g2_inv s'"
    using Gradient2_OnSample_effect [OF inv] by metis
  have m: "m_limit s = trunc a" "int_of_double (Fin a) = Inr (trunc a)"
    using inv a int_of_double_ok [of a] by (auto simp: g2_inv_def)
  have "g2_estimated_limit s' = Gradient2_new_limit (Fin a) (Gradient2_gradient (g2_tolerance s) v (double_of_int r))
           (double_of_int q) (g2_smoothing s) (g2_min_limit s) (g2_max_limit s)"
    using s'(1) r a add q busy m
    by (auto simp: Gradient2_ops_def AbstractLimit_ops_def AbstractLimit_OnSample_def gradient2_defs
        SetLimitLocked_eq bind_res_Inr simp del: int_of_double.simps split: if_splits)
  moreover obtain z where "g2_estimated_limit s' = Fin z" "m_limit s' = trunc z"
    using s'(2) by (auto simp: g2_inv_def)
  ultimately show ?thesis using that [OF s'(1)] by metis
qed

lemma Gradient2_app_limited:
  assumes "g2_inv s" and "g2_estimated_limit s = Fin a" and "1 \<le> a" and "is_int32 i"
    and "of_int i < a / 2"
  shows "\<exists>s'. OnSample Gradient2_ops t r i d s = Inr (s', []) \<and> g2_inv s'
    \<and> g2_estimated_limit s' = g2_estimated_limit s \<and> m_limit s' = m_limit s"
proof -
  have e: "rnd a = a" "a \<le> of_int INT_MAX" "m_limit s = trunc a" "int_of_double (Fin a) = Inr (trunc a)"
    using assms(1,2) int_of_double_ok [of a] by (auto simp: g2_inv_def)
  have "\<bar>a / 2\<bar> \<le> 2 ^ 64" using assms(3) e(2) by simp
  then have "ddiv (Fin a) (Fin 2) = Fin (a / 2)"
    using rnd_halve [OF e(1) assms(3)] by (simp add: to_double_small)
  then have skip: "dless (double_of_int i) (ddiv (Fin a) (Fin 2))" using assms(4,5) by simp
  obtain s' where s': "OnSample Gradient2_ops t r i d s = Inr (s', change_calls (m_limit s) (m_limit s') (m_listeners s))" "g2_inv s'"
    using Gradient2_OnSample_effect [OF assms(1)] by metis
  have "g2_estimated_limit s' = Fin a \<and> m_limit s' = m_limit s"
    using s'(1) assms(2) skip e
    by (auto simp: Gradient2_ops_def AbstractLimit_ops_def AbstractLimit_OnSample_def gradient2_defs
        SetLimitLocked_eq bind_res_Inr simp del: int_of_double.simps ddiv.simps split: if_splits)
  then show ?thesis using s' assms(2) by (simp add: change_calls_def)
qed

text \<open>
  App-limited preservation: a sample taken while fewer requests than half the estimate were
  in flight changes neither the estimate nor the published cap, and notifies nobody. The
  comparison the code makes on rounded numbers agrees with the exact one.
\<close>

lemma gradient2_app_limited_preserves:
  assumes "g2_inv s" and "g2_estimated_limit s = Fin a" and "1 \<le> a" and "is_int32 i"
    and "of_int i < a / 2"
  shows "\<exists>s'. OnSample Gradient2_ops t r i d s = Inr (s', [])
    \<and> g2_estimated_limit s' = g2_estimated_limit s \<and> m_limit s' = m_limit s"
  using Gradient2_app_limited [OF assms] by blast

text \<open>The conditions on the configuration under which a step has the room the next two
  properties need: a positive queue size and a weight of at least a thousandth.\<close>

definition g2_probing :: "'cb gradient2 \<Rightarrow> bool" where
  "g2_probing s \<longleftrightarrow> g2_inv s \<and> g2_bounded s \<and> 0 \<le> g2_min_limit s
     \<and> (\<exists>q. g2_queue_size_fn s (m_limit s) = Inr q \<and> is_int32 q \<and> 1 \<le> q)
     \<and> (\<exists>w. g2_smoothing s = Fin w \<and> 1/1000 \<le> w \<and> w \<le> 1)"

lemma Gradient2_step_lower:
  assumes p: "g2_probing s" and r: "0 < r" and a: "g2_estimated_limit s = Fin a"
    and w: "g2_smoothing s = Fin w"
    and add: "ExpAvg_Add (double_of_int r) (g2_long_rtt s) = Inr (v, ea)"
    and g: "Gradient2_gradient (g2_tolerance s) v (double_of_int r) = Fin g"
  shows "\<exists>s' cs z. OnSample Gradient2_ops t r i d s = Inr (s', cs) \<and> g2_estimated_limit s' = Fin z
    \<and> m_limit s' = trunc z \<and> (z = a \<or> min (of_int (g2_max_limit s)) (a * (1 - w) + a * g * w + 1/2000) \<le> z)"
proof (cases "dless (double_of_int i) (ddiv (Fin a) (Fin 2))")
  case True
  obtain s' where s': "OnSample Gradient2_ops t r i d s = Inr (s', change_calls (m_limit s) (m_limit s') (m_listeners s))"
      "g2_inv s'"
    using Gradient2_OnSample_effect [of s] p by (metis g2_probing_def)
  have "g2_estimated_limit s' = Fin a"
    using s'(1) a True
    by (auto simp: Gradient2_ops_def AbstractLimit_ops_def AbstractLimit_OnSample_def gradient2_defs
        SetLimitLocked_eq bind_res_Inr simp del: int_of_double.simps ddiv.simps split: if_splits)
  then show ?thesis using s' by (auto simp: g2_inv_def)
next
  case False
  obtain q where q: "g2_queue_size_fn s (m_limit s) = Inr q" "is_int32 q" "1 \<le> q"
    using p by (auto simp: g2_probing_def)
  have lohi: "is_int32 (g2_min_limit s)" "is_int32 (g2_max_limit s)" "0 \<le> g2_min_limit s"
    using p by (auto simp: g2_probing_def g2_inv_def g2_config_def)
  have a0: "of_int (g2_min_limit s) \<le> a" "a \<le> of_int (g2_max_limit s)" "a \<le> of_int INT_MAX"
    using p a by (auto simp: g2_probing_def g2_inv_def g2_bounded_def)
  have a1: "0 \<le> a" using lohi(3) a0(1) by (meson of_int_0_le_iff order_trans)
  have w1: "1/1000 \<le> w" "w \<le> 1" using p w by (auto simp: g2_probing_def)
  have gr: "1/2 \<le> g" "g \<le> 1" using gradient_range [of "g2_tolerance s" v "double_of_int r"] g by auto
  obtain x where x: "Gradient2_new_limit (Fin a) (Fin g) (double_of_int q) (Fin w) (g2_min_limit s) (g2_max_limit s)
        = Fin (max (of_int (g2_min_limit s)) (min (of_int (g2_max_limit s)) x))"
      "\<bar>x - (a * (1 - w) + (a * g + of_int q) * w)\<bar> \<le> 1 / 2 ^ 16"
    by (rule new_limit_value [of a g q w "g2_min_limit s" "g2_max_limit s"]) (use a0 a1 gr q w1 lohi in auto)
  have inv: "g2_inv s" using p by (simp add: g2_probing_def)
  obtain s' cs z where s': "OnSample Gradient2_ops t r i d s = Inr (s', cs)" "g2_estimated_limit s' = Fin z"
      "m_limit s' = trunc z" "Fin z = Fin (max (of_int (g2_min_limit s)) (min (of_int (g2_max_limit s)) x))"
    using Gradient2_adaptive [OF inv r a add q(1) False, of t d] g w x(1) by metis
  have "(1::rat) * (1/1000) \<le> of_int q * w" using q(3) w1 by (intro mult_mono) auto
  moreover have "(a * g + of_int q) * w = a * g * w + of_int q * w" by (rule distrib_right)
  ultimately have "a * (1 - w) + a * g * w + 1/2000 \<le> x" using x(2) unfolding abs_le_iff by simp
  then show ?thesis using s' by auto
qed


lemma g2_probing_facts:
  assumes "g2_probing s" and "g2_estimated_limit s = Fin a"
  shows "0 \<le> a" and "a \<le> of_int (g2_max_limit s)" and "m_limit s = trunc a"
    and "\<exists>w. g2_smoothing s = Fin w \<and> 0 \<le> w \<and> w \<le> 1"
proof -
  have "(0::rat) \<le> of_int (g2_min_limit s)" using assms(1) by (simp add: g2_probing_def)
  then show "0 \<le> a" "a \<le> of_int (g2_max_limit s)" "m_limit s = trunc a"
    using assms by (auto simp: g2_probing_def g2_inv_def g2_bounded_def)
  show "\<exists>w. g2_smoothing s = Fin w \<and> 0 \<le> w \<and> w \<le> 1"
    using assms(1) by (fastforce simp: g2_probing_def)
qed

text \<open>The configurations for which every reachable state is such: ordered bounds of which the lower is not
  negative, a queue size function whose values are at least one, and a smoothing weight of at
  least a thousandth and at most one. The builder checks none of them.\<close>

definition gb_probing :: "gradient2_builder \<Rightarrow> bool" where
  "gb_probing b \<longleftrightarrow> gb_ok b \<and> 0 \<le> gb_min_limit b \<and> gb_min_limit b \<le> gb_initial_limit b
     \<and> gb_initial_limit b \<le> gb_max_concurrency b
     \<and> (\<forall>c q. is_int32 c \<longrightarrow> gb_queue_size_fn b c = Inr q \<longrightarrow> 1 \<le> q)
     \<and> (\<exists>w. gb_smoothing b = Fin w \<and> 1/1000 \<le> w \<and> w \<le> 1)"

lemma Gradient2_OnSample_config:
  assumes "OnSample Gradient2_ops t r i d s = Inr (s', cs)"
  shows "g2_queue_size_fn s' = g2_queue_size_fn s \<and> g2_smoothing s' = g2_smoothing s \<and> g2_tolerance s' = g2_tolerance s"
  using assms
  by (auto simp: Gradient2_ops_def AbstractLimit_ops_def AbstractLimit_OnSample_def gradient2_defs SetLimitLocked_eq bind_res_Inr
      simp del: int_of_double.simps ddiv.simps split: if_splits)

lemma Gradient2_feed_config:
  "feed Gradient2_ops xs s = Inr (s', cs) \<Longrightarrow>
     g2_queue_size_fn s' = g2_queue_size_fn s \<and> g2_smoothing s' = g2_smoothing s \<and> g2_tolerance s' = g2_tolerance s"
proof (induction xs arbitrary: s cs)
  case (Cons x xs)
  obtain t r i d where x: "x = (t, r, i, d)" by (cases x)
  from Cons.prems obtain u cs1 cs2 where "OnSample Gradient2_ops t r i d s = Inr (u, cs1)" "feed Gradient2_ops xs u = Inr (s', cs2)"
    by (auto simp: x bind_res_Inr)
  then show ?case using Cons.IH Gradient2_OnSample_config by metis
qed simp

lemma gb_probing_reaches:
  assumes "gb_probing b" and "feed Gradient2_ops xs (Gradient2_Build b :: 'cb gradient2) = Inr (s, cs)"
  shows "g2_probing s" and "g2_smoothing s = gb_smoothing b" and "g2_tolerance s = gb_rtt_tolerance b"
proof -
  let ?s = "Gradient2_Build b :: 'cb gradient2"
  have c: "g2_queue_size_fn s = gb_queue_size_fn b" "g2_smoothing s = gb_smoothing b" "g2_tolerance s = gb_rtt_tolerance b"
    using Gradient2_feed_config [OF assms(2)] by (simp_all add: Gradient2_Build_def)
  then show "g2_smoothing s = gb_smoothing b" "g2_tolerance s = gb_rtt_tolerance b" by simp_all
  have ok: "gb_ok b" "is_int32 (gb_initial_limit b)" "gb_min_limit b \<le> gb_initial_limit b" "gb_initial_limit b \<le> gb_max_concurrency b"
    using assms(1) by (simp_all add: gb_probing_def gb_ok_def)
  then have "g2_bounded ?s" by (simp add: g2_bounded_def)
  moreover have "g2_inv ?s" using ok(1) by (rule Gradient2_Build_inv)
  ultimately have s: "g2_inv s" "g2_bounded s" "g2_min_limit s = gb_min_limit b"
    using Gradient2_feed_bounded [of ?s xs] ok assms(2) by auto
  have m: "is_int32 (m_limit s)"
    using g2_bounded_limit [OF s(1,2)] s(1) by (auto simp: g2_inv_def g2_config_def is_int32_def)
  then obtain q where "gb_queue_size_fn b (m_limit s) = Inr q" "is_int32 q" using ok(1) by (auto simp: gb_ok_def)
  then show "g2_probing s"
    using s c m assms(1) by (auto simp: g2_probing_def gb_probing_def)
qed

text \<open>
  C18. No unjustified shedding: take a limit built with \<open>0\<close> \<open>\<le>\<close> \<^verbatim>\<open>MinLimit\<close> \<open>\<le>\<close> \<^verbatim>\<open>InitialLimit\<close> \<open>\<le>\<close> \<^verbatim>\<open>MaxConcurrency\<close>, queue sizes of at
  least one and a smoothing weight between a thousandth and one (\<open>gb_probing\<close>; with a queue size of zero the claim is
  false, since a rounding may lower the cap), after any samples. While the round-trip time of a sample is within
  the tolerance of the long-term average, the sample lowers neither the estimate nor the published cap, all
  roundings included.
\<close>

theorem gradient2_no_unjustified_shedding:
  assumes "gb_probing b" and "feed Gradient2_ops xs (Gradient2_Build b) = Inr (s, calls)"
    and "0 < r" and "double_of_int r = Fin short"
    and "ExpAvg_Add (Fin short) (g2_long_rtt s) = Inr (Fin long, ea)"
    and "gb_rtt_tolerance b = Fin tol" and "0 < short" and "short \<le> tol * long"
  shows "\<exists>s' cs. OnSample Gradient2_ops t r i d s = Inr (s', cs)
    \<and> \<not> dless (g2_estimated_limit s') (g2_estimated_limit s) \<and> m_limit s \<le> m_limit s'"
proof -
  note p = gb_probing_reaches [OF assms(1,2)]
  obtain a where a: "g2_estimated_limit s = Fin a" using p(1) by (auto simp: g2_probing_def g2_inv_def)
  note f = g2_probing_facts [OF p(1) a]
  obtain w where w: "g2_smoothing s = Fin w" using f(4) by blast
  have "rnd short = short"
    using assms(4) is_double_to_double [of "of_int r"] by (simp add: double_of_int_def)
  then have g: "Gradient2_gradient (g2_tolerance s) (Fin long) (double_of_int r) = Fin 1"
    using gradient_one assms(4,6,7,8) p(3) by simp
  obtain s' cs z where s': "OnSample Gradient2_ops t r i d s = Inr (s', cs)" "g2_estimated_limit s' = Fin z"
      "m_limit s' = trunc z" "z = a \<or> min (of_int (g2_max_limit s)) (a * (1 - w) + a * 1 * w + 1/2000) \<le> z"
    using Gradient2_step_lower [OF p(1) assms(3) a w _ g] assms(4,5) by metis
  have "a * (1 - w) + a * 1 * w = a" by (simp add: algebra_simps)
  then have "a \<le> z" using s'(4) f(2) by auto
  then show ?thesis using s' a f(3) trunc_mono by auto
qed

text \<open>
  C20. Bounded shedding velocity: in a limit of such a configuration (\<open>gb_probing\<close>: ordered bounds that are not negative,
  queue sizes of at least one, a weight between a thousandth and one), after any samples, no single sample, however slow,
  takes the estimate below \<open>(1 - w) + w / 2\<close> of its value for the smoothing weight \<open>w\<close>.
\<close>

theorem gradient2_bounded_shedding:
  assumes "gb_probing b" and "feed Gradient2_ops xs (Gradient2_Build b) = Inr (s, calls)"
    and "g2_estimated_limit s = Fin a" and "gb_smoothing b = Fin w"
  shows "\<exists>s' cs z. OnSample Gradient2_ops t r i d s = Inr (s', cs) \<and> g2_estimated_limit s' = Fin z
    \<and> a * (1 - w) + a * (1/2) * w \<le> z"
proof (cases "0 < r")
  case False
  note p = gb_probing_reaches [OF assms(1,2)]
  note f = g2_probing_facts [OF p(1) assms(3)]
  have "g2_inv s" using p(1) by (simp add: g2_probing_def)
  then obtain s' cs where s': "OnSample Gradient2_ops t r i d s = Inr (s', cs)" using Gradient2_OnSample_effect by blast
  then have "g2_estimated_limit s' = Fin a" using False assms(3)
    by (auto simp: Gradient2_ops_def AbstractLimit_ops_def AbstractLimit_OnSample_def gradient2_defs SetLimitLocked_eq bind_res_Inr
        simp del: int_of_double.simps split: if_splits)
  moreover have "0 \<le> w" using f(4) p(2) assms(4) by auto
  then have "a * (1 - w) + a * (1/2) * w \<le> a" using mult_nonneg_nonneg [OF f(1), of w] by (simp add: algebra_simps)
  ultimately show ?thesis using s' by blast
next
  case True
  note p = gb_probing_reaches [OF assms(1,2)]
  note f = g2_probing_facts [OF p(1) assms(3)]
  have gw: "g2_smoothing s = Fin w" using p(2) assms(4) by simp
  have w: "0 \<le> w" "w \<le> 1" using f(4) gw by auto
  have inv: "g2_inv s" using p(1) by (simp add: g2_probing_def)
  obtain v ea where add: "ExpAvg_Add (double_of_int r) (g2_long_rtt s) = Inr (v, ea)"
    using ExpAvg_Add_total [of "g2_long_rtt s" "double_of_int r"] inv
    by (auto simp: g2_inv_def g2_config_def)
  obtain g where g: "Gradient2_gradient (g2_tolerance s) v (double_of_int r) = Fin g" "1/2 \<le> g" "g \<le> 1"
    using gradient_range by blast
  obtain s' cs z where s': "OnSample Gradient2_ops t r i d s = Inr (s', cs)" "g2_estimated_limit s' = Fin z"
      "z = a \<or> min (of_int (g2_max_limit s)) (a * (1 - w) + a * g * w + 1/2000) \<le> z"
    using Gradient2_step_lower [OF p(1) True assms(3) gw add g(1)] by metis
  have "a * (1/2) * w \<le> a * g * w" using f(1) g(2) w by (intro mult_right_mono mult_left_mono) auto
  moreover have "a * (1 - w) + a * (1/2) * w \<le> a"
    using mult_nonneg_nonneg [OF f(1) w(1)] by (simp add: algebra_simps)
  ultimately show ?thesis using s' f(2) by (auto simp: min_def split: if_splits)
qed

text \<open>The default configuration with the constant queue size of the upstream library.\<close>

lemma default_smoothing: "\<exists>w. to_double (2/10) = Fin w \<and> 1/1000 \<le> w \<and> w \<le> 1"
proof -
  have "\<bar>rnd (1/5) - 1/5\<bar> \<le> 1 / 2 ^ 52" using b64.rd_err_bound [of "1/5" 1] by simp
  then have "1/1000 \<le> rnd (1/5)" "rnd (1/5) \<le> 1" unfolding abs_le_iff by simp_all
  then show ?thesis by (simp add: to_double_small)
qed

lemma default_tolerance: "to_double (3/2) = Fin (3/2)"
  using rnd_dyadic [of 3 "- 1"] by (simp add: to_double_small)

lemma default_probing: "gb_probing (QueueSize_const 4 Gradient2_Builder)"
proof -
  let ?b = "QueueSize_const 4 Gradient2_Builder"
  have "gb_ok ?b" using Gradient2_Builder_ok by (simp add: gb_ok_def QueueSize_const_def is_int32_def)
  then show ?thesis
    using default_smoothing by (auto simp: gb_probing_def QueueSize_const_def Gradient2_Builder_def)
qed

lemma gradient2_app_limited_preserves_witness:
  "\<exists>s'. OnSample Gradient2_ops 0 1000000 3 False (Gradient2_Build (QueueSize_const 4 Gradient2_Builder))
      = Inr (s' :: nat gradient2, []) \<and> g2_estimated_limit s' = Fin 20 \<and> m_limit s' = 20"
proof -
  let ?s = "Gradient2_Build (QueueSize_const 4 Gradient2_Builder) :: nat gradient2"
  have h: "g2_inv ?s" by (rule Gradient2_Build_inv) (use default_probing in \<open>simp add: gb_probing_def\<close>)
  have e: "g2_estimated_limit ?s = Fin 20" "m_limit ?s = 20"
    by (simp_all add: QueueSize_const_def Gradient2_Builder_def is_int32_def)
  show ?thesis
    using gradient2_app_limited_preserves [OF h e(1), of 3 0 1000000 False] e by (simp add: is_int32_def)
qed

lemma default_first_sample:
  "ExpAvg_Add (Fin 1000000) (g2_long_rtt (Gradient2_Build (QueueSize_const 4 Gradient2_Builder)))
     = Inr (Fin 1000000, \<lparr>ea_value = Fin 1000000, ea_sum = Fin 1000000, ea_count = 1, ea_window = 600,
              ea_warmup_window = 10\<rparr>)"
  by (simp add: Gradient2_Build_def QueueSize_const_def Gradient2_Builder_def exp_avg_defs Let_def
      chk32_ok is_int32_def)

theorem gradient2_no_unjustified_shedding_witness:
  "\<exists>s' cs. OnSample Gradient2_ops 0 1000000 20 False (Gradient2_Build (QueueSize_const 4 Gradient2_Builder))
      = Inr (s' :: nat gradient2, cs)
    \<and> \<not> dless (g2_estimated_limit s') (Fin 20) \<and> 20 \<le> m_limit s'"
proof -
  let ?s = "Gradient2_Build (QueueSize_const 4 Gradient2_Builder) :: nat gradient2"
  have e: "g2_estimated_limit ?s = Fin 20" "m_limit ?s = 20" "gb_rtt_tolerance (QueueSize_const 4 Gradient2_Builder) = Fin (3/2)"
    "double_of_int 1000000 = Fin 1000000"
    by (simp_all add: Gradient2_Build_def QueueSize_const_def Gradient2_Builder_def is_int32_def
        default_tolerance)
  show ?thesis
    using gradient2_no_unjustified_shedding [OF default_probing feed.simps(1) _ e(4) default_first_sample, of "3/2" 0 20 False]
      e by simp
qed

theorem gradient2_bounded_shedding_witness:
  "\<exists>s' cs z. OnSample Gradient2_ops 0 1000000 20 True (Gradient2_Build (QueueSize_const 4 Gradient2_Builder))
      = Inr (s' :: nat gradient2, cs)
    \<and> g2_estimated_limit s' = Fin z \<and> 20 * (1 - rnd (1/5)) + 20 * (1/2) * rnd (1/5) \<le> z"
proof -
  let ?s = "Gradient2_Build (QueueSize_const 4 Gradient2_Builder) :: nat gradient2"
  have e: "g2_estimated_limit ?s = Fin 20" "gb_smoothing (QueueSize_const 4 Gradient2_Builder) = Fin (rnd (1/5))"
    by (simp_all add: Gradient2_Build_def QueueSize_const_def Gradient2_Builder_def is_int32_def
        to_double_small)
  show ?thesis using gradient2_bounded_shedding [OF default_probing feed.simps(1) e, of 0 1000000 20 True] by simp
qed

end
