(* ===== verification/Sample_Windows.thy ===== *)
theory Sample_Windows
  imports Binary64
begin

section \<open>Sample windows: the aggregates a window hands to the algorithm\<close>

text \<open>
  The interface \<^verbatim>\<open>SampleWindow\<close> (\<^verbatim>\<open>sample_window.h\<close>) and its two implementations
  \<^verbatim>\<open>AverageSampleWindow\<close> (\<^verbatim>\<open>average_sample_window.h\<close>, \<^verbatim>\<open>average_sample_window.cc\<close>) and
  \<^verbatim>\<open>PercentileSampleWindow\<close> (\<^verbatim>\<open>percentile_sample_window.h\<close>, \<^verbatim>\<open>percentile_sample_window.cc\<close>).

  The fields are \<^verbatim>\<open>std::atomic\<close>, so the counters wrap (\<open>wrap32\<close>, \<open>wrap64\<close>); the
  compare-and-swap loops on the minimum and the maximum store the candidate exactly when it
  is better than the value in the field. \<^verbatim>\<open>AddSample\<close> and \<^verbatim>\<open>TrackedRttNs\<close> are results, because
  the percentile window indexes arrays. Its \<^verbatim>\<open>sort_buffer_\<close> is cleared before every use and
  read by nothing else, so it is local to \<open>Percentile_TrackedRttNs\<close>.
\<close>

subsection \<open>The interface\<close>

record 'w sample_window_ops =
  SW_AddSample :: "int \<Rightarrow> int \<Rightarrow> bool \<Rightarrow> 'w \<Rightarrow> 'w res"
  SW_CandidateRttNs :: "'w \<Rightarrow> int"
  SW_TrackedRttNs :: "'w \<Rightarrow> int res"
  SW_MaxInflight :: "'w \<Rightarrow> int"
  SW_SampleCount :: "'w \<Rightarrow> int"
  SW_DidDrop :: "'w \<Rightarrow> bool"
  SW_Reset :: "'w \<Rightarrow> 'w"

subsection \<open>AverageSampleWindow\<close>

record average_window =
  aw_sample_count :: int
  aw_sum_rtt_ns :: int
  aw_min_rtt_ns :: int
  aw_max_inflight :: int
  aw_did_drop :: bool

definition Average_new :: average_window where
  "Average_new = \<lparr>aw_sample_count = 0, aw_sum_rtt_ns = 0, aw_min_rtt_ns = INT64_MAX,
     aw_max_inflight = 0, aw_did_drop = False\<rparr>"

definition Average_AddSample :: "int \<Rightarrow> int \<Rightarrow> bool \<Rightarrow> average_window \<Rightarrow> average_window" where
  "Average_AddSample rtt_ns inflight did_drop w =
     (let w = w\<lparr>aw_sample_count := wrap32 (aw_sample_count w + 1)\<rparr>;
          w = w\<lparr>aw_sum_rtt_ns := wrap64 (aw_sum_rtt_ns w + rtt_ns)\<rparr>;
          w = (if rtt_ns < aw_min_rtt_ns w then w\<lparr>aw_min_rtt_ns := rtt_ns\<rparr> else w);
          w = (if aw_max_inflight w < inflight then w\<lparr>aw_max_inflight := inflight\<rparr> else w)
      in if did_drop then w\<lparr>aw_did_drop := True\<rparr> else w)"

definition Average_TrackedRttNs :: "average_window \<Rightarrow> int res" where
  "Average_TrackedRttNs w =
     (let count = aw_sample_count w in
      if count = 0 then Inr 0 else div64 (aw_sum_rtt_ns w) count)"

definition Average_Reset :: "average_window \<Rightarrow> average_window" where
  "Average_Reset w = w\<lparr>aw_sample_count := 0, aw_sum_rtt_ns := 0, aw_min_rtt_ns := INT64_MAX,
     aw_max_inflight := 0, aw_did_drop := False\<rparr>"

definition Average_ops :: "average_window sample_window_ops" where
  "Average_ops =
     \<lparr>SW_AddSample = (\<lambda>r i d w. Inr (Average_AddSample r i d w)),
      SW_CandidateRttNs = aw_min_rtt_ns, SW_TrackedRttNs = Average_TrackedRttNs,
      SW_MaxInflight = aw_max_inflight, SW_SampleCount = aw_sample_count,
      SW_DidDrop = aw_did_drop, SW_Reset = Average_Reset\<rparr>"

subsection \<open>PercentileSampleWindow\<close>

record percentile_window =
  pw_percentile :: double
  pw_max_samples :: int
  pw_rtts :: "int list"
  pw_sample_count :: int
  pw_min_rtt_ns :: int
  pw_max_inflight :: int
  pw_did_drop :: bool

definition Percentile_new :: "double \<Rightarrow> int \<Rightarrow> percentile_window res" where
  "Percentile_new percentile max_samples_per_window =
     (if max_samples_per_window < 0 then Inl BadAlloc
      else Inr \<lparr>pw_percentile = percentile, pw_max_samples = max_samples_per_window,
        pw_rtts = replicate (nat max_samples_per_window) 0, pw_sample_count = 0,
        pw_min_rtt_ns = INT64_MAX, pw_max_inflight = 0, pw_did_drop = False\<rparr>)"

definition Percentile_AddSample ::
  "int \<Rightarrow> int \<Rightarrow> bool \<Rightarrow> percentile_window \<Rightarrow> percentile_window res" where
  "Percentile_AddSample rtt_ns inflight did_drop w =
     (let index = pw_sample_count w;
          w = w\<lparr>pw_sample_count := wrap32 (index + 1)\<rparr>
      in bind_res (if index < pw_max_samples w then store_at index rtt_ns (pw_rtts w) else Inr (pw_rtts w))
        (\<lambda>rtts.
          let w = w\<lparr>pw_rtts := rtts\<rparr>;
              w = (if rtt_ns < pw_min_rtt_ns w then w\<lparr>pw_min_rtt_ns := rtt_ns\<rparr> else w);
              w = (if pw_max_inflight w < inflight then w\<lparr>pw_max_inflight := inflight\<rparr> else w)
          in Inr (if did_drop then w\<lparr>pw_did_drop := True\<rparr> else w)))"

text \<open>The copying loop of \<^verbatim>\<open>TrackedRttNs\<close>, index \<open>i\<close> up to \<open>usable\<close>.\<close>

function snapshot_from :: "int list \<Rightarrow> int \<Rightarrow> int \<Rightarrow> int list \<Rightarrow> int list res" where
  "snapshot_from rtts i usable buf =
     (if i < usable
      then bind_res (load_at rtts i) (\<lambda>v. snapshot_from rtts (i + 1) usable (buf @ [v]))
      else Inr buf)"
  by auto
termination by (relation "measure (\<lambda>(rtts, i, usable, buf). nat (usable - i))") auto

declare snapshot_from.simps [simp del]

definition Percentile_TrackedRttNs :: "percentile_window \<Rightarrow> int res" where
  "Percentile_TrackedRttNs w =
     (let observed = pw_sample_count w in
      if observed = 0 then Inr 0
      else
        let usable = min observed (pw_max_samples w) in
        bind_res (snapshot_from (pw_rtts w) 0 usable []) (\<lambda>buf.
        let sort_buffer = sort buf in
        bind_res (lround (dmul (double_of_int usable) (pw_percentile w))) (\<lambda>l.
        let rtt_index = wrap32 l in
        bind_res (chk32 (rtt_index - 1)) (\<lambda>zero_based.
        let clamped = max 0 (min zero_based (int (length sort_buffer) - 1))
        in load_at sort_buffer clamped))))"

definition Percentile_Reset :: "percentile_window \<Rightarrow> percentile_window" where
  "Percentile_Reset w = w\<lparr>pw_sample_count := 0, pw_min_rtt_ns := INT64_MAX,
     pw_max_inflight := 0, pw_did_drop := False\<rparr>"

definition Percentile_ops :: "percentile_window sample_window_ops" where
  "Percentile_ops =
     \<lparr>SW_AddSample = Percentile_AddSample,
      SW_CandidateRttNs = pw_min_rtt_ns, SW_TrackedRttNs = Percentile_TrackedRttNs,
      SW_MaxInflight = pw_max_inflight, SW_SampleCount = pw_sample_count,
      SW_DidDrop = pw_did_drop, SW_Reset = Percentile_Reset\<rparr>"

subsection \<open>Dynamic dispatch over the two classes\<close>

datatype sample_window = DynAverage average_window | DynPercentile percentile_window

definition SampleWindow_ops :: "sample_window sample_window_ops" where
  "SampleWindow_ops =
     \<lparr>SW_AddSample = (\<lambda>r i d w. case w of
          DynAverage a \<Rightarrow> bind_res (SW_AddSample Average_ops r i d a) (\<lambda>a. Inr (DynAverage a))
        | DynPercentile p \<Rightarrow> bind_res (SW_AddSample Percentile_ops r i d p) (\<lambda>p. Inr (DynPercentile p))),
      SW_CandidateRttNs = case_sample_window (SW_CandidateRttNs Average_ops) (SW_CandidateRttNs Percentile_ops),
      SW_TrackedRttNs = case_sample_window (SW_TrackedRttNs Average_ops) (SW_TrackedRttNs Percentile_ops),
      SW_MaxInflight = case_sample_window (SW_MaxInflight Average_ops) (SW_MaxInflight Percentile_ops),
      SW_SampleCount = case_sample_window (SW_SampleCount Average_ops) (SW_SampleCount Percentile_ops),
      SW_DidDrop = case_sample_window (SW_DidDrop Average_ops) (SW_DidDrop Percentile_ops),
      SW_Reset = case_sample_window (\<lambda>a. DynAverage (SW_Reset Average_ops a))
                   (\<lambda>p. DynPercentile (SW_Reset Percentile_ops p))\<rparr>"

subsection \<open>The abstract window: the list of the samples since the last reset\<close>

type_synonym sample = "int \<times> int \<times> bool"

definition window_min :: "sample list \<Rightarrow> int" where
  "window_min xs = fold min (map fst xs) INT64_MAX"

definition window_max :: "sample list \<Rightarrow> int" where
  "window_max xs = fold max (map (fst \<circ> snd) xs) 0"

definition window_drop :: "sample list \<Rightarrow> bool" where
  "window_drop xs = list_ex (snd \<circ> snd) xs"

fun window_add :: "'w sample_window_ops \<Rightarrow> sample list \<Rightarrow> 'w \<Rightarrow> 'w res" where
  "window_add ops [] w = Inr w"
| "window_add ops ((r, i, d) # xs) w = bind_res (SW_AddSample ops r i d w) (window_add ops xs)"

definition samples_ok :: "sample list \<Rightarrow> bool" where
  "samples_ok xs \<longleftrightarrow> int (length xs) \<le> INT_MAX \<and> (\<forall>(r, i, d) \<in> set xs. is_int64 r \<and> is_int32 i)"

text \<open>
  The contract: \<open>holds xs w\<close> says that the window \<open>w\<close> aggregates the samples \<open>xs\<close>. It is
  established by \<open>Reset\<close> whatever the window held, extended by \<open>AddSample\<close>, and
  determines every getter; the tracked value \<open>track w xs\<close> may depend on how \<open>w\<close> was configured,
  but on nothing that an operation changes.
\<close>

locale sample_window_contract =
  fixes ops :: "'w sample_window_ops" and ok :: "'w \<Rightarrow> bool" and holds :: "sample list \<Rightarrow> 'w \<Rightarrow> bool"
    and track :: "'w \<Rightarrow> sample list \<Rightarrow> int"
  assumes reset: "ok w \<Longrightarrow> ok (SW_Reset ops w) \<and> holds [] (SW_Reset ops w) \<and> track (SW_Reset ops w) = track w"
    and add: "ok w \<Longrightarrow> holds xs w \<Longrightarrow> is_int64 r \<Longrightarrow> is_int32 i \<Longrightarrow> int (length xs) < INT_MAX \<Longrightarrow>
      \<exists>w'. SW_AddSample ops r i d w = Inr w' \<and> ok w' \<and> holds (xs @ [(r, i, d)]) w' \<and> track w' = track w"
    and candidate: "holds xs w \<Longrightarrow> SW_CandidateRttNs ops w = window_min xs"
    and max_inflight: "holds xs w \<Longrightarrow> SW_MaxInflight ops w = window_max xs"
    and sample_count: "holds xs w \<Longrightarrow> SW_SampleCount ops w = int (length xs)"
    and did_drop: "holds xs w \<Longrightarrow> SW_DidDrop ops w = window_drop xs"
    and tracked: "ok w \<Longrightarrow> holds xs w \<Longrightarrow> int (length xs) \<le> INT_MAX \<Longrightarrow>
      SW_TrackedRttNs ops w = Inr (track w xs)"
begin

lemma window_add_holds:
  assumes "ok w" and "holds ys w" and "samples_ok (ys @ xs)"
  shows "\<exists>w'. window_add ops xs w = Inr w' \<and> ok w' \<and> holds (ys @ xs) w' \<and> track w' = track w"
  using assms
proof (induction xs arbitrary: ys w)
  case Nil
  then show ?case by simp
next
  case (Cons x xs)
  obtain r i d where x: "x = (r, i, d)" by (cases x)
  obtain w1 where w1: "SW_AddSample ops r i d w = Inr w1" "ok w1" "holds (ys @ [x]) w1"
      "track w1 = track w"
    using add [OF Cons.prems(1,2), of r i d] Cons.prems(3) by (auto simp: samples_ok_def x)
  show ?case using Cons.IH [OF w1(2,3)] Cons.prems(3) w1(1,4) by (simp add: x)
qed

text \<open>A window that was reset reports the aggregates of the samples added since.\<close>

lemma aggregates:
  assumes "ok w" and "samples_ok xs" and "window_add ops xs (SW_Reset ops w) = Inr w'"
  shows "SW_CandidateRttNs ops w' = window_min xs" and "SW_MaxInflight ops w' = window_max xs"
    and "SW_SampleCount ops w' = int (length xs)" and "SW_DidDrop ops w' = window_drop xs"
    and "ok w'" and "holds xs w'" and "SW_TrackedRttNs ops w' = Inr (track w xs)"
  using window_add_holds [of "SW_Reset ops w" "[]" xs] reset [OF assms(1)] assms(2,3)
  by (auto simp: candidate max_inflight sample_count did_drop tracked samples_ok_def)

end

subsection \<open>The average window keeps the contract\<close>

definition average_holds :: "sample list \<Rightarrow> average_window \<Rightarrow> bool" where
  "average_holds xs w \<longleftrightarrow> w = \<lparr>aw_sample_count = int (length xs),
     aw_sum_rtt_ns = wrap64 (sum_list (map fst xs)), aw_min_rtt_ns = window_min xs,
     aw_max_inflight = window_max xs, aw_did_drop = window_drop xs\<rparr>"

lemma window_snoc [simp]:
  "window_min (xs @ [(r, i, d)]) = min r (window_min xs)"
  "window_max (xs @ [(r, i, d)]) = max i (window_max xs)"
  "window_drop (xs @ [(r, i, d)]) \<longleftrightarrow> window_drop xs \<or> d"
  by (simp_all add: window_min_def window_max_def window_drop_def)

lemma window_Nil [simp]: "window_min [] = INT64_MAX" "window_max [] = 0" "\<not> window_drop []"
  by (simp_all add: window_min_def window_max_def window_drop_def)

lemma div64_total:
  assumes "is_int64 a" and "0 < b"
  shows "div64 a b = Inr (sgn a * (\<bar>a\<bar> div b))" and "0 \<le> a \<Longrightarrow> div64 a b = Inr (a div b)"
proof -
  have q: "0 \<le> \<bar>a\<bar> div b" "\<bar>a\<bar> div b \<le> \<bar>a\<bar>"
    using assms(2) zdiv_mono2 [of "\<bar>a\<bar>" 1 b] by (simp_all add: pos_imp_zdiv_nonneg_iff)
  have "is_int64 (sgn a * (\<bar>a\<bar> div b))"
    using q assms(1) by (cases a "0::int" rule: linorder_cases) (simp_all add: is_int64_def)
  then show "div64 a b = Inr (sgn a * (\<bar>a\<bar> div b))" using assms(2) by (simp add: div64_def chk64_ok)
  then show "0 \<le> a \<Longrightarrow> div64 a b = Inr (a div b)" by (cases "a = 0") (simp_all add: sgn_if)
qed

lemma average_holds_add:
  assumes "average_holds xs w" and "int (length xs) < INT_MAX"
  shows "average_holds (xs @ [(r, i, d)]) (Average_AddSample r i d w)"
proof -
  have "is_int32 (int (length xs) + 1)" using assms(2) by (simp add: is_int32_def)
  then show ?thesis using assms(1)
    by (simp add: average_holds_def Average_AddSample_def Let_def min_def max_def)
qed

text \<open>The mean as the code computes it: the wrapped sum, divided towards zero.\<close>

definition average_of :: "sample list \<Rightarrow> int" where
  "average_of xs = (let s = wrap64 (sum_list (map fst xs)) in sgn s * (\<bar>s\<bar> div int (length xs)))"

lemma average_tracked:
  assumes "average_holds xs w"
  shows "Average_TrackedRttNs w = Inr (average_of xs)"
  using assms div64_total(1) [of "wrap64 (sum_list (map fst xs))" "int (length xs)"]
  by (cases "xs = []") (simp_all add: average_holds_def Average_TrackedRttNs_def average_of_def Let_def)

interpretation average: sample_window_contract Average_ops "\<lambda>w. True" average_holds "\<lambda>w. average_of"
proof unfold_locales
  fix w xs r i d
  show "True \<and> average_holds [] (SW_Reset Average_ops w) \<and> average_of = average_of"
    by (simp add: average_holds_def Average_ops_def Average_Reset_def is_int64_def)
  show "average_holds xs w \<Longrightarrow> int (length xs) < INT_MAX \<Longrightarrow>
    \<exists>w'. SW_AddSample Average_ops r i d w = Inr w' \<and> True \<and> average_holds (xs @ [(r, i, d)]) w'
      \<and> average_of = average_of"
    using average_holds_add by (simp add: Average_ops_def)
  show "average_holds xs w \<Longrightarrow> SW_TrackedRttNs Average_ops w = Inr (average_of xs)"
    using average_tracked by (simp add: Average_ops_def)
qed (simp_all add: average_holds_def Average_ops_def)

subsection \<open>The percentile window keeps the contract\<close>

definition percentile_ok :: "percentile_window \<Rightarrow> bool" where
  "percentile_ok w \<longleftrightarrow> 0 < pw_max_samples w \<and> is_int32 (pw_max_samples w)
     \<and> int (length (pw_rtts w)) = pw_max_samples w
     \<and> (\<exists>p. pw_percentile w = Fin p \<and> 0 \<le> p \<and> p \<le> 1)"

definition percentile_holds :: "sample list \<Rightarrow> percentile_window \<Rightarrow> bool" where
  "percentile_holds xs w \<longleftrightarrow> pw_sample_count w = int (length xs)
     \<and> (let n = min (length xs) (length (pw_rtts w)) in take n (pw_rtts w) = take n (map fst xs))
     \<and> pw_min_rtt_ns w = window_min xs \<and> pw_max_inflight w = window_max xs
     \<and> pw_did_drop w = window_drop xs"

text \<open>The rank the percentile window selects among \<open>n\<close> values.\<close>

definition percentile_rank :: "rat \<Rightarrow> nat \<Rightarrow> nat" where
  "percentile_rank p n = nat (round_away (rnd (of_nat n * p))) - 1"

definition percentile_of :: "percentile_window \<Rightarrow> sample list \<Rightarrow> int" where
  "percentile_of w xs =
     (case pw_percentile w of
        Fin p \<Rightarrow> (if xs = [] then 0
                  else let ys = take (nat (pw_max_samples w)) (map fst xs)
                       in sort ys ! percentile_rank p (length ys))
      | _ \<Rightarrow> 0)"

lemma Percentile_AddSample_eq:
  "Percentile_AddSample r i d w =
     bind_res (if pw_sample_count w < pw_max_samples w then store_at (pw_sample_count w) r (pw_rtts w)
               else Inr (pw_rtts w))
       (\<lambda>rtts. Inr (w\<lparr>pw_sample_count := wrap32 (pw_sample_count w + 1), pw_rtts := rtts,
          pw_min_rtt_ns := min r (pw_min_rtt_ns w), pw_max_inflight := max i (pw_max_inflight w),
          pw_did_drop := (pw_did_drop w \<or> d)\<rparr>))"
  unfolding Percentile_AddSample_def Let_def
  by (cases w) (simp add: bind_res_def min_def max_def split: sum.split)

lemma percentile_add:
  assumes ok: "percentile_ok w" and h: "percentile_holds xs w" and "int (length xs) < INT_MAX"
  shows "\<exists>w'. Percentile_AddSample r i d w = Inr w' \<and> percentile_ok w' \<and> percentile_holds (xs @ [(r, i, d)]) w'
    \<and> percentile_of w' = percentile_of w"
proof -
  let ?n = "length xs"
  have mm: "pw_min_rtt_ns w = window_min xs" "pw_max_inflight w = window_max xs" "pw_did_drop w = window_drop xs"
    using h by (simp_all add: percentile_holds_def)
  have n: "is_int32 (int ?n + 1)" using assms(3) by (simp add: is_int32_def)
  have c: "pw_sample_count w = int ?n" "take (min ?n (length (pw_rtts w))) (pw_rtts w)
      = take (min ?n (length (pw_rtts w))) (map fst xs)"
    using h by (simp_all add: percentile_holds_def Let_def)
  define rtts where "rtts = (if ?n < length (pw_rtts w) then (pw_rtts w)[?n := r] else pw_rtts w)"
  have st: "(if int ?n < pw_max_samples w then store_at (int ?n) r (pw_rtts w) else Inr (pw_rtts w)) = Inr rtts"
    using ok by (auto simp: percentile_ok_def store_at_def rtts_def)
  have len: "length rtts = length (pw_rtts w)" by (simp add: rtts_def)
  have "take (min (Suc ?n) (length rtts)) rtts = take (min (Suc ?n) (length rtts)) (map fst xs @ [r])"
  proof (cases "?n < length (pw_rtts w)")
    case True
    then have "take ?n (pw_rtts w) = map fst xs" using c(2) by (simp add: min_def)
    then show ?thesis using True by (simp add: rtts_def take_Suc_conv_app_nth min_def)
  next
    case False
    then have le: "length (pw_rtts w) \<le> ?n" by simp
    then have "min ?n (length (pw_rtts w)) = length (pw_rtts w)" by simp
    then have "pw_rtts w = take (length (pw_rtts w)) (map fst xs)" using c(2) take_all [of "pw_rtts w"] by (metis order_refl)
    moreover have "rtts = pw_rtts w" using False by (simp add: rtts_def)
    ultimately show ?thesis using le by (metis append_Nil2 diff_is_0_eq length_map min.absorb2 le_Suc_eq take0 take_all take_append order_refl)
  qed
  moreover define w' where "w' = w\<lparr>pw_sample_count := int ?n + 1, pw_rtts := rtts,
      pw_min_rtt_ns := min r (window_min xs), pw_max_inflight := max i (window_max xs),
      pw_did_drop := (window_drop xs \<or> d)\<rparr>"
  moreover have "Percentile_AddSample r i d w = Inr w'"
    unfolding Percentile_AddSample_eq c(1) st mm w'_def using n by simp
  moreover have "percentile_ok w'" using ok len by (simp add: percentile_ok_def w'_def)
  moreover have "percentile_of w' = percentile_of w" by (simp add: percentile_of_def w'_def fun_eq_iff split: double.split)
  ultimately show ?thesis by (intro exI [of _ w']) (simp add: percentile_holds_def Let_def)
qed

lemma snapshot_from_total:
  assumes "0 \<le> i" and "i \<le> u" and "u \<le> int (length rtts)"
  shows "snapshot_from rtts i u buf = Inr (buf @ drop (nat i) (take (nat u) rtts))"
  using assms
proof (induction rtts i u buf rule: snapshot_from.induct)
  case (1 rtts i u buf)
  show ?case
  proof (cases "i < u")
    case True
    have v: "load_at rtts i = Inr (rtts ! nat i)" using True "1.prems" by (simp add: load_at_def)
    have "drop (nat i) (take (nat u) rtts) = rtts ! nat i # drop (nat (i + 1)) (take (nat u) rtts)"
      using True "1.prems" by (simp add: Cons_nth_drop_Suc [symmetric] nat_add_distrib)
    then show ?thesis
      using "1.IH" [OF True] True "1.prems" v by (subst snapshot_from.simps) simp
  next
    case False
    then show ?thesis using "1.prems" by (subst snapshot_from.simps) simp
  qed
qed

lemma rnd_of_nat_times:
  assumes "0 \<le> p" and "p \<le> 1" and "int n \<le> INT_MAX"
  shows "dmul (double_of_int (int n)) (Fin p) = Fin (rnd (of_nat n * p))"
    and "0 \<le> rnd (of_nat n * p)" and "rnd (of_nat n * p) \<le> of_nat n"
proof -
  have p: "0 \<le> of_nat n * p" "of_nat n * p \<le> (of_nat n :: rat)"
    using assms by (simp_all add: mult_left_le)
  show le: "0 \<le> rnd (of_nat n * p)" "rnd (of_nat n * p) \<le> of_nat n"
    using b64.rd_between [of 0 "of_nat n * p" "int n"] p assms(3) by simp_all
  have "(of_nat n :: rat) \<le> 2147483647" using assms(3) by (metis of_int_le_iff of_int_numeral of_int_of_nat_eq)
  then show "dmul (double_of_int (int n)) (Fin p) = Fin (rnd (of_nat n * p))"
    using p assms(3) by (simp add: is_int32_def to_double_small)
qed

lemma lround_rank:
  assumes "0 \<le> p" and "p \<le> 1" and "int n \<le> INT_MAX"
  shows "\<exists>l. lround (dmul (double_of_int (int n)) (Fin p)) = Inr l \<and> 0 \<le> l \<and> l \<le> int n
    \<and> nat (l - 1) = percentile_rank p n"
proof -
  let ?x = "rnd (of_nat n * p)"
  note x = rnd_of_nat_times [OF assms]
  have l: "0 \<le> round_away ?x" "round_away ?x \<le> int n"
    using x(2,3) by (auto simp: round_away_def floor_le_iff)
  then have "is_int64 (round_away ?x)" using assms(3) by (simp add: is_int64_def)
  then show ?thesis using l x(1) by (auto simp: percentile_rank_def)
qed

lemma percentile_tracked:
  assumes ok: "percentile_ok w" and h: "percentile_holds xs w" and p: "pw_percentile w = Fin p"
    and xs: "xs \<noteq> []" and len: "int (length xs) \<le> INT_MAX"
  shows "let ys = take (length (pw_rtts w)) (map fst xs); k = percentile_rank p (length ys)
    in Percentile_TrackedRttNs w = Inr (sort ys ! k) \<and> k < length ys"
proof -
  define ys where "ys = take (length (pw_rtts w)) (map fst xs)"
  define n where "n = min (length xs) (length (pw_rtts w))"
  have n: "length ys = n" by (simp add: ys_def n_def min_def)
  have c: "pw_sample_count w = int (length xs)" "take n (pw_rtts w) = ys"
    using h by (auto simp: percentile_holds_def Let_def n_def ys_def min_def)
  have m: "pw_max_samples w = int (length (pw_rtts w))" "0 < n" "int n \<le> INT_MAX" "int n \<le> int (length (pw_rtts w))"
    using ok xs len by (auto simp: percentile_ok_def n_def is_int32_def)
  have pr: "0 \<le> p" "p \<le> 1" using ok p by (auto simp: percentile_ok_def)
  obtain l where l: "lround (dmul (double_of_int (int n)) (Fin p)) = Inr l" "0 \<le> l" "l \<le> int n"
      "nat (l - 1) = percentile_rank p n"
    using lround_rank [OF pr m(3)] by blast
  have w: "wrap32 l = l" "is_int32 (l - 1)" using l(2,3) m(3) by (auto simp: is_int32_def)
  have snap: "snapshot_from (pw_rtts w) 0 (int n) [] = Inr ys"
    using snapshot_from_total [of 0 "int n" "pw_rtts w" "[]"] m(4) c(2) by simp
  have u: "min (int (length xs)) (int (length (pw_rtts w))) = int n" by (simp add: n_def)
  have k: "max 0 (min (l - 1) (int (length (sort ys)) - 1)) = int (percentile_rank p n)"
    using l n m(2) by (auto simp: max_def min_def)
  have kn: "percentile_rank p n < n" using l(3,4) m(2) by simp
  have at: "load_at (sort ys) (int (percentile_rank p n)) = Inr (sort ys ! percentile_rank p n)"
    using kn n by (simp add: load_at_def)
  have "Percentile_TrackedRttNs w = Inr (sort ys ! percentile_rank p n)"
    unfolding Percentile_TrackedRttNs_def Let_def c(1) m(1) u snap p bind_res_simps l(1) w(1)
      chk32_ok [OF w(2)] k at using xs by simp
  then show ?thesis using kn n by (simp add: ys_def Let_def)
qed

lemma percentile_tracked_of:
  assumes "percentile_ok w" and "percentile_holds xs w" and "int (length xs) \<le> INT_MAX"
  shows "Percentile_TrackedRttNs w = Inr (percentile_of w xs)"
proof -
  obtain p where p: "pw_percentile w = Fin p" using assms(1) by (auto simp: percentile_ok_def)
  have "nat (pw_max_samples w) = length (pw_rtts w)" using assms(1) by (auto simp: percentile_ok_def)
  then show ?thesis
    using percentile_tracked [OF assms(1,2) p _ assms(3)] p assms(2)
    by (cases "xs = []") (simp_all add: percentile_of_def Let_def percentile_holds_def Percentile_TrackedRttNs_def)
qed

interpretation percentile: sample_window_contract Percentile_ops percentile_ok percentile_holds percentile_of
proof unfold_locales
  fix w xs r i d
  show "percentile_ok w \<Longrightarrow> percentile_ok (SW_Reset Percentile_ops w) \<and> percentile_holds [] (SW_Reset Percentile_ops w)
      \<and> percentile_of (SW_Reset Percentile_ops w) = percentile_of w"
    by (simp add: percentile_of_def fun_eq_iff percentile_ok_def percentile_holds_def Percentile_ops_def Percentile_Reset_def
        split: double.split)
  show "percentile_ok w \<Longrightarrow> percentile_holds xs w \<Longrightarrow> int (length xs) < INT_MAX \<Longrightarrow>
    \<exists>w'. SW_AddSample Percentile_ops r i d w = Inr w' \<and> percentile_ok w' \<and> percentile_holds (xs @ [(r, i, d)]) w'
      \<and> percentile_of w' = percentile_of w"
    using percentile_add by (simp add: Percentile_ops_def)
  show "percentile_ok w \<Longrightarrow> percentile_holds xs w \<Longrightarrow> int (length xs) \<le> INT_MAX \<Longrightarrow>
    SW_TrackedRttNs Percentile_ops w = Inr (percentile_of w xs)"
    using percentile_tracked_of by (simp add: Percentile_ops_def)
qed (simp_all add: percentile_holds_def Percentile_ops_def)

subsection \<open>Dispatch keeps the contract\<close>

definition dyn_ok :: "sample_window \<Rightarrow> bool" where
  "dyn_ok w = (case w of DynAverage a \<Rightarrow> True | DynPercentile p \<Rightarrow> percentile_ok p)"

definition dyn_holds :: "sample list \<Rightarrow> sample_window \<Rightarrow> bool" where
  "dyn_holds xs w = (case w of DynAverage a \<Rightarrow> average_holds xs a | DynPercentile p \<Rightarrow> percentile_holds xs p)"

definition dyn_track :: "sample_window \<Rightarrow> sample list \<Rightarrow> int" where
  "dyn_track w = (case w of DynAverage a \<Rightarrow> average_of | DynPercentile p \<Rightarrow> percentile_of p)"

lemmas dyn_defs = dyn_ok_def dyn_holds_def dyn_track_def SampleWindow_ops_def

interpretation dyn: sample_window_contract SampleWindow_ops dyn_ok dyn_holds dyn_track
proof unfold_locales
  fix w :: sample_window and xs r i d
  show "dyn_ok w \<Longrightarrow> dyn_ok (SW_Reset SampleWindow_ops w) \<and> dyn_holds [] (SW_Reset SampleWindow_ops w)
      \<and> dyn_track (SW_Reset SampleWindow_ops w) = dyn_track w"
    using average.reset percentile.reset by (auto simp: dyn_defs split: sample_window.splits)
  show "dyn_ok w \<Longrightarrow> dyn_holds xs w \<Longrightarrow> is_int64 r \<Longrightarrow> is_int32 i \<Longrightarrow> int (length xs) < INT_MAX \<Longrightarrow>
    \<exists>w'. SW_AddSample SampleWindow_ops r i d w = Inr w' \<and> dyn_ok w' \<and> dyn_holds (xs @ [(r, i, d)]) w'
      \<and> dyn_track w' = dyn_track w"
    using average.add [of xs _ r i d] percentile.add [of _ xs r i d]
    by (cases w) (fastforce simp: dyn_defs)+
  show "dyn_ok w \<Longrightarrow> dyn_holds xs w \<Longrightarrow> int (length xs) \<le> INT_MAX \<Longrightarrow>
    SW_TrackedRttNs SampleWindow_ops w = Inr (dyn_track w xs)"
    using average.tracked percentile.tracked by (cases w) (auto simp: dyn_defs)
qed (auto simp: dyn_defs average.candidate percentile.candidate average.max_inflight
    percentile.max_inflight average.sample_count percentile.sample_count average.did_drop
    percentile.did_drop split: sample_window.splits)

subsection \<open>What the windows report\<close>

lemma window_min_le: "r \<in> fst ` set xs \<Longrightarrow> window_min xs \<le> r"
  by (induction xs rule: rev_induct) (force simp: min_le_iff_disj)+

lemma sum_list_ge: "\<forall>x \<in> set xs. m \<le> x \<Longrightarrow> int (length xs) * m \<le> sum_list xs"
  by (induction xs) (auto simp: algebra_simps)

lemma mean_bounds:
  assumes "xs \<noteq> []" and "\<forall>x \<in> set xs. m \<le> x"
  shows "m \<le> sum_list xs div int (length xs)"
  using sum_list_ge [OF assms(2)] assms(1) zdiv_mono1 [of "int (length xs) * m" "sum_list xs" "int (length xs)"]
  by simp

text \<open>
  The average window: after a reset it reports the least round-trip time, the largest
  in-flight count, the number of samples, whether any was dropped, and the arithmetic mean
  rounded down, which is never below the least round-trip time, as long as the sum of the
  round-trip times stays within 64 bits.
\<close>

lemma average_window_reports:
  assumes "samples_ok xs" and "xs \<noteq> []" and "\<forall>(r, i, d) \<in> set xs. 0 \<le> r"
    and "sum_list (map fst xs) \<le> INT64_MAX"
  shows "\<exists>w'. window_add Average_ops xs (Average_Reset w) = Inr w'
    \<and> SW_CandidateRttNs Average_ops w' = window_min xs
    \<and> SW_TrackedRttNs Average_ops w' = Inr (sum_list (map fst xs) div int (length xs))
    \<and> window_min xs \<le> sum_list (map fst xs) div int (length xs)
    \<and> SW_MaxInflight Average_ops w' = window_max xs \<and> SW_SampleCount Average_ops w' = int (length xs)
    \<and> SW_DidDrop Average_ops w' = window_drop xs"
proof -
  have r: "SW_Reset Average_ops w = Average_Reset w" by (simp add: Average_ops_def)
  obtain w' where w': "window_add Average_ops xs (Average_Reset w) = Inr w'"
    using average.window_add_holds [of "[]" "Average_Reset w" xs] average.reset [of w] assms(1) r by auto
  note a = average.aggregates [of xs w w', OF _ assms(1)]
  have s0: "0 \<le> sum_list (map fst xs)" using assms(3) by (intro sum_list_nonneg) auto
  then have s: "wrap64 (sum_list (map fst xs)) = sum_list (map fst xs)" using assms(4) by (simp add: is_int64_def)
  have "SW_TrackedRttNs Average_ops w' = Inr (sum_list (map fst xs) div int (length xs))"
    using a(7) w' assms(2) s s0 r
    by (cases "sum_list (map fst xs) = 0") (simp_all add: average_of_def Let_def)
  moreover have "window_min xs \<le> sum_list (map fst xs) div int (length xs)"
    using mean_bounds [of "map fst xs" "window_min xs"] assms(2) window_min_le by simp
  ultimately show ?thesis using a(1-4) w' r by simp
qed

theorem average_window_reports_witness:
  "\<exists>w'. window_add Average_ops [(300, 2, False), (100, 7, True), (250, 4, False)] (Average_Reset Average_new) = Inr w'
    \<and> SW_CandidateRttNs Average_ops w' = 100 \<and> SW_TrackedRttNs Average_ops w' = Inr 216
    \<and> SW_MaxInflight Average_ops w' = 7 \<and> SW_SampleCount Average_ops w' = 3 \<and> SW_DidDrop Average_ops w'"
  using average_window_reports [of "[(300, 2, False), (100, 7, True), (250, 4, False)]" Average_new]
  by (simp add: samples_ok_def is_int64_def is_int32_def window_min_def window_max_def window_drop_def)

text \<open>
  C35. The percentile window: for an array of at least one entry, a percentile between zero and one, and at least one and at most
  \<^verbatim>\<open>INT_MAX\<close> samples of their types, whatever an earlier window left in the array, after a reset the
  tracked value is the one of the configured rank among the round-trip times of this window
  that fit the array, one of them in particular; the least round-trip time still counts every
  sample.
\<close>

theorem percentile_window_reports:
  assumes "percentile_ok w" and "samples_ok xs" and "xs \<noteq> []" and "pw_percentile w = Fin p"
  shows "\<exists>w'. window_add Percentile_ops xs (Percentile_Reset w) = Inr w'
    \<and> (let ys = take (nat (pw_max_samples w)) (map fst xs); k = percentile_rank p (length ys)
       in k < length ys \<and> SW_TrackedRttNs Percentile_ops w' = Inr (sort ys ! k) \<and> sort ys ! k \<in> set ys)
    \<and> SW_CandidateRttNs Percentile_ops w' = window_min xs \<and> SW_SampleCount Percentile_ops w' = int (length xs)"
proof -
  have r: "SW_Reset Percentile_ops w = Percentile_Reset w" by (simp add: Percentile_ops_def)
  obtain w' where w': "window_add Percentile_ops xs (Percentile_Reset w) = Inr w'"
    using percentile.window_add_holds [of "Percentile_Reset w" "[]" xs] percentile.reset [OF assms(1)] assms(2) r
    by auto
  note a = percentile.aggregates [OF assms(1,2), of w'] 
  have keep: "window_add Percentile_ops zs v = Inr v' \<Longrightarrow>
      pw_percentile v' = pw_percentile v \<and> length (pw_rtts v') = length (pw_rtts v)" for zs v v'
    by (induction Percentile_ops zs v rule: window_add.induct)
       (auto simp: Percentile_ops_def Percentile_AddSample_def store_at_def bind_res_Inr Let_def split: if_splits)
  have len: "length (pw_rtts w') = nat (pw_max_samples w)" "pw_percentile w' = Fin p"
    using keep [OF w'] assms(1,4) by (auto simp: Percentile_Reset_def percentile_ok_def)
  define ys where "ys = take (nat (pw_max_samples w)) (map fst xs)"
  have "int (length xs) \<le> INT_MAX" using assms(2) by (simp add: samples_ok_def)
  then have t: "Percentile_TrackedRttNs w' = Inr (sort ys ! percentile_rank p (length ys))"
      "percentile_rank p (length ys) < length ys"
    using percentile_tracked [OF a(5,6) len(2) assms(3)] w' r by (simp_all add: Let_def len(1) ys_def)
  then have "sort ys ! percentile_rank p (length ys) \<in> set ys" by (metis length_sort nth_mem set_sort)
  then show ?thesis using t a(1,3) w' r by (simp add: Let_def ys_def Percentile_ops_def)
qed

lemma rank_three_quarters: "percentile_rank (3/4) (Suc (Suc (Suc (Suc 0)))) = 2"
proof -
  have "rnd (3 :: rat) = 3" using rnd_numeral [of "num.Bit1 num.One"] by simp
  moreover have "\<lfloor>7 / 2 :: rat\<rfloor> = 3" by (rule floor_unique) simp_all
  ultimately show ?thesis by (simp add: percentile_rank_def round_away_def)
qed

theorem percentile_window_reports_witness:
  "\<exists>w w'. Percentile_new (Fin (3/4)) 4 = Inr w
    \<and> window_add Percentile_ops [(30, 2, False), (10, 7, True), (40, 4, False), (20, 1, False), (5, 1, False)]
        (Percentile_Reset w) = Inr w'
    \<and> SW_TrackedRttNs Percentile_ops w' = Inr 30 \<and> SW_CandidateRttNs Percentile_ops w' = 5
    \<and> SW_SampleCount Percentile_ops w' = 5"
proof -
  define w where "w = \<lparr>pw_percentile = Fin (3/4), pw_max_samples = 4, pw_rtts = [0, 0, 0, 0],
    pw_sample_count = 0, pw_min_rtt_ns = INT64_MAX, pw_max_inflight = 0, pw_did_drop = False\<rparr>"
  have new: "Percentile_new (Fin (3/4)) 4 = Inr w"
    by (simp add: Percentile_new_def w_def numeral_eq_Suc)
  have ok: "percentile_ok w" "pw_percentile w = Fin (3/4)" "pw_max_samples w = 4"
    by (simp_all add: percentile_ok_def w_def is_int32_def exI [of _ "3/4"])
  show ?thesis
    using percentile_window_reports [OF ok(1) _ _ ok(2),
        of "[(30, 2, False), (10, 7, True), (40, 4, False), (20, 1, False), (5, 1, False)]"] new ok(3)
    by (simp add: Let_def samples_ok_def is_int64_def is_int32_def window_min_def rank_three_quarters)
qed

text \<open>Up to \<open>2 ^ 31\<close> samples the counter is the number of samples, wrapped.\<close>

lemma percentile_counts:
  assumes "percentile_ok w" and "0 \<le> pw_sample_count w" and "is_int32 (pw_sample_count w)"
    and "pw_sample_count w + int (length xs) \<le> 2 ^ 31"
  shows "\<exists>w'. window_add Percentile_ops xs w = Inr w' \<and> percentile_ok w' \<and> pw_sample_count w' = wrap32 (pw_sample_count w + int (length xs))"
  using assms
proof (induction xs arbitrary: w)
  case (Cons x xs)
  obtain r i d where x: "x = (r, i, d)" by (cases x)
  have "\<exists>rtts. (if pw_sample_count w < pw_max_samples w then store_at (pw_sample_count w) r (pw_rtts w) else Inr (pw_rtts w))
      = Inr rtts \<and> length rtts = length (pw_rtts w)"
    using Cons.prems(1,2) by (simp add: percentile_ok_def store_at_def)
  then have "\<exists>u. Percentile_AddSample r i d w = Inr u \<and> percentile_ok u \<and> pw_sample_count u = wrap32 (pw_sample_count w + 1)"
    using Cons.prems(1) by (auto simp: Percentile_AddSample_eq percentile_ok_def simp del: if_split)
  then obtain u where u: "Percentile_AddSample r i d w = Inr u" "percentile_ok u" "pw_sample_count u = wrap32 (pw_sample_count w + 1)"
    by blast
  show ?case
  proof (cases "pw_sample_count w = INT_MAX")
    case True
    then have "xs = []" using Cons.prems(4) by simp
    then show ?thesis using u by (simp add: x Percentile_ops_def)
  next
    case False
    then have c: "is_int32 (pw_sample_count w + 1)" using Cons.prems(2,3) by (simp add: is_int32_def)
    then have "0 \<le> pw_sample_count u" "is_int32 (pw_sample_count u)" "pw_sample_count u + int (length xs) \<le> 2 ^ 31"
      using u(3) Cons.prems(2,4) by simp_all
    from Cons.IH [OF u(2) this] show ?thesis using u(1,3) c by (simp add: x Percentile_ops_def add.assoc)
  qed
qed simp

text \<open>
  C40. The wrap-around of the sample counter: a percentile window built with a positive number of samples takes any
  \<open>2 ^ 31\<close> samples without a reset; then its counter is negative, passes the bound check, and the
  next sample is stored outside the array.
\<close>

theorem percentile_window_counter_wraps:
  assumes "Percentile_new (Fin p) n = Inr w" and "0 < n" and "is_int32 n" and "0 \<le> p" and "p \<le> 1" and "length xs = 2 ^ 31"
  shows "\<exists>w'. window_add Percentile_ops xs w = Inr w' \<and> SW_SampleCount Percentile_ops w' = INT_MIN
    \<and> Percentile_AddSample r i d w' = Inl OutOfBounds"
proof -
  have w: "percentile_ok w" "pw_sample_count w = 0"
    using assms(1-5) by (auto simp: Percentile_new_def percentile_ok_def)
  have "int (length xs) = 2 ^ 31" using assms(6) by simp
  then obtain w' where w': "window_add Percentile_ops xs w = Inr w'" "percentile_ok w'" "pw_sample_count w' = wrap32 (2 ^ 31)"
    using percentile_counts [OF w(1), of xs] w(2) by (auto simp: is_int32_def)
  have "pw_sample_count w' = INT_MIN" using w'(3) by (simp add: wrap32_def)
  then show ?thesis using w'(1,2)
    by (intro exI [of _ w']) (simp add: Percentile_AddSample_eq Percentile_ops_def percentile_ok_def is_int32_def store_at_def)
qed

theorem percentile_window_counter_wraps_witness:
  "\<exists>w w'. Percentile_new (Fin 1) 2 = Inr w \<and> window_add Percentile_ops (replicate (2 ^ 31) (1, 1, False)) w = Inr w'
    \<and> SW_SampleCount Percentile_ops w' = INT_MIN \<and> Percentile_AddSample 1 1 False w' = Inl OutOfBounds"
proof -
  obtain w where w: "Percentile_new (Fin 1) 2 = Inr w" by (simp add: Percentile_new_def)
  have "length (replicate (2 ^ 31) (1 :: int, 1 :: int, False)) = 2 ^ 31" by (rule length_replicate)
  from percentile_window_counter_wraps [OF w _ _ _ _ this, of 1 1 False] w show ?thesis by (auto simp: is_int32_def)
qed

end
