(* ===== verification/Windowed.thy ===== *)
theory Windowed
  imports Gradient2 Sample_Windows
begin

section \<open>Windowed: one update of the algorithm per time window\<close>

text \<open>
  \<^verbatim>\<open>WindowedLimit\<close> (\<^verbatim>\<open>windowed_limit.h\<close>, \<^verbatim>\<open>windowed_limit.cc\<close>), the decorator that folds samples
  into one of two slots and hands their aggregate to the wrapped limit when a window is over.
  It is parametric in the virtual tables of its delegate and of its slots. \<^verbatim>\<open>OnSample\<close> is split
  where other threads can come between: \<open>Windowed_Accumulate\<close> runs up to the first check of
  the due time, \<open>Windowed_Boundary\<close> from the \<^verbatim>\<open>try_lock\<close> on. The mutex is a field that says
  whether another thread holds it. Plain \<^verbatim>\<open>int64_t\<close> arithmetic is checked.
\<close>

subsection \<open>State and builder\<close>

record ('l, 'w) windowed =
  wl_delegate :: 'l
  wl_slots :: "'w list"
  wl_active_index :: int
  wl_next_update_time_ns :: int
  wl_boundary_mu :: bool
  wl_min_window_time_ns :: int
  wl_max_window_time_ns :: int
  wl_window_size :: int
  wl_min_rtt_threshold_ns :: int

record windowed_builder =
  wb_min_window_time_ns :: int
  wb_max_window_time_ns :: int
  wb_window_size :: int
  wb_min_rtt_threshold_ns :: int
  wb_sample_window_factory :: "(nat \<Rightarrow> sample_window) option"

text \<open>A factory is code of the application; its \<open>n\<close>-th invocation returns \<open>f n\<close>.\<close>

definition Windowed_Builder :: windowed_builder where
  "Windowed_Builder =
     \<lparr>wb_min_window_time_ns = 1000000000, wb_max_window_time_ns = 1000000000, wb_window_size = 10,
      wb_min_rtt_threshold_ns = 100000, wb_sample_window_factory = None\<rparr>"

definition MinWindowTimeNs :: "int \<Rightarrow> windowed_builder \<Rightarrow> windowed_builder" where
  "MinWindowTimeNs v b = b\<lparr>wb_min_window_time_ns := v\<rparr>"

definition MaxWindowTimeNs :: "int \<Rightarrow> windowed_builder \<Rightarrow> windowed_builder" where
  "MaxWindowTimeNs v b = b\<lparr>wb_max_window_time_ns := v\<rparr>"

definition WindowSize :: "int \<Rightarrow> windowed_builder \<Rightarrow> windowed_builder" where
  "WindowSize v b = b\<lparr>wb_window_size := v\<rparr>"

definition MinRttThresholdNs :: "int \<Rightarrow> windowed_builder \<Rightarrow> windowed_builder" where
  "MinRttThresholdNs v b = b\<lparr>wb_min_rtt_threshold_ns := v\<rparr>"

definition SampleWindowFactory ::
  "(nat \<Rightarrow> sample_window) option \<Rightarrow> windowed_builder \<Rightarrow> windowed_builder" where
  "SampleWindowFactory factory b = b\<lparr>wb_sample_window_factory := factory\<rparr>"

definition Windowed_new ::
  "'l \<Rightarrow> 'w \<Rightarrow> 'w \<Rightarrow> int \<Rightarrow> int \<Rightarrow> int \<Rightarrow> int \<Rightarrow> ('l, 'w) windowed" where
  "Windowed_new delegate slot0 slot1 min_window_time_ns max_window_time_ns window_size min_rtt_threshold_ns =
     \<lparr>wl_delegate = delegate, wl_slots = [slot0, slot1], wl_active_index = 0,
      wl_next_update_time_ns = 0, wl_boundary_mu = False,
      wl_min_window_time_ns = min_window_time_ns, wl_max_window_time_ns = max_window_time_ns,
      wl_window_size = window_size, wl_min_rtt_threshold_ns = min_rtt_threshold_ns\<rparr>"

text \<open>\<^verbatim>\<open>Build\<close> checks neither the delegate nor what the factory returns for null; both are objects here.\<close>

definition Windowed_Build :: "windowed_builder \<Rightarrow> 'l \<Rightarrow> status + ('l, sample_window) windowed" where
  "Windowed_Build b delegate =
     (if wb_min_window_time_ns b \<le> 0 then
        Inl (InvalidArgument ''WindowedLimit::Builder::MinWindowTimeNs must be positive'')
      else if wb_max_window_time_ns b \<le> 0 then
        Inl (InvalidArgument ''WindowedLimit::Builder::MaxWindowTimeNs must be positive'')
      else if wb_max_window_time_ns b < wb_min_window_time_ns b then
        Inl (InvalidArgument ''WindowedLimit::Builder::MinWindowTimeNs must not exceed MaxWindowTimeNs'')
      else if wb_window_size b < 1 then
        Inl (InvalidArgument ''WindowedLimit::Builder::WindowSize must be at least 1'')
      else if wb_min_rtt_threshold_ns b < 0 then
        Inl (InvalidArgument ''WindowedLimit::Builder::MinRttThresholdNs must be non-negative'')
      else
        let factory = (case wb_sample_window_factory b of Some f \<Rightarrow> f | None \<Rightarrow> (\<lambda>n. DynAverage Average_new))
        in Inr (Windowed_new delegate (factory 0) (factory 1) (wb_min_window_time_ns b)
                  (wb_max_window_time_ns b) (wb_window_size b) (wb_min_rtt_threshold_ns b)))"

subsection \<open>OnSample\<close>

text \<open>The duration of the next window.\<close>

definition Windowed_adaptive_ns :: "int \<Rightarrow> ('l, 'w) windowed \<Rightarrow> int res" where
  "Windowed_adaptive_ns candidate_rtt s =
     (if candidate_rtt = INT64_MAX then Inr (wl_min_window_time_ns s)
      else bind_res (chk64 (candidate_rtt * 2)) (\<lambda>twice.
        Inr (min (max twice (wl_min_window_time_ns s)) (wl_max_window_time_ns s))))"

definition Windowed_Accumulate ::
  "'w sample_window_ops \<Rightarrow> int \<Rightarrow> int \<Rightarrow> bool \<Rightarrow> ('l, 'w) windowed \<Rightarrow> ('l, 'w) windowed res" where
  "Windowed_Accumulate wops rtt_ns inflight did_drop s =
     (let idx = wl_active_index s in
      bind_res (load_at (wl_slots s) idx) (\<lambda>slot.
      bind_res (SW_AddSample wops rtt_ns inflight did_drop slot) (\<lambda>slot'.
      bind_res (store_at idx slot' (wl_slots s)) (\<lambda>slots. Inr (s\<lparr>wl_slots := slots\<rparr>)))))"

definition Windowed_Boundary ::
  "'w sample_window_ops \<Rightarrow> ('l, 'cb) limit_ops \<Rightarrow> int \<Rightarrow> int \<Rightarrow> ('l, 'w) windowed \<Rightarrow>
   (('l, 'w) windowed \<times> ('cb \<times> int) list) res" where
  "Windowed_Boundary wops dops start_time_ns end_time_ns s =
     (if wl_boundary_mu s then Inr (s, [])
      else if end_time_ns \<le> wl_next_update_time_ns s then Inr (s, [])
      else
        let old_idx = wl_active_index s in
        bind_res (chk32 (1 - old_idx)) (\<lambda>new_idx.
        bind_res (load_at (wl_slots s) old_idx) (\<lambda>completed.
        let candidate_rtt = SW_CandidateRttNs wops completed in
        bind_res (SW_TrackedRttNs wops completed) (\<lambda>tracked_rtt.
        let max_inflight = SW_MaxInflight wops completed;
            sample_count = SW_SampleCount wops completed;
            did_drop_in_window = SW_DidDrop wops completed;
            s = s\<lparr>wl_active_index := new_idx\<rparr>
        in bind_res (Windowed_adaptive_ns candidate_rtt s) (\<lambda>adaptive_ns.
        bind_res (chk64 (end_time_ns + adaptive_ns)) (\<lambda>due.
        let s = s\<lparr>wl_next_update_time_ns := due\<rparr>;
            window_ready = (candidate_rtt \<noteq> INT64_MAX \<and> wl_window_size s \<le> sample_count)
        in bind_res (if window_ready
                     then OnSample dops start_time_ns tracked_rtt max_inflight did_drop_in_window (wl_delegate s)
                     else Inr (wl_delegate s, [])) (\<lambda>(delegate, calls).
        let s = s\<lparr>wl_delegate := delegate\<rparr> in
        bind_res (store_at old_idx (SW_Reset wops completed) (wl_slots s)) (\<lambda>slots.
        Inr (s\<lparr>wl_slots := slots\<rparr>, calls)))))))))"

definition Windowed_OnSample ::
  "'w sample_window_ops \<Rightarrow> ('l, 'cb) limit_ops \<Rightarrow> int \<Rightarrow> int \<Rightarrow> int \<Rightarrow> bool \<Rightarrow> ('l, 'w) windowed \<Rightarrow>
   (('l, 'w) windowed \<times> ('cb \<times> int) list) res" where
  "Windowed_OnSample wops dops start_time_ns rtt_ns inflight did_drop s =
     (if rtt_ns < wl_min_rtt_threshold_ns s then Inr (s, [])
      else
        bind_res (chk64 (start_time_ns + rtt_ns)) (\<lambda>end_time_ns.
        bind_res (Windowed_Accumulate wops rtt_ns inflight did_drop s) (\<lambda>s.
        if end_time_ns \<le> wl_next_update_time_ns s then Inr (s, [])
        else Windowed_Boundary wops dops start_time_ns end_time_ns s)))"

definition Windowed_ops ::
  "'w sample_window_ops \<Rightarrow> ('l, 'cb) limit_ops \<Rightarrow> (('l, 'w) windowed, 'cb) limit_ops" where
  "Windowed_ops wops dops =
     \<lparr>GetLimit = (\<lambda>s. GetLimit dops (wl_delegate s)),
      NotifyOnChange = (\<lambda>cb s. s\<lparr>wl_delegate := NotifyOnChange dops cb (wl_delegate s)\<rparr>),
      OnSample = Windowed_OnSample wops dops\<rparr>"

subsection \<open>The specification: one list of pending samples\<close>

text \<open>
  The abstract decorator keeps the delegate, the samples accepted since the last boundary and
  the time the next one is due; it has no slots, no index and no lock.
\<close>

record 'l window_spec =
  ws_delegate :: 'l
  ws_pending :: "sample list"
  ws_due :: int

definition window_length :: "int \<Rightarrow> int \<Rightarrow> int \<Rightarrow> int" where
  "window_length lo hi candidate = (if candidate = INT64_MAX then lo else min (max (candidate * 2) lo) hi)"

definition spec_sample ::
  "('l, 'w) windowed \<Rightarrow> (sample list \<Rightarrow> int) \<Rightarrow> ('l, 'cb) limit_ops \<Rightarrow> int \<Rightarrow> int \<Rightarrow> int \<Rightarrow> bool \<Rightarrow>
   'l window_spec \<Rightarrow> ('l window_spec \<times> ('cb \<times> int) list) res" where
  "spec_sample cfg track dops t r i d a =
     (if r < wl_min_rtt_threshold_ns cfg then Inr (a, [])
      else let xs = ws_pending a @ [(r, i, d)] in
        if t + r \<le> ws_due a then Inr (a\<lparr>ws_pending := xs\<rparr>, [])
        else
          let a = a\<lparr>ws_pending := [],
                     ws_due := t + r + window_length (wl_min_window_time_ns cfg) (wl_max_window_time_ns cfg) (window_min xs)\<rparr>
          in if window_min xs \<noteq> INT64_MAX \<and> wl_window_size cfg \<le> int (length xs)
             then bind_res (OnSample dops t (track xs) (window_max xs) (window_drop xs) (ws_delegate a))
                    (\<lambda>(l, calls). Inr (a\<lparr>ws_delegate := l\<rparr>, calls))
             else Inr (a, []))"

text \<open>Agreement of two results: the same undefined behaviour, or related states and equal calls.\<close>

fun res_rel :: "('s \<Rightarrow> 'a \<Rightarrow> bool) \<Rightarrow> ('s \<times> 'c) res \<Rightarrow> ('a \<times> 'c) res \<Rightarrow> bool" where
  "res_rel R (Inl e) (Inl e') \<longleftrightarrow> e = e'"
| "res_rel R (Inr (s, cs)) (Inr (a, cs')) \<longleftrightarrow> R s a \<and> cs = cs'"
| "res_rel R _ _ \<longleftrightarrow> False"

fun spec_feed ::
  "('l, 'w) windowed \<Rightarrow> (sample list \<Rightarrow> int) \<Rightarrow> ('l, 'cb) limit_ops \<Rightarrow> (int \<times> int \<times> int \<times> bool) list \<Rightarrow>
   'l window_spec \<Rightarrow> ('l window_spec \<times> ('cb \<times> int) list) res" where
  "spec_feed cfg track dops [] a = Inr (a, [])"
| "spec_feed cfg track dops ((t, r, i, d) # xs) a =
     bind_res (spec_sample cfg track dops t r i d a) (\<lambda>(a', cs).
     bind_res (spec_feed cfg track dops xs a') (\<lambda>(a'', cs'). Inr (a'', cs @ cs')))"

text \<open>Samples whose arithmetic stays within 64 bits.\<close>

definition tame :: "('l, 'w) windowed \<Rightarrow> int \<times> int \<times> int \<times> bool \<Rightarrow> bool" where
  "tame cfg = (\<lambda>(t, r, i, d). is_int32 i \<and> is_int64 r \<and> is_int64 (r * 2) \<and> is_int64 (t + r)
     \<and> is_int64 (t + r + wl_max_window_time_ns cfg))"

definition wl_config_ok :: "('l, 'w) windowed \<Rightarrow> bool" where
  "wl_config_ok s \<longleftrightarrow> 0 < wl_min_window_time_ns s \<and> wl_min_window_time_ns s \<le> wl_max_window_time_ns s
     \<and> 1 \<le> wl_window_size s \<and> 0 \<le> wl_min_rtt_threshold_ns s"

definition same_config :: "('l, 'w) windowed \<Rightarrow> ('l, 'w) windowed \<Rightarrow> bool" where
  "same_config s c \<longleftrightarrow> wl_min_window_time_ns s = wl_min_window_time_ns c
     \<and> wl_max_window_time_ns s = wl_max_window_time_ns c \<and> wl_window_size s = wl_window_size c
     \<and> wl_min_rtt_threshold_ns s = wl_min_rtt_threshold_ns c"

lemma window_length_bounds:
  assumes "lo \<le> hi"
  shows "lo \<le> window_length lo hi c" and "window_length lo hi c \<le> hi"
  using assms by (auto simp: window_length_def)

lemma window_min_nonneg:
  "\<forall>(r, i, d) \<in> set xs. 0 \<le> r \<Longrightarrow> 0 \<le> window_min xs"
  by (induction xs rule: rev_induct) auto

text \<open>The active slot holds the pending samples, the other one is fresh.\<close>

definition win_rel ::
  "('w \<Rightarrow> bool) \<Rightarrow> (sample list \<Rightarrow> 'w \<Rightarrow> bool) \<Rightarrow> ('w \<Rightarrow> sample list \<Rightarrow> int) \<Rightarrow> ('l, 'w) windowed \<Rightarrow> (sample list \<Rightarrow> int) \<Rightarrow> ('l, 'w) windowed \<Rightarrow> 'l window_spec \<Rightarrow> bool" where
  "win_rel ok holds track cfg tr s a \<longleftrightarrow> same_config s cfg \<and> \<not> wl_boundary_mu s
     \<and> (\<exists>w v. (wl_slots s = [w, v] \<and> wl_active_index s = 0 \<or> wl_slots s = [v, w] \<and> wl_active_index s = 1)
         \<and> ok w \<and> ok v \<and> holds (ws_pending a) w \<and> holds [] v \<and> track w = tr \<and> track v = tr)
     \<and> (\<forall>(r, i, d) \<in> set (ws_pending a). 0 \<le> r)
     \<and> ws_delegate a = wl_delegate s \<and> ws_due a = wl_next_update_time_ns s"

subsection \<open>The decorator over any slots and any delegate\<close>

locale windowed_client =
  sw: sample_window_contract wops ok holds track + dl: limit_contract dops inv listeners
  for wops :: "'w sample_window_ops" and ok holds track
    and dops :: "('l, 'cb) limit_ops" and inv listeners
begin

lemma accumulate:
  assumes rel: "win_rel ok holds track cfg tr s a" and "0 \<le> r" and "is_int64 r" and "is_int32 i"
    and "int (length (ws_pending a)) < INT_MAX"
  shows "\<exists>s'. Windowed_Accumulate wops r i d s = Inr s'
    \<and> win_rel ok holds track cfg tr s' (a\<lparr>ws_pending := ws_pending a @ [(r, i, d)]\<rparr>)
    \<and> wl_next_update_time_ns s' = wl_next_update_time_ns s"
proof -
  obtain w v where w: "wl_slots s = [w, v] \<and> wl_active_index s = 0 \<or> wl_slots s = [v, w] \<and> wl_active_index s = 1"
      "ok w" "ok v" "holds (ws_pending a) w" "holds [] v" "track w = tr" "track v = tr"
    using rel by (auto simp: win_rel_def)
  obtain w' where w': "SW_AddSample wops r i d w = Inr w'" "ok w'" "holds (ws_pending a @ [(r, i, d)]) w'" "track w' = tr"
    using sw.add [OF w(2,4) assms(3,4,5), of d] w(6) by auto
  define k where "k = (if wl_active_index s = 0 then 0 else 1 :: nat)"
  have "load_at (wl_slots s) (wl_active_index s) = Inr w"
    "\<And>x. store_at (wl_active_index s) x (wl_slots s) = Inr ((wl_slots s)[k := x])"
    using w(1) by (auto simp: k_def load_at_def store_at_def)
  then have "Windowed_Accumulate wops r i d s = Inr (s\<lparr>wl_slots := (wl_slots s)[k := w']\<rparr>)"
    using w'(1) by (simp add: Windowed_Accumulate_def)
  moreover have "\<exists>x y. ((wl_slots s)[k := w'] = [x, y] \<and> wl_active_index s = 0
      \<or> (wl_slots s)[k := w'] = [y, x] \<and> wl_active_index s = 1)
    \<and> ok x \<and> ok y \<and> holds (ws_pending a @ [(r, i, d)]) x \<and> holds [] y \<and> track x = tr \<and> track y = tr"
    by (rule exI [of _ w'], rule exI [of _ v]) (use w w' in \<open>auto simp: k_def\<close>)
  then have "win_rel ok holds track cfg tr (s\<lparr>wl_slots := (wl_slots s)[k := w']\<rparr>)
      (a\<lparr>ws_pending := ws_pending a @ [(r, i, d)]\<rparr>)"
    using rel assms(2) by (simp add: win_rel_def same_config_def)
  ultimately show ?thesis by simp
qed

text \<open>The slot that is closed, and the state after it was replaced by the other one.\<close>

lemma active_slot:
  assumes rel: "win_rel ok holds track cfg tr s a" and len: "int (length (ws_pending a)) \<le> INT_MAX"
  obtains k w where "load_at (wl_slots s) (wl_active_index s) = Inr w" and "wl_active_index s = int k" and "k < 2"
    and "\<And>x. store_at (wl_active_index s) x (wl_slots s) = Inr ((wl_slots s)[k := x])"
    and "SW_CandidateRttNs wops w = window_min (ws_pending a)" and "SW_MaxInflight wops w = window_max (ws_pending a)"
    and "SW_SampleCount wops w = int (length (ws_pending a))" and "SW_DidDrop wops w = window_drop (ws_pending a)"
    and "SW_TrackedRttNs wops w = Inr (tr (ws_pending a))"
    and "\<And>n l. win_rel ok holds track cfg tr (s\<lparr>wl_active_index := 1 - int k, wl_next_update_time_ns := n,
           wl_delegate := l, wl_slots := (wl_slots s)[k := SW_Reset wops w]\<rparr>)
           (a\<lparr>ws_pending := [], ws_due := n, ws_delegate := l\<rparr>)"
proof -
  obtain w v where w: "wl_slots s = [w, v] \<and> wl_active_index s = 0 \<or> wl_slots s = [v, w] \<and> wl_active_index s = 1"
      "ok w" "ok v" "holds (ws_pending a) w" "holds [] v" "track w = tr" "track v = tr"
    using rel by (auto simp: win_rel_def)
  define k where "k = (if wl_active_index s = 0 then 0 else 1 :: nat)"
  have rst: "ok (SW_Reset wops w)" "holds [] (SW_Reset wops w)" "track (SW_Reset wops w) = tr"
    using sw.reset [OF w(2)] w(6) by auto
  have "win_rel ok holds track cfg tr (s\<lparr>wl_active_index := 1 - int k, wl_next_update_time_ns := n,
      wl_delegate := l, wl_slots := (wl_slots s)[k := SW_Reset wops w]\<rparr>)
      (a\<lparr>ws_pending := [], ws_due := n, ws_delegate := l\<rparr>)" for n l
    using w rst rel by (auto simp: win_rel_def same_config_def k_def)
  moreover have "load_at (wl_slots s) (wl_active_index s) = Inr w" "wl_active_index s = int k" "k < 2"
    "\<And>x. store_at (wl_active_index s) x (wl_slots s) = Inr ((wl_slots s)[k := x])"
    using w(1) by (auto simp: k_def load_at_def store_at_def)
  moreover have "SW_CandidateRttNs wops w = window_min (ws_pending a)" "SW_MaxInflight wops w = window_max (ws_pending a)"
    "SW_SampleCount wops w = int (length (ws_pending a))" "SW_DidDrop wops w = window_drop (ws_pending a)"
    "SW_TrackedRttNs wops w = Inr (tr (ws_pending a))"
    using sw.candidate sw.max_inflight sw.sample_count sw.did_drop sw.tracked w len by auto
  ultimately show ?thesis using that by blast
qed

lemma boundary:
  assumes rel: "win_rel ok holds track cfg tr s a" and cfg: "wl_config_ok cfg"
    and c: "is_int64 (window_min (ws_pending a) * 2)" and e: "is_int64 e" "is_int64 (e + wl_max_window_time_ns cfg)"
    and len: "int (length (ws_pending a)) \<le> INT_MAX" and due: "ws_due a < e"
  shows "res_rel (win_rel ok holds track cfg tr) (Windowed_Boundary wops dops t e s)
    (let xs = ws_pending a; 
         a = a\<lparr>ws_pending := [], ws_due := e + window_length (wl_min_window_time_ns cfg) (wl_max_window_time_ns cfg) (window_min xs)\<rparr>
     in if window_min xs \<noteq> INT64_MAX \<and> wl_window_size cfg \<le> int (length xs)
        then bind_res (OnSample dops t (tr xs) (window_max xs) (window_drop xs) (ws_delegate a))
               (\<lambda>(l, calls). Inr (a\<lparr>ws_delegate := l\<rparr>, calls))
        else Inr (a, []))"
proof -
  let ?xs = "ws_pending a"
  obtain w k where k: "load_at (wl_slots s) (wl_active_index s) = Inr w" "wl_active_index s = int k" "k < 2"
      "\<And>x. store_at (wl_active_index s) x (wl_slots s) = Inr ((wl_slots s)[k := x])"
    and get: "SW_CandidateRttNs wops w = window_min ?xs" "SW_MaxInflight wops w = window_max ?xs"
      "SW_SampleCount wops w = int (length ?xs)" "SW_DidDrop wops w = window_drop ?xs" "SW_TrackedRttNs wops w = Inr (tr ?xs)"
    and flipped: "\<And>n l. win_rel ok holds track cfg tr (s\<lparr>wl_active_index := 1 - int k, wl_next_update_time_ns := n,
           wl_delegate := l, wl_slots := (wl_slots s)[k := SW_Reset wops w]\<rparr>)
           (a\<lparr>ws_pending := [], ws_due := n, ws_delegate := l\<rparr>)"
    by (rule active_slot [OF rel len]) (rule that; assumption)
  have s: "\<not> wl_boundary_mu s" "same_config s cfg" "ws_delegate a = wl_delegate s" "ws_due a = wl_next_update_time_ns s"
    using rel by (auto simp: win_rel_def)
  let ?n = "window_length (wl_min_window_time_ns cfg) (wl_max_window_time_ns cfg) (window_min ?xs)"
  have ad: "Windowed_adaptive_ns (window_min ?xs) (s\<lparr>wl_active_index := j\<rparr>) = Inr ?n" for j
    using c s(2) by (simp add: Windowed_adaptive_ns_def window_length_def same_config_def chk64_ok)
  have "is_int64 (e + ?n)"
    using window_length_bounds [of "wl_min_window_time_ns cfg" "wl_max_window_time_ns cfg" "window_min ?xs"] e cfg
    by (auto simp: wl_config_ok_def is_int64_def)
  then have ch: "chk64 (e + ?n) = Inr (e + ?n)" by (rule chk64_ok)
  have ix: "chk32 (1 - wl_active_index s) = Inr (1 - int k)" using k(2,3) by (simp add: is_int32_def)
  define deleg where "deleg = (if window_min ?xs \<noteq> INT64_MAX \<and> wl_window_size cfg \<le> int (length ?xs)
    then OnSample dops t (tr ?xs) (window_max ?xs) (window_drop ?xs) (wl_delegate s) else Inr (wl_delegate s, []))"
  have b: "Windowed_Boundary wops dops t e s = bind_res deleg (\<lambda>(l, calls).
      Inr (s\<lparr>wl_active_index := 1 - int k, wl_next_update_time_ns := e + ?n, wl_delegate := l,
             wl_slots := (wl_slots s)[k := SW_Reset wops w]\<rparr>, calls))"
    using s due k ix get ad ch unfolding Windowed_Boundary_def Let_def deleg_def same_config_def by (simp add: chk32_ok chk64_ok)
  have sim: "res_rel (win_rel ok holds track cfg tr) (Windowed_Boundary wops dops t e s)
    (bind_res deleg (\<lambda>(l, calls). Inr (a\<lparr>ws_pending := [], ws_due := e + ?n, ws_delegate := l\<rparr>, calls)))"
    using flipped unfolding b by (cases deleg) auto
  have keep: "a\<lparr>ws_pending := [], ws_due := n, ws_delegate := wl_delegate s\<rparr> = a\<lparr>ws_pending := [], ws_due := n\<rparr>" for n
    using s(3) by (cases a) simp
  show ?thesis
  proof (cases "window_min ?xs \<noteq> INT64_MAX \<and> wl_window_size cfg \<le> int (length ?xs)")
    case True
    then show ?thesis using sim s(3) unfolding deleg_def Let_def by simp
  next
    case False
    show ?thesis using sim unfolding deleg_def Let_def if_not_P [OF False] bind_res_simps prod.case keep by simp
  qed
qed

text \<open>One sample: the decorator with its two slots does what the specification does.\<close>

lemma refines_sample:
  assumes rel: "win_rel ok holds track cfg tr s a" and cfg: "wl_config_ok cfg" and tame: "tame cfg (t, r, i, d)"
    and len: "int (length (ws_pending a)) < INT_MAX"
  shows "res_rel (win_rel ok holds track cfg tr) (Windowed_OnSample wops dops t r i d s) (spec_sample cfg tr dops t r i d a)"
proof (cases "r < wl_min_rtt_threshold_ns cfg")
  case True
  then show ?thesis using rel by (simp add: Windowed_OnSample_def spec_sample_def win_rel_def same_config_def)
next
  case False
  have t: "is_int32 i" "is_int64 r" "is_int64 (r * 2)" "is_int64 (t + r)" "is_int64 (t + r + wl_max_window_time_ns cfg)"
    and r: "0 \<le> r" using tame False cfg by (auto simp: tame_def wl_config_ok_def)
  let ?a = "a\<lparr>ws_pending := ws_pending a @ [(r, i, d)]\<rparr>"
  obtain s1 where s1: "Windowed_Accumulate wops r i d s = Inr s1" "win_rel ok holds track cfg tr s1 ?a"
      "wl_next_update_time_ns s1 = wl_next_update_time_ns s"
    using accumulate [OF rel r t(2,1) len] by blast
  have thr: "wl_min_rtt_threshold_ns s = wl_min_rtt_threshold_ns cfg" "ws_due a = wl_next_update_time_ns s"
    "\<forall>(r, i, d) \<in> set (ws_pending ?a). 0 \<le> r"
    using rel s1(2) by (auto simp: win_rel_def same_config_def)
  have "0 \<le> window_min (ws_pending ?a)" "window_min (ws_pending ?a) \<le> r"
    using window_min_nonneg [OF thr(3)] by auto
  then have m: "is_int64 (window_min (ws_pending ?a) * 2)" using t(3) by (simp add: is_int64_def)
  show ?thesis
  proof (cases "t + r \<le> ws_due a")
    case True
    then show ?thesis using False thr s1 t(4) by (simp add: Windowed_OnSample_def spec_sample_def chk64_ok Let_def)
  next
    case nd: False
    then show ?thesis
      using boundary [OF s1(2) cfg m t(4,5), of t] False thr s1 t(4) len
      by (simp add: Windowed_OnSample_def spec_sample_def chk64_ok Let_def)
  qed
qed

lemma spec_sample_pending:
  "spec_sample cfg tr dops t r i d a = Inr (a', cs) \<Longrightarrow> length (ws_pending a') \<le> Suc (length (ws_pending a))"
  by (auto simp: spec_sample_def Let_def bind_res_Inr split: if_splits)

lemma refines_feed:
  assumes "win_rel ok holds track cfg tr s a" and cfg: "wl_config_ok cfg" and "\<forall>x \<in> set xs. tame cfg x"
    and "int (length (ws_pending a) + length xs) \<le> INT_MAX"
  shows "res_rel (win_rel ok holds track cfg tr) (feed (Windowed_ops wops dops) xs s) (spec_feed cfg tr dops xs a)"
  using assms(1,3,4)
proof (induction xs arbitrary: s a)
  case Nil
  then show ?case by simp
next
  case (Cons x xs)
  obtain t r i d where x: "x = (t, r, i, d)" by (cases x)
  have "res_rel (win_rel ok holds track cfg tr) (Windowed_OnSample wops dops t r i d s) (spec_sample cfg tr dops t r i d a)"
    using refines_sample [OF Cons.prems(1) cfg] Cons.prems(2,3) x by simp
  then consider e where "Windowed_OnSample wops dops t r i d s = Inl e" "spec_sample cfg tr dops t r i d a = Inl e"
    | s' a' cs where "Windowed_OnSample wops dops t r i d s = Inr (s', cs)" "spec_sample cfg tr dops t r i d a = Inr (a', cs)"
        "win_rel ok holds track cfg tr s' a'"
    by (cases rule: res_rel.cases [of "(win_rel ok holds track cfg tr, Windowed_OnSample wops dops t r i d s, spec_sample cfg tr dops t r i d a)"]) auto
  then show ?case
  proof cases
    case 1
    then show ?thesis by (simp add: x Windowed_ops_def)
  next
    case 2
    have "int (length (ws_pending a') + length xs) \<le> INT_MAX"
      using spec_sample_pending [OF 2(2)] Cons.prems(3) by simp
    then have "res_rel (win_rel ok holds track cfg tr) (feed (Windowed_ops wops dops) xs s') (spec_feed cfg tr dops xs a')"
      using Cons.IH [OF 2(3)] Cons.prems(2) by simp
    then show ?thesis using 2(1,2)
      by (cases rule: res_rel.cases [of "(win_rel ok holds track cfg tr, feed (Windowed_ops wops dops) xs s', spec_feed cfg tr dops xs a')"])
         (auto simp: x Windowed_ops_def)
  qed
qed

end

text \<open>What a boundary may do: leave the delegate alone, or give it one sample.\<close>

lemma Windowed_Boundary_idle:
  "wl_boundary_mu s \<or> e \<le> wl_next_update_time_ns s \<Longrightarrow> Windowed_Boundary wops dops t e s = Inr (s, [])"
  by (auto simp: Windowed_Boundary_def)

text \<open>What a boundary that is not idle computes.\<close>

lemma Windowed_Boundary_effect:
  assumes "Windowed_Boundary wops dops t e s = Inr (s', cs)" and "\<not> wl_boundary_mu s" and "wl_next_update_time_ns s < e"
  obtains w tr n l slots where "load_at (wl_slots s) (wl_active_index s) = Inr w" and "SW_TrackedRttNs wops w = Inr tr"
    and "Windowed_adaptive_ns (SW_CandidateRttNs wops w) s = Inr n" and "is_int64 (e + n)"
    and "(if SW_CandidateRttNs wops w \<noteq> INT64_MAX \<and> wl_window_size s \<le> SW_SampleCount wops w
         then OnSample dops t tr (SW_MaxInflight wops w) (SW_DidDrop wops w) (wl_delegate s)
         else Inr (wl_delegate s, [])) = Inr (l, cs)"
    and "store_at (wl_active_index s) (SW_Reset wops w) (wl_slots s) = Inr slots"
    and "s' = s\<lparr>wl_active_index := 1 - wl_active_index s, wl_next_update_time_ns := e + n,
         wl_delegate := l, wl_slots := slots\<rparr>"
proof -
  have ad: "Windowed_adaptive_ns c (s\<lparr>wl_active_index := j\<rparr>) = Windowed_adaptive_ns c s" for c j
    by (simp add: Windowed_adaptive_ns_def)
  have g: "\<not> e \<le> wl_next_update_time_ns s" using assms(3) by simp
  show ?thesis
    using assms(1,2) g that unfolding Windowed_Boundary_def Let_def
    by (simp add: bind_res_Inr ad split: prod.splits split del: if_split cong: if_cong) blast
qed

lemma Windowed_Boundary_closes:
  assumes "Windowed_Boundary wops dops t e s = Inr (s', cs)" and "\<not> wl_boundary_mu s" and "wl_next_update_time_ns s < e"
  obtains n w where "load_at (wl_slots s) (wl_active_index s) = Inr w"
    and "Windowed_adaptive_ns (SW_CandidateRttNs wops w) s = Inr n"
    and "wl_next_update_time_ns s' = e + n" and "same_config s' s" and "\<not> wl_boundary_mu s'"
    and "wl_delegate s' = wl_delegate s \<and> cs = []
          \<or> (\<exists>r i d. OnSample dops t r i d (wl_delegate s) = Inr (wl_delegate s', cs))"
  using assms
proof (rule Windowed_Boundary_effect)
  fix w tr n l slots
  assume w: "load_at (wl_slots s) (wl_active_index s) = Inr w" "Windowed_adaptive_ns (SW_CandidateRttNs wops w) s = Inr n"
    and l: "(if SW_CandidateRttNs wops w \<noteq> INT64_MAX \<and> wl_window_size s \<le> SW_SampleCount wops w
         then OnSample dops t tr (SW_MaxInflight wops w) (SW_DidDrop wops w) (wl_delegate s)
         else Inr (wl_delegate s, [])) = Inr (l, cs)"
    and s': "s' = s\<lparr>wl_active_index := 1 - wl_active_index s, wl_next_update_time_ns := e + n,
         wl_delegate := l, wl_slots := slots\<rparr>"
  have "l = wl_delegate s \<and> cs = [] \<or> (\<exists>r i d. OnSample dops t r i d (wl_delegate s) = Inr (l, cs))"
    using l by (auto split: if_splits)
  then show ?thesis using that [OF w] s' assms(2) by (simp add: same_config_def)
qed

lemma Windowed_OnSample_cases:
  assumes "Windowed_OnSample wops dops t r i d s = Inr (s', cs)"
  obtains (quiet) "wl_delegate s' = wl_delegate s" "cs = []"
      "wl_next_update_time_ns s' = wl_next_update_time_ns s" "same_config s' s"
    | (closed) n where "wl_next_update_time_ns s < t + r" "wl_next_update_time_ns s' = t + r + n"
        "wl_config_ok s \<longrightarrow> wl_min_window_time_ns s \<le> n" "same_config s' s"
        "wl_delegate s' = wl_delegate s \<and> cs = []
          \<or> (\<exists>r i d. OnSample dops t r i d (wl_delegate s) = Inr (wl_delegate s', cs))"
proof -
  have acc: "Windowed_Accumulate wops r i d s = Inr s1 \<Longrightarrow> wl_delegate s1 = wl_delegate s
      \<and> wl_next_update_time_ns s1 = wl_next_update_time_ns s \<and> same_config s1 s" for s1
    by (auto simp: Windowed_Accumulate_def bind_res_Inr same_config_def Let_def)
  consider "s' = s" "cs = []"
    | s1 where "Windowed_Accumulate wops r i d s = Inr s1" "s' = s1" "cs = []"
    | s1 where "Windowed_Accumulate wops r i d s = Inr s1" "Windowed_Boundary wops dops t (t + r) s1 = Inr (s', cs)"
    using assms by (auto simp: Windowed_OnSample_def bind_res_Inr split: if_splits)
  then show ?thesis
  proof cases
    case 1
    then show ?thesis by (intro quiet) (auto simp: same_config_def)
  next
    case 2
    then show ?thesis using acc [OF 2(1)] by (intro quiet) simp_all
  next
    case 3
    note a = acc [OF 3(1)]
    show ?thesis
    proof (cases "wl_boundary_mu s1 \<or> t + r \<le> wl_next_update_time_ns s1")
      case True
      then have "s' = s1 \<and> cs = []" using 3(2) unfolding Windowed_Boundary_idle [OF True] by simp
      then show ?thesis using a by (intro quiet) auto
    next
      case False
      then have g: "\<not> wl_boundary_mu s1" "wl_next_update_time_ns s1 < t + r" by auto
      obtain n w where b: "Windowed_adaptive_ns (SW_CandidateRttNs wops w) s1 = Inr n"
          "wl_next_update_time_ns s' = t + r + n" "same_config s' s1"
          "wl_delegate s' = wl_delegate s1 \<and> cs = []
            \<or> (\<exists>r i d. OnSample dops t r i d (wl_delegate s1) = Inr (wl_delegate s', cs))"
        by (rule Windowed_Boundary_closes [OF 3(2) g])
      have "wl_config_ok s \<longrightarrow> wl_min_window_time_ns s \<le> n"
        using b(1) a by (auto simp: Windowed_adaptive_ns_def bind_res_Inr same_config_def wl_config_ok_def split: if_splits)
      then show ?thesis using b(2,3,4) g(2) a by (intro closed [of n]) (auto simp: same_config_def)
    qed
  qed
qed

text \<open>A decorator of a limit that keeps the contract keeps the contract.\<close>

sublocale windowed_client \<subseteq> deco: limit_contract "Windowed_ops wops dops"
  "\<lambda>s. inv (wl_delegate s)" "\<lambda>s. listeners (wl_delegate s)"
proof unfold_locales
  fix s s' cs t r i d
  assume i: "inv (wl_delegate s)" and "OnSample (Windowed_ops wops dops) t r i d s = Inr (s', cs)"
  then have "wl_delegate s' = wl_delegate s \<and> cs = []
      \<or> (\<exists>t r i d. OnSample dops t r i d (wl_delegate s) = Inr (wl_delegate s', cs))"
    by (auto simp: Windowed_ops_def elim: Windowed_OnSample_cases)
  from dl.maybe_sampled [OF i this]
  show "inv (wl_delegate s')" "listeners (wl_delegate s') = listeners (wl_delegate s)"
    "cs = change_calls (GetLimit (Windowed_ops wops dops) s) (GetLimit (Windowed_ops wops dops) s') (listeners (wl_delegate s))"
    by (simp_all add: Windowed_ops_def)
qed (auto simp: Windowed_ops_def dl.notify_inv dl.notify_limit dl.notify_listeners)

interpretation windowed_gradient2:
  windowed_client SampleWindow_ops dyn_ok dyn_holds dyn_track Gradient2_ops g2_inv m_listeners
  by unfold_locales

interpretation windowed_settable:
  windowed_client SampleWindow_ops dyn_ok dyn_holds dyn_track SettableLimit_ops "\<lambda>s. True" m_listeners
  by unfold_locales

subsection \<open>The builder\<close>

lemma Windowed_Build_ok:
  assumes "Windowed_Build b l = Inr s"
  shows "wl_config_ok s" and "wl_delegate s = l" and "wl_next_update_time_ns s = 0"
  using assms by (auto simp: Windowed_Build_def Windowed_new_def wl_config_ok_def Let_def split: if_splits)

lemma dyn_fresh_average: "dyn_holds [] (DynAverage Average_new)"
  by (simp add: dyn_holds_def average_holds_def Average_new_def is_int64_def)

lemma Windowed_Build_rel:
  assumes "Windowed_Build b l = Inr s" and "wb_sample_window_factory b = None"
  shows "win_rel dyn_ok dyn_holds dyn_track s average_of s \<lparr>ws_delegate = l, ws_pending = [], ws_due = 0\<rparr>"
  using assms dyn_fresh_average
  by (auto simp: Windowed_Build_def Windowed_new_def win_rel_def same_config_def Let_def dyn_ok_def
      dyn_track_def split: if_splits)

text \<open>
  The builder accepts a configuration exactly when both window times are positive and in
  order, at least one sample is asked for and the threshold is not negative; every rejection
  is an invalid-argument error, and a built decorator starts in a valid configuration over the
  delegate it was given.
\<close>

lemma windowed_build_validates:
  "(\<exists>s. Windowed_Build b l = Inr s \<and> wl_config_ok s \<and> wl_delegate s = l \<and> wl_next_update_time_ns s = 0)
     \<longleftrightarrow> 0 < wb_min_window_time_ns b \<and> wb_min_window_time_ns b \<le> wb_max_window_time_ns b
       \<and> 1 \<le> wb_window_size b \<and> 0 \<le> wb_min_rtt_threshold_ns b"
  by (auto simp: Windowed_Build_def Windowed_new_def wl_config_ok_def Let_def)

text \<open>
  C7. Refinement: over the default slots and a \<^verbatim>\<open>Gradient2Limit\<close>, every run of the decorator, with its two
  pre-allocated slots, its index flip and its resets, is a run of the specification that keeps
  one list of pending samples: the same calls of the change callbacks, the same delegate, the
  same due time, and the same undefined behaviour of the delegate if it has any.
\<close>

theorem windowed_refines_spec:
  assumes "Windowed_Build b l = Inr s" and "wb_sample_window_factory b = None"
    and "\<forall>x \<in> set xs. tame s x" and "int (length xs) \<le> INT_MAX"
  shows "res_rel (win_rel dyn_ok dyn_holds dyn_track s average_of)
    (feed (Windowed_ops SampleWindow_ops Gradient2_ops) xs s)
    (spec_feed s average_of Gradient2_ops xs \<lparr>ws_delegate = l, ws_pending = [], ws_due = 0\<rparr>)"
  by (rule windowed_gradient2.refines_feed)
     (use assms Windowed_Build_rel [OF assms(1,2)] Windowed_Build_ok [OF assms(1)] in simp_all)

theorem windowed_refines_spec_witness:
  "\<exists>s. Windowed_Build Windowed_Builder (Gradient2_Build Gradient2_Builder :: nat gradient2) = Inr s
    \<and> res_rel (win_rel dyn_ok dyn_holds dyn_track s average_of)
        (feed (Windowed_ops SampleWindow_ops Gradient2_ops) [(0, 200000, 1, False), (7, 300000, 2, True)] s)
        (spec_feed s average_of Gradient2_ops [(0, 200000, 1, False), (7, 300000, 2, True)]
           \<lparr>ws_delegate = Gradient2_Build Gradient2_Builder, ws_pending = [], ws_due = 0\<rparr>)"
proof -
  let ?l = "Gradient2_Build Gradient2_Builder :: nat gradient2"
  obtain s where s: "Windowed_Build Windowed_Builder ?l = Inr s" "wl_max_window_time_ns s = 1000000000"
    by (auto simp: Windowed_Build_def Windowed_Builder_def Windowed_new_def)
  have t: "\<forall>x \<in> set [(0, 200000, 1, False), (7, 300000, 2, True)]. tame s x"
    using s(2) by (simp add: tame_def is_int32_def is_int64_def)
  have "wb_sample_window_factory Windowed_Builder = None" "int (length [(0, 200000, 1, False), (7, 300000, 2, True)]) \<le> INT_MAX"
    by (simp_all add: Windowed_Builder_def)
  from s(1) windowed_refines_spec [OF s(1) this(1) t] this(2) show ?thesis by blast
qed

text \<open>
  Callbacks through the decorator: a callback registered with it sees every change of the
  adaptive limit, so a client that stores the last value it was given always stores what
  \<^verbatim>\<open>GetLimit\<close> returns.
\<close>

lemma windowed_callback_mirrors:
  assumes "g2_inv (wl_delegate s)"
    and "feed (Windowed_ops SampleWindow_ops Gradient2_ops) xs
           (NotifyOnChange (Windowed_ops SampleWindow_ops Gradient2_ops) cb s) = Inr (s', cs)"
  shows "replay cb cs (GetLimit (Windowed_ops SampleWindow_ops Gradient2_ops) s)
    = GetLimit (Windowed_ops SampleWindow_ops Gradient2_ops) s'"
  using assms by (rule windowed_gradient2.deco.registered_mirror)

theorem windowed_callback_mirrors_witness:
  "\<exists>s s' cs. Windowed_Build Windowed_Builder (Gradient2_Build Gradient2_Builder) = Inr s
    \<and> feed (Windowed_ops SampleWindow_ops Gradient2_ops) [(0, 5, 1, False)]
           (NotifyOnChange (Windowed_ops SampleWindow_ops Gradient2_ops) (0::nat) s) = Inr (s', cs)
    \<and> replay 0 cs (GetLimit (Windowed_ops SampleWindow_ops Gradient2_ops) s)
        = GetLimit (Windowed_ops SampleWindow_ops Gradient2_ops) s'"
proof -
  let ?l = "Gradient2_Build Gradient2_Builder :: nat gradient2"
  obtain s where s: "Windowed_Build Windowed_Builder ?l = Inr s"
    by (auto simp: Windowed_Build_def Windowed_Builder_def)
  let ?s' = "NotifyOnChange (Windowed_ops SampleWindow_ops Gradient2_ops) (0::nat) s"
  have thr: "wl_min_rtt_threshold_ns ?s' = 100000"
    using s by (auto simp: Windowed_Build_def Windowed_Builder_def Windowed_new_def Windowed_ops_def)
  then have f: "feed (Windowed_ops SampleWindow_ops Gradient2_ops) [(0, 5, 1, False)] ?s' = Inr (?s', [])"
    by (simp add: Windowed_ops_def Windowed_OnSample_def)
  have "g2_inv (wl_delegate s)"
    using Windowed_Build_ok(2) [OF s] Gradient2_Build_inv [OF Gradient2_Builder_ok] by simp
  from windowed_callback_mirrors [OF this f] s f show ?thesis by blast
qed

text \<open>
  One closing per window, whatever the interleaving: once a thread has closed a window
  that ended at \<open>e\<close>, another thread that had also found the boundary crossed, and gets the lock
  later, does nothing unless its own request ended after the whole next window.
\<close>

lemma windowed_boundary_once:
  assumes "wl_config_ok s" and "\<not> wl_boundary_mu s" and "wl_next_update_time_ns s < e"
    and "Windowed_Boundary wops dops t e s = Inr (s', cs)"
    and "e' \<le> e + wl_min_window_time_ns s"
  shows "Windowed_Boundary wops dops t' e' s' = Inr (s', [])"
proof -
  obtain n w where n: "Windowed_adaptive_ns (SW_CandidateRttNs wops w) s = Inr n"
      "wl_next_update_time_ns s' = e + n"
    by (rule Windowed_Boundary_closes [OF assms(4,2,3)])
  have "wl_min_window_time_ns s \<le> n"
    using n(1) assms(1) by (auto simp: Windowed_adaptive_ns_def bind_res_Inr wl_config_ok_def split: if_splits)
  then show ?thesis using n(2) assms(5) by (intro Windowed_Boundary_idle) simp
qed

lemmas windowed_eval = Windowed_new_def Windowed_OnSample_def Windowed_Boundary_def Windowed_Accumulate_def
  Windowed_adaptive_ns_def Windowed_ops_def Average_ops_def Average_new_def Average_AddSample_def
  Average_TrackedRttNs_def Average_Reset_def load_at_def store_at_def chk64_ok chk32_ok is_int64_def
  is_int32_def div64_def Let_def SettableLimit_ops_def AbstractLimit_ops_def SettableLimit_Update_def
  abstract_limit_defs SettableLimit_StartingAt_def

theorem windowed_boundary_once_witness:
  "\<exists>s' cs. Windowed_Boundary Average_ops SettableLimit_ops 0 5
      (Windowed_new (SettableLimit_StartingAt 10 :: nat abstract_limit) Average_new Average_new 10 20 1 0) = Inr (s', cs)
    \<and> Windowed_Boundary Average_ops SettableLimit_ops 3 12 s' = Inr (s', [])"
proof -
  let ?s = "Windowed_new (SettableLimit_StartingAt 10 :: nat abstract_limit) Average_new Average_new 10 20 1 0"
  obtain s' cs where b: "Windowed_Boundary Average_ops SettableLimit_ops 0 5 ?s = Inr (s', cs)"
    by (auto simp: windowed_eval)
  have "wl_config_ok ?s" "\<not> wl_boundary_mu ?s" "wl_next_update_time_ns ?s < 5" "12 \<le> 5 + wl_min_window_time_ns ?s"
    by (simp_all add: wl_config_ok_def Windowed_new_def)
  from windowed_boundary_once [OF this(1-3) b this(4)] b show ?thesis by blast
qed

text \<open>The delegate with a log of the samples it was given.\<close>

definition logged :: "('l, 'cb) limit_ops \<Rightarrow> ('l \<times> (int \<times> int \<times> int \<times> bool) list, 'cb) limit_ops" where
  "logged dops =
     \<lparr>GetLimit = (\<lambda>(l, log). GetLimit dops l),
      NotifyOnChange = (\<lambda>cb (l, log). (NotifyOnChange dops cb l, log)),
      OnSample = (\<lambda>t r i d (l, log).
        bind_res (OnSample dops t r i d l) (\<lambda>(l', cs). Inr ((l', log @ [(t, r, i, d)]), cs)))\<rparr>"

lemma logged_OnSample:
  "OnSample (logged dops) t r i d p = Inr (p', cs) \<Longrightarrow> length (snd p') = Suc (length (snd p))"
  by (auto simp: logged_def bind_res_Inr split: prod.splits)

lemma windowed_rate_step:
  assumes "Windowed_OnSample wops (logged dops) t r i d s = Inr (s', cs)" and "wl_config_ok s"
  shows "wl_config_ok s' \<and> wl_min_window_time_ns s' = wl_min_window_time_ns s
    \<and> (snd (wl_delegate s') = snd (wl_delegate s) \<and> wl_next_update_time_ns s \<le> wl_next_update_time_ns s'
      \<or> length (snd (wl_delegate s')) = Suc (length (snd (wl_delegate s))) \<and> wl_next_update_time_ns s < t + r
        \<and> t + r + wl_min_window_time_ns s \<le> wl_next_update_time_ns s')"
  using assms
proof (cases rule: Windowed_OnSample_cases)
  case quiet
  then show ?thesis using assms(2) by (simp add: same_config_def wl_config_ok_def)
next
  case (closed n)
  have "0 < wl_min_window_time_ns s" using assms(2) by (simp add: wl_config_ok_def)
  moreover have "wl_delegate s' = wl_delegate s \<or> length (snd (wl_delegate s')) = Suc (length (snd (wl_delegate s)))"
    using closed(5) logged_OnSample by blast
  ultimately show ?thesis using closed assms(2) by (auto simp: same_config_def wl_config_ok_def)
qed

lemma windowed_rate_feed:
  assumes "feed (Windowed_ops wops (logged dops)) xs s = Inr (s', cs)" and "wl_config_ok s"
    and "\<forall>(t, r, i, d) \<in> set xs. t0 \<le> t + r \<and> t + r \<le> t1"
  shows "(int (length (snd (wl_delegate s'))) - int (length (snd (wl_delegate s)))) * (wl_min_window_time_ns s + 1)
    \<le> max 0 (t1 - max (wl_next_update_time_ns s) (t0 - 1) + wl_min_window_time_ns s)"
  using assms
proof (induction xs arbitrary: s cs)
  case Nil
  then show ?case by simp
next
  case (Cons x xs)
  obtain t r i d where x: "x = (t, r, i, d)" by (cases x)
  from Cons.prems(1) obtain s1 cs1 cs2 where
    s1: "Windowed_OnSample wops (logged dops) t r i d s = Inr (s1, cs1)"
      "feed (Windowed_ops wops (logged dops)) xs s1 = Inr (s', cs2)"
    by (auto simp: x bind_res_Inr Windowed_ops_def)
  note st = windowed_rate_step [OF s1(1) Cons.prems(2)]
  define lo where "lo = wl_min_window_time_ns s"
  define n where "n = int (length (snd (wl_delegate s'))) - int (length (snd (wl_delegate s1)))"
  have lo: "0 < lo" "wl_min_window_time_ns s1 = lo" using Cons.prems(2) st by (auto simp: wl_config_ok_def lo_def)
  have IH: "n * (lo + 1) \<le> max 0 (t1 - max (wl_next_update_time_ns s1) (t0 - 1) + lo)"
    using Cons.IH [OF s1(2)] st Cons.prems(3) lo(2) by (simp add: n_def)
  have e: "t0 \<le> t + r" "t + r \<le> t1" using Cons.prems(3) x by auto
  from st have "snd (wl_delegate s1) = snd (wl_delegate s) \<and> wl_next_update_time_ns s \<le> wl_next_update_time_ns s1
      \<or> length (snd (wl_delegate s1)) = Suc (length (snd (wl_delegate s))) \<and> wl_next_update_time_ns s < t + r
        \<and> t + r + lo \<le> wl_next_update_time_ns s1" by (simp add: lo_def)
  then show ?case
  proof (elim disjE conjE)
    assume "snd (wl_delegate s1) = snd (wl_delegate s)" "wl_next_update_time_ns s \<le> wl_next_update_time_ns s1"
    then show ?thesis using IH unfolding n_def lo_def by simp
  next
    assume c: "length (snd (wl_delegate s1)) = Suc (length (snd (wl_delegate s)))" "wl_next_update_time_ns s < t + r"
      "t + r + lo \<le> wl_next_update_time_ns s1"
    have "(n + 1) * (lo + 1) = n * (lo + 1) + lo + 1" by (simp add: algebra_simps)
    then have "(n + 1) * (lo + 1) \<le> max 0 (t1 - max (wl_next_update_time_ns s) (t0 - 1) + lo)"
      using IH c e lo(1) by linarith
    then show ?thesis using c(1) unfolding n_def lo_def by (simp add: algebra_simps)
  qed
qed

text \<open>
  The rate at which the algorithm is driven: over any sequence of samples whose requests
  end between \<open>t0\<close> and \<open>t1\<close>, in any order, the delegate is given at most one sample per minimum
  window time, plus one.
\<close>

lemma windowed_drives_once_per_window:
  assumes "feed (Windowed_ops wops (logged dops)) xs s = Inr (s', cs)" and "wl_config_ok s"
    and "snd (wl_delegate s) = []" and "\<forall>(t, r, i, d) \<in> set xs. t0 \<le> t + r \<and> t + r \<le> t1" and "t0 \<le> t1"
  shows "(int (length (snd (wl_delegate s'))) - 1) * (wl_min_window_time_ns s + 1) \<le> t1 - t0"
proof -
  have "int (length (snd (wl_delegate s'))) * (wl_min_window_time_ns s + 1)
      \<le> max 0 (t1 - max (wl_next_update_time_ns s) (t0 - 1) + wl_min_window_time_ns s)"
    using windowed_rate_feed [OF assms(1,2,4)] assms(3) by simp
  moreover have "0 < wl_min_window_time_ns s" using assms(2) by (simp add: wl_config_ok_def)
  ultimately show ?thesis using assms(5) by (simp add: algebra_simps)
qed

theorem windowed_drives_once_per_window_witness:
  "\<exists>s' cs. feed (Windowed_ops Average_ops (logged SettableLimit_ops)) [(0, 5, 1, False), (3, 9, 1, False), (10, 20, 2, True)]
      (Windowed_new (SettableLimit_StartingAt 10 :: nat abstract_limit, []) Average_new Average_new 10 20 1 0) = Inr (s', cs)
    \<and> (int (length (snd (wl_delegate s'))) - 1) * 11 \<le> 25"
proof -
  let ?s = "Windowed_new (SettableLimit_StartingAt 10 :: nat abstract_limit, [] :: (int \<times> int \<times> int \<times> bool) list) Average_new Average_new 10 20 1 0"
  let ?xs = "[(0, 5, 1, False), (3, 9, 1, False), (10, 20, 2, True)] :: (int \<times> int \<times> int \<times> bool) list"
  obtain s' cs where f: "feed (Windowed_ops Average_ops (logged SettableLimit_ops)) ?xs ?s = Inr (s', cs)"
    by (simp add: windowed_eval logged_def)
  have h: "wl_config_ok ?s" "snd (wl_delegate ?s) = []" "wl_min_window_time_ns ?s = 10"
    "\<forall>(t, r, i, d) \<in> set ?xs. 5 \<le> t + r \<and> t + r \<le> 30"
    by (simp_all add: wl_config_ok_def Windowed_new_def)
  have "(int (length (snd (wl_delegate s'))) - 1) * 11 \<le> 25"
    using windowed_drives_once_per_window [OF f h(1,2,4)] h(3) by simp
  then show ?thesis using f by blast
qed

end
