(* ===== verification/Tracing.thy ===== *)
theory Tracing
  imports Windowed
begin

section \<open>TracingLimitDecorator: one log line per sample\<close>

text \<open>
  \<^verbatim>\<open>TracingLimitDecorator\<close> (\<^verbatim>\<open>tracing_limit_decorator.h\<close>, \<^verbatim>\<open>tracing_limit_decorator.cc\<close>) formats a
  line per sample and forwards the sample. The line is written with \<^verbatim>\<open>operator<<\<close> of an
  \<^verbatim>\<open>ostringstream\<close> in its default format: \<open>show_int\<close> for the integer, and for the
  \<^verbatim>\<open>double\<close> the conversion \<^verbatim>\<open>%g\<close> with six significant digits (\<open>show_double\<close>). The sink is code
  of the application, a value of the type \<open>'k\<close>; what the sinks received is kept in order in
  \<open>tr_log\<close>.
\<close>

subsection \<open>Default stream format\<close>

definition digit :: "nat \<Rightarrow> char" where
  "digit n = (''0123456789'' ! (n mod 10))"

fun show_nat :: "nat \<Rightarrow> string" where
  "show_nat n = (if n < 10 then [digit n] else show_nat (n div 10) @ [digit n])"

declare show_nat.simps [simp del]

definition show_int :: "int \<Rightarrow> string" where
  "show_int n = (if n < 0 then CHR 0x2D # show_nat (nat (- n)) else show_nat (nat n))"

text \<open>The decimal exponent of a positive number: \<open>10 powi e \<le> x < 10 powi (e + 1)\<close>.\<close>

definition dec_exp :: "rat \<Rightarrow> int" where
  "dec_exp x = (if 1 \<le> x then int (length (show_nat (nat \<lfloor>x\<rfloor>))) - 1
                else - int (length (show_nat (nat \<lceil>1 / x\<rceil> - 1))))"

text \<open>Six significant digits and the exponent of a positive number, rounded half to even.\<close>

definition six_digits :: "rat \<Rightarrow> nat \<times> int" where
  "six_digits x =
     (let e = dec_exp x; m = rne (x * 10 powi (5 - e))
      in if m = 1000000 then (100000, e + 1) else (nat m, e))"

definition strip_zeros :: "string \<Rightarrow> string" where
  "strip_zeros s = rev (dropWhile (\<lambda>c. c = CHR ''0'') (rev s))"

text \<open>Digits before the point, digits after it; no point if none are left.\<close>

definition with_point :: "string \<Rightarrow> string \<Rightarrow> string" where
  "with_point a b = (let b = strip_zeros b in if b = [] then a else a @ CHR ''.'' # b)"

definition show_exp :: "int \<Rightarrow> string" where
  "show_exp e = CHR ''e'' # (if e < 0 then CHR 0x2D else CHR ''+'') #
     (let s = show_nat (nat \<bar>e\<bar>) in if length s < 2 then CHR ''0'' # s else s)"

definition show_pos :: "rat \<Rightarrow> string" where
  "show_pos x =
     (let (m, e) = six_digits x; ds = show_nat m
      in if e < - 4 \<or> 6 \<le> e then with_point (take 1 ds) (drop 1 ds) @ show_exp e
         else if e < 0 then with_point ''0'' (replicate (nat (- 1 - e)) CHR ''0'' @ ds)
         else with_point (take (nat (e + 1)) ds) (drop (nat (e + 1)) ds))"

fun show_double :: "double \<Rightarrow> string" where
  "show_double (Fin x) = (if x = 0 then ''0'' else if x < 0 then CHR 0x2D # show_pos (- x) else show_pos x)"
| "show_double PInf = ''inf''"
| "show_double NInf = ''-inf''"
| "show_double NaN = ''nan''"

subsection \<open>The decorator\<close>

datatype 'k log_sink = WriteToClog | Sink 'k

record ('l, 'k) tracing =
  tr_delegate :: 'l
  tr_sink :: "'k log_sink"
  tr_log :: "('k log_sink \<times> string) list"

definition Tracing_Wrap :: "'l \<Rightarrow> 'k option \<Rightarrow> ('l, 'k) tracing" where
  "Tracing_Wrap delegate sink =
     \<lparr>tr_delegate = delegate, tr_sink = (case sink of None \<Rightarrow> WriteToClog | Some k \<Rightarrow> Sink k), tr_log = []\<rparr>"

text \<open>What arrives where the sink writes: \<^verbatim>\<open>WriteToClog\<close> ends the line.\<close>

primrec sink_text :: "'k log_sink \<Rightarrow> string \<Rightarrow> string" where
  "sink_text WriteToClog line = line @ [CHR 0x0A]"
| "sink_text (Sink k) line = line"

definition trace_line :: "int \<Rightarrow> int \<Rightarrow> bool \<Rightarrow> string" where
  "trace_line rtt_ns inflight did_drop =
     ''limen.trace maxInFlight='' @ show_int inflight
     @ '' minRtt_ms='' @ show_double (ddiv (double_of_int rtt_ns) (Fin 1000000))
     @ '' didDrop='' @ (if did_drop then ''true'' else ''false'')"

definition Tracing_OnSample ::
  "('l, 'cb) limit_ops \<Rightarrow> int \<Rightarrow> int \<Rightarrow> int \<Rightarrow> bool \<Rightarrow> ('l, 'k) tracing \<Rightarrow>
   (('l, 'k) tracing \<times> ('cb \<times> int) list) res" where
  "Tracing_OnSample dops start_time_ns rtt_ns inflight did_drop s =
     (let s = s\<lparr>tr_log := tr_log s @ [(tr_sink s, sink_text (tr_sink s) (trace_line rtt_ns inflight did_drop))]\<rparr>
      in bind_res (OnSample dops start_time_ns rtt_ns inflight did_drop (tr_delegate s))
           (\<lambda>(l, cs). Inr (s\<lparr>tr_delegate := l\<rparr>, cs)))"

definition Tracing_ops :: "('l, 'cb) limit_ops \<Rightarrow> (('l, 'k) tracing, 'cb) limit_ops" where
  "Tracing_ops dops =
     \<lparr>GetLimit = (\<lambda>s. GetLimit dops (tr_delegate s)),
      NotifyOnChange = (\<lambda>callback s. s\<lparr>tr_delegate := NotifyOnChange dops callback (tr_delegate s)\<rparr>),
      OnSample = Tracing_OnSample dops\<rparr>"

subsection \<open>Contract\<close>

locale tracing_client = limit_contract dops inv listeners
  for dops :: "('l, 'cb) limit_ops" and inv listeners
begin

lemma traced_sample:
  assumes "Tracing_OnSample dops t r i d s = Inr (s', cs)"
  shows "OnSample dops t r i d (tr_delegate s) = Inr (tr_delegate s', cs)"
  using assms by (auto simp: Tracing_OnSample_def Let_def bind_res_Inr)

end

sublocale tracing_client \<subseteq> deco: limit_contract "Tracing_ops dops"
  "\<lambda>s. inv (tr_delegate s)" "\<lambda>s. listeners (tr_delegate s)"
  by unfold_locales
     (auto simp: Tracing_ops_def notify_inv notify_limit notify_listeners
       dest: traced_sample intro: sample_inv sample_listeners sample_calls)

interpretation traced_gradient2: tracing_client Gradient2_ops g2_inv m_listeners
  by unfold_locales

interpretation traced_windowed: tracing_client "Windowed_ops SampleWindow_ops Gradient2_ops"
  "\<lambda>s. g2_inv (wl_delegate s)" "\<lambda>s. m_listeners (wl_delegate s)"
  by unfold_locales

subsection \<open>Decimal digits\<close>

definition read_digit :: "char \<Rightarrow> nat" where
  "read_digit c = of_char c - 48"

definition read_nat :: "string \<Rightarrow> nat" where
  "read_nat s = foldl (\<lambda>n c. 10 * n + read_digit c) 0 s"

fun read_int :: "string \<Rightarrow> int" where
  "read_int [] = 0"
| "read_int (c # s) = (if c = CHR 0x2D then - int (read_nat s) else int (read_nat (c # s)))"

lemma digit_cases:
  "digit n \<in> set ''0123456789'' \<and> read_digit (digit n) = n mod 10"
proof -
  have "n mod 10 \<in> {0, 1, 2, 3, 4, 5, 6, 7, 8, 9}"
    unfolding insert_iff empty_iff by presburger
  then show ?thesis by (elim insertE) (simp_all add: digit_def read_digit_def)
qed

lemma show_nat_digits: "set (show_nat n) \<subseteq> set ''0123456789'' \<and> show_nat n \<noteq> []"
proof (induction n rule: show_nat.induct)
  case (1 n)
  then show ?case using digit_cases [of n] by (subst (1 2) show_nat.simps) auto
qed

lemma read_show_nat [simp]: "read_nat (show_nat n) = n"
proof (induction n rule: show_nat.induct)
  case (1 n)
  then show ?case using digit_cases [of n] by (subst show_nat.simps) (auto simp: read_nat_def)
qed

lemma read_show_int [simp]: "read_int (show_int n) = n"
proof (cases "n < 0")
  case False
  obtain c s where c: "show_nat (nat n) = c # s" using show_nat_digits [of "nat n"] by (cases "show_nat (nat n)") auto
  then have "c \<noteq> CHR 0x2D" using show_nat_digits [of "nat n"] by auto
  then show ?thesis using False c read_show_nat [of "nat n"] by (simp add: show_int_def)
qed (simp add: show_int_def)

lemma show_int_no_space: "CHR '' '' \<notin> set (show_int n)"
  using show_nat_digits [of "nat n"] show_nat_digits [of "nat (- n)"] by (auto simp: show_int_def)


lemma show_nat_length:
  "n < 10 ^ length (show_nat n) \<and> (0 < n \<longrightarrow> 10 ^ (length (show_nat n) - 1) \<le> n)"
proof (induction n rule: show_nat.induct)
  case (1 n)
  show ?case
  proof (cases "n < 10")
    case True
    then show ?thesis by (simp add: show_nat.simps [of n])
  next
    case False
    let ?k = "length (show_nat (n div 10))"
    have IH: "n div 10 < 10 ^ ?k" "10 ^ (?k - 1) \<le> n div 10" using "1.IH" [OF False] False by auto
    have k: "?k = Suc (?k - 1)" using show_nat_digits [of "n div 10"] by (cases "show_nat (n div 10)") auto
    have "n < 10 * 10 ^ ?k" using IH(1) by linarith
    moreover have "10 * 10 ^ (?k - 1) \<le> n" using IH(2) by linarith
    then have "10 ^ ?k \<le> n" using k by (metis power_Suc)
    ultimately show ?thesis using False by (simp add: show_nat.simps [of n])
  qed
qed

lemma dec_exp_bounds:
  assumes "0 < x"
  shows "10 powi dec_exp x \<le> x" and "x < 10 powi (dec_exp x + 1)"
proof -
  have "10 powi dec_exp x \<le> x \<and> x < 10 powi (dec_exp x + 1)"
  proof (cases "1 \<le> x")
    case True
    let ?n = "nat \<lfloor>x\<rfloor>"
    have n: "0 < ?n" "of_nat ?n \<le> x" "x < of_nat ?n + 1" using True by (auto simp: of_nat_nat) linarith
    obtain k where k: "length (show_nat ?n) = Suc k" using show_nat_digits [of ?n] by (cases "show_nat ?n") auto
    have b: "10 ^ k \<le> ?n" "?n + 1 \<le> 10 ^ Suc k" using show_nat_length [of ?n] n(1) k by auto
    have "(10 ^ k :: rat) \<le> x" using b(1) n(2) by (metis of_nat_le_iff of_nat_numeral of_nat_power order_trans)
    moreover have "of_nat (?n + 1) \<le> (of_nat (10 ^ Suc k) :: rat)" using b(2) by (simp only: of_nat_le_iff)
    then have "x < 10 ^ Suc k" using n(3) by simp
    ultimately show ?thesis using True k by (simp add: dec_exp_def power_int_add)
  next
    case False
    let ?y = "1 / x" and ?n = "nat \<lceil>1 / x\<rceil> - 1"
    have y: "1 < ?y" using False assms by simp
    then have c: "1 < \<lceil>?y\<rceil>" by linarith
    then have n: "0 < ?n" "of_nat ?n < ?y" "?y \<le> of_nat ?n + 1" by (auto simp: of_nat_diff of_nat_nat) linarith+
    obtain k where k: "length (show_nat ?n) = Suc k" using show_nat_digits [of ?n] by (cases "show_nat ?n") auto
    have b: "10 ^ k \<le> ?n" "?n + 1 \<le> 10 ^ Suc k" using show_nat_length [of ?n] n(1) k by auto
    have "(10 ^ k :: rat) < ?y" using b(1) n(2) by (metis le_less_trans of_nat_le_iff of_nat_numeral of_nat_power)
    moreover have "of_nat (?n + 1) \<le> (of_nat (10 ^ Suc k) :: rat)" using b(2) by (simp only: of_nat_le_iff)
    then have "?y \<le> 10 ^ Suc k" using n(3) by simp
    ultimately have "1 / 10 ^ Suc k \<le> x" "x < 1 / 10 ^ k" using assms by (auto simp: field_simps)
    moreover have "(10::rat) powi (- int (Suc k)) = 1 / 10 ^ Suc k" "(10::rat) powi (- int (Suc k) + 1) = 1 / 10 ^ k"
      unfolding power_int_minus by (simp_all add: power_int_minus [of _ "int k", simplified] inverse_eq_divide power_int_add)
    ultimately show ?thesis using False k by (simp add: dec_exp_def)
  qed
  then show "10 powi dec_exp x \<le> x" and "x < 10 powi (dec_exp x + 1)" by auto
qed

text \<open>The digits are six, and the number they denote is within half a unit of the last one.\<close>

lemma six_digits_accurate:
  assumes "0 < x" and "six_digits x = (m, e)"
  shows "100000 \<le> m" and "m < 1000000" and "\<bar>of_nat m * 10 powi (e - 5) - x\<bar> \<le> 10 powi (e - 5) / 2"
proof -
  let ?e = "dec_exp x" let ?y = "x * 10 powi (5 - ?e)" let ?u = "10 powi (?e - 5) :: rat"
  have u: "0 < ?u" "10 powi (5 - ?e) = 1 / ?u"
    by (simp_all add: power_int_diff field_simps)
  have ten: "10 powi ?e = 100000 * ?u" "10 powi (?e + 1) = 1000000 * ?u"
    by (simp_all add: power_int_diff power_int_add)
  have xu: "?y = x / ?u" "x = ?y * ?u" using u by simp_all
  have y: "100000 \<le> ?y" "?y < 1000000"
    using dec_exp_bounds [OF assms(1)] u(1) unfolding xu(1) ten by (simp_all add: field_simps)
  define r where "r = rne ?y"
  have r: "100000 \<le> r" "r \<le> 1000000" "\<bar>of_int r - ?y\<bar> \<le> 1 / 2"
    using rne_ge [of 100000 ?y] rne_le [of ?y 1000000] rne_error [of ?y] y by (simp_all add: r_def)
  have "of_int r * ?u - x = (of_int r - ?y) * ?u" using xu(2) by (simp add: algebra_simps)
  then have "\<bar>of_int r * ?u - x\<bar> = \<bar>of_int r - ?y\<bar> * ?u" using u(1) by (simp add: abs_mult)
  also have "\<dots> \<le> 1 / 2 * ?u" using r(3) u(1) by (intro mult_right_mono) auto
  finally have e: "\<bar>of_int r * ?u - x\<bar> \<le> ?u / 2" by simp
  have me: "m = (if r = 1000000 then 100000 else nat r)" "e = (if r = 1000000 then ?e + 1 else ?e)"
    using assms(2) by (auto simp: six_digits_def Let_def r_def split: if_splits)
  then show "100000 \<le> m" "m < 1000000" using r by auto
  show "\<bar>of_nat m * 10 powi (e - 5) - x\<bar> \<le> 10 powi (e - 5) / 2"
  proof (cases "r = 1000000")
    case True
    have "10 powi (e - 5) = 10 * ?u" using me(2) True by (simp add: power_int_diff power_int_add)
    moreover have "\<bar>1000000 * ?u - x\<bar> \<le> 10 * ?u / 2" using e u(1) unfolding True of_int_numeral by linarith
    ultimately show ?thesis using me(1) True by simp
  next
    case False
    then show ?thesis using e me r(1) by (simp add: of_nat_nat)
  qed
qed

lemma take_field: "c \<notin> set xs \<Longrightarrow> takeWhile (\<lambda>x. x \<noteq> c) (xs @ c # ys) = xs"
  by (induction xs) auto

subsection \<open>Properties\<close>

text \<open>
  Tracing is transparent: fed with any samples, the decorator leaves its delegate in the
  state, and makes the callback invocations, that the delegate alone would, fails exactly when
  the delegate does, and hands its sink one line per sample, in order.
\<close>

lemma tracing_transparent:
  "feed (Tracing_ops dops) xs s = bind_res (feed dops xs (tr_delegate s)) (\<lambda>(l, cs).
     Inr (s\<lparr>tr_delegate := l, tr_log := tr_log s @
       map (\<lambda>(t, r, i, d). (tr_sink s, sink_text (tr_sink s) (trace_line r i d))) xs\<rparr>, cs))"
proof (induction xs arbitrary: s)
  case Nil
  then show ?case by simp
next
  case (Cons x xs)
  obtain t r i d where x: "x = (t, r, i, d)" by (cases x)
  show ?case
  proof (cases "OnSample dops t r i d (tr_delegate s)")
    case (Inl e)
    then show ?thesis by (simp add: x Tracing_ops_def Tracing_OnSample_def)
  next
    case (Inr p)
    obtain l cs where p: "p = (l, cs)" by (cases p)
    show ?thesis
    proof (cases "feed dops xs l")
      case Inl
      then show ?thesis using Cons Inr p by (simp add: x Tracing_ops_def Tracing_OnSample_def)
    next
      case (Inr q)
      then show ?thesis
        using Cons \<open>OnSample dops t r i d (tr_delegate s) = Inr p\<close> p
        by (cases q) (simp add: x Tracing_ops_def Tracing_OnSample_def)
    qed
  qed
qed

subsection \<open>Reading a line back\<close>

text \<open>A reader of the line as an operator's script has it: the number before the point, the digits after it, a power of ten.\<close>

definition read_decimal :: "string \<Rightarrow> rat" where
  "read_decimal s =
     (let a = takeWhile (\<lambda>c. c \<noteq> CHR ''.'') s; b = drop (length a + 1) s
      in of_nat (read_nat a) + of_nat (read_nat b) / 10 ^ length b)"

fun read_exp :: "string \<Rightarrow> int" where
  "read_exp [] = 0"
| "read_exp (c # s) = (if c = CHR 0x2D then - int (read_nat s) else int (read_nat s))"

definition read_double :: "string \<Rightarrow> rat" where
  "read_double s =
     (let a = takeWhile (\<lambda>c. c \<noteq> CHR ''e'') s; b = drop (length a + 1) s
      in read_decimal a * 10 powi read_exp b)"

definition read_trace :: "string \<Rightarrow> int \<times> rat \<times> bool" where
  "read_trace line =
     (let a = drop 24 line; i = takeWhile (\<lambda>c. c \<noteq> CHR '' '') a;
          b = drop (length i + 11) a; r = takeWhile (\<lambda>c. c \<noteq> CHR '' '') b;
          d = drop (length r + 9) b
      in (read_int i, read_double r, d = ''true''))"

definition decimals :: "char set" where
  "decimals = set ''0123456789''"

lemma not_decimals: "CHR ''.'' \<notin> decimals" "CHR ''e'' \<notin> decimals" "CHR '' '' \<notin> decimals" and zero_decimal: "CHR ''0'' \<in> decimals"
  by (simp_all add: decimals_def)

lemma take_whole: "c \<notin> set xs \<Longrightarrow> takeWhile (\<lambda>x. x \<noteq> c) xs = xs"
  by (induction xs) auto

lemma read_nat_Nil [simp]: "read_nat [] = 0"
  by (simp add: read_nat_def)

lemma read_nat_from: "foldl (\<lambda>n c. 10 * n + read_digit c) m s = m * 10 ^ length s + read_nat s"
proof (induction s arbitrary: m)
  case (Cons c s)
  show ?case using Cons [of "10 * m + read_digit c"] Cons [of "read_digit c"] by (simp add: read_nat_def algebra_simps)
qed (simp add: read_nat_def)

lemma read_nat_append: "read_nat (s @ t) = read_nat s * 10 ^ length t + read_nat t"
  using read_nat_from [of "read_nat s" t] by (simp add: read_nat_def)

lemma read_nat_zeros [simp]: "read_nat (replicate n CHR ''0'') = 0"
  by (induction n) (simp_all add: read_nat_append [of "[CHR ''0'']", simplified] read_nat_def read_digit_def)

lemma strip_zeros_split: "\<exists>n. b = strip_zeros b @ replicate n CHR ''0''"
proof -
  have "rev (takeWhile (\<lambda>c. c = CHR ''0'') (rev b) @ dropWhile (\<lambda>c. c = CHR ''0'') (rev b)) = b"
    by (simp only: takeWhile_dropWhile_id rev_rev_ident)
  then have "strip_zeros b @ rev (takeWhile (\<lambda>c. c = CHR ''0'') (rev b)) = b" by (simp only: strip_zeros_def rev_append)
  moreover have "takeWhile (\<lambda>c. c = CHR ''0'') xs = replicate (length (takeWhile (\<lambda>c. c = CHR ''0'') xs)) CHR ''0''" for xs :: string
    by (rule replicate_length_same [symmetric]) (auto dest: set_takeWhileD)
  then have "rev (takeWhile (\<lambda>c. c = CHR ''0'') (rev b)) = replicate (length (takeWhile (\<lambda>c. c = CHR ''0'') (rev b))) CHR ''0''"
    by (metis rev_replicate)
  ultimately show ?thesis by metis
qed

lemma read_with_point:
  assumes "set a \<subseteq> decimals" and "set b \<subseteq> decimals"
  shows "read_decimal (with_point a b) = of_nat (read_nat a) + of_nat (read_nat b) / 10 ^ length b"
    and "set (with_point a b) \<subseteq> insert CHR ''.'' decimals"
proof -
  obtain n where n: "b = strip_zeros b @ replicate n CHR ''0''" using strip_zeros_split by blast
  define z where "z = strip_zeros b"
  have b: "b = z @ replicate n CHR ''0''" using n by (simp add: z_def)
  have "read_nat b = read_nat z * 10 ^ n" "length b = length z + n" by (subst b, simp add: read_nat_append)+
  then have v: "of_nat (read_nat b) / 10 ^ length b = (of_nat (read_nat z) / 10 ^ length z :: rat)"
    by (simp add: power_add)
  have dot: "CHR ''.'' \<notin> set a" using assms(1) not_decimals(1) by blast
  have t: "takeWhile (\<lambda>c. c \<noteq> CHR ''.'') a = a" by (rule take_whole [OF dot])
  show "read_decimal (with_point a b) = of_nat (read_nat a) + of_nat (read_nat b) / 10 ^ length b"
    unfolding v by (simp add: read_decimal_def with_point_def Let_def z_def [symmetric] t take_field [OF dot, of z])
  have "set z \<subseteq> set b" by (subst b) simp
  then have "set z \<subseteq> decimals" using assms(2) by (rule order_trans)
  then have "set a \<union> insert CHR ''.'' (set z) \<subseteq> insert CHR ''.'' decimals" using assms(1) by blast
  moreover have "set (with_point a b) \<subseteq> set a \<union> insert CHR ''.'' (set z)" by (auto simp: with_point_def Let_def z_def [symmetric])
  ultimately show "set (with_point a b) \<subseteq> insert CHR ''.'' decimals" by (rule order_trans [rotated])
qed

lemma read_show_exp: "read_exp (tl (show_exp e)) = e" and show_exp_letter: "show_exp e = CHR ''e'' # tl (show_exp e)"
    and show_exp_no_space: "CHR '' '' \<notin> set (show_exp e)"
proof -
  have "read_nat (CHR ''0'' # s) = read_nat s" for s
    using read_nat_append [of "[CHR ''0'']" s] by (simp add: read_nat_def read_digit_def)
  then show "read_exp (tl (show_exp e)) = e" by (simp add: show_exp_def Let_def)
  show "show_exp e = CHR ''e'' # tl (show_exp e)" by (simp add: show_exp_def)
  show "CHR '' '' \<notin> set (show_exp e)" using show_nat_digits [of "nat \<bar>e\<bar>"] by (auto simp: show_exp_def Let_def)
qed

lemma read_double_plain: "CHR ''e'' \<notin> set s \<Longrightarrow> read_double s = read_decimal s"
  by (simp add: read_double_def Let_def take_whole)

text \<open>The printed form denotes the six digits at their exponent.\<close>

lemma read_show_pos:
  assumes "0 < x" and "six_digits x = (m, e)"
  shows "read_double (show_pos x) = of_nat m * 10 powi (e - 5)" and "CHR '' '' \<notin> set (show_pos x)"
proof -
  note m = six_digits_accurate(1,2) [OF assms]
  define ds where "ds = show_nat m"
  have ds: "set ds \<subseteq> decimals" "read_nat ds = m" using show_nat_digits [of m] by (simp_all add: ds_def decimals_def)
  have len: "length ds = 6"
  proof -
    let ?n = "length ds"
    have b: "m < 10 ^ ?n" "10 ^ (?n - 1) \<le> m" using show_nat_length [of m] m(1) by (auto simp: ds_def)
    have "(10::nat) ^ 5 < 10 ^ ?n" "(10::nat) ^ (?n - 1) < 10 ^ 6" using b m by simp_all
    then have "5 < ?n" "?n - 1 < 6" by (simp_all only: power_strict_increasing_iff [of 10] one_less_numeral_iff semiring_norm)
    then show ?thesis by simp
  qed
  have sub: "set (take n ds) \<subseteq> decimals" "set (drop n ds) \<subseteq> decimals" for n
    using ds(1) set_take_subset [of n ds] set_drop_subset [of n ds] by blast+
  have split: "of_nat (read_nat (take n ds)) + of_nat (read_nat (drop n ds)) / 10 ^ (6 - n) = (of_nat m / 10 ^ (6 - n) :: rat)" for n
  proof -
    have "m = read_nat (take n ds) * 10 ^ (6 - n) + read_nat (drop n ds)"
      using read_nat_append [of "take n ds" "drop n ds"] ds(2) len by simp
    then have "(of_nat m :: rat) = of_nat (read_nat (take n ds)) * 10 ^ (6 - n) + of_nat (read_nat (drop n ds))"
      by (metis of_nat_add of_nat_mult of_nat_numeral of_nat_power)
    then show ?thesis by (simp add: field_simps)
  qed
  have goal: "read_double (show_pos x) = of_nat m * 10 powi (e - 5) \<and> CHR '' '' \<notin> set (show_pos x)"
  proof -
    consider (large) "e < - 4 \<or> 6 \<le> e" | (small) "- 4 \<le> e" "e < 0" | (plain) "0 \<le> e" "e < 6" by linarith
    then show ?thesis
    proof cases
      case large
      let ?a = "with_point (take 1 ds) (drop 1 ds)"
      have s: "show_pos x = ?a @ show_exp e" using large assms(2) by (simp add: show_pos_def ds_def [symmetric])
      have ne: "CHR ''e'' \<notin> set ?a" "CHR '' '' \<notin> set ?a" using read_with_point(2) [OF sub [of 1]] not_decimals by auto
      have "show_pos x = ?a @ CHR ''e'' # tl (show_exp e)" using s show_exp_letter by simp
      then have "read_double (show_pos x) = read_decimal ?a * 10 powi e"
        using take_field [OF ne(1)] by (simp add: read_double_def Let_def read_show_exp)
      also have "read_decimal ?a = of_nat m / 10 ^ 5" using read_with_point(1) [OF sub [of 1]] split [of 1] len by simp
      finally show ?thesis using s ne(2) show_exp_no_space by (simp add: power_int_diff)
    next
      case small
      let ?z = "replicate (nat (- 1 - e)) CHR ''0'' @ ds"
      have z: "set ?z \<subseteq> decimals" "set ''0'' \<subseteq> decimals" using ds(1) zero_decimal by auto
      have s: "show_pos x = with_point ''0'' ?z" using small assms(2) by (simp add: show_pos_def ds_def [symmetric])
      have ne: "CHR ''e'' \<notin> set (show_pos x)" "CHR '' '' \<notin> set (show_pos x)"
        unfolding s using read_with_point(2) [OF z(2,1)] not_decimals by auto
      obtain k where k: "5 - e = int k" "length ?z = k" using small len by (intro that [of "nat (5 - e)"]) simp_all
      have "read_nat ''0'' = 0" "read_nat ?z = m" by (simp_all add: read_nat_append ds(2)) (simp add: read_nat_def read_digit_def)
      then have "read_double (show_pos x) = of_nat m / 10 ^ k"
        using read_with_point(1) [OF z(2,1)] k(2) read_double_plain [OF ne(1)] s by simp
      moreover have "e - 5 = - int k" using k(1) by simp
      ultimately show ?thesis using ne(2) by (simp add: power_int_minus divide_inverse)
    next
      case plain
      let ?n = "nat (e + 1)"
      have s: "show_pos x = with_point (take ?n ds) (drop ?n ds)" using plain assms(2) by (simp add: show_pos_def ds_def [symmetric])
      have ne: "CHR ''e'' \<notin> set (show_pos x)" "CHR '' '' \<notin> set (show_pos x)"
        unfolding s using read_with_point(2) [OF sub [of ?n]] not_decimals by auto
      obtain k where k: "5 - e = int k" "6 - ?n = k" using plain by (intro that [of "nat (5 - e)"]) simp_all
      have "read_double (show_pos x) = of_nat m / 10 ^ k"
        using read_with_point(1) [OF sub [of ?n]] split [of ?n] len read_double_plain [OF ne(1)] s k(2) by simp
      moreover have "e - 5 = - int k" using k(1) by simp
      ultimately show ?thesis using ne(2) by (simp add: power_int_minus divide_inverse)
    qed
  qed
  then show "read_double (show_pos x) = of_nat m * 10 powi (e - 5)" and "CHR '' '' \<notin> set (show_pos x)" by simp_all
qed

text \<open>The quotient the code computes is within a part in \<open>10 ^ 9\<close> of the milliseconds.\<close>

lemma quotient_close:
  assumes "0 < rtt" and "is_int64 rtt"
  obtains x where "ddiv (double_of_int rtt) (Fin 1000000) = Fin x" and "0 < x"
    and "\<bar>x - of_int rtt / 1000000\<bar> \<le> of_int rtt / 1000000 / 10 ^ 9"
proof -
  have r: "(1 :: rat) \<le> of_int rtt" "(of_int rtt :: rat) \<le> 2 ^ 63" using assms by (auto simp: is_int64_def)
  define n where "n = rnd (of_int rtt)"
  have d: "double_of_int rtt = Fin n"
    unfolding double_of_int_def n_def by (rule to_double_small) (use r in simp)
  have "\<bar>n - of_int rtt\<bar> \<le> of_int rtt / 2 ^ 53 + 1 / 2 ^ 60" using rnd_abs_error [of "of_int rtt"] r(1) by (simp add: n_def)
  then have n: "n \<le> of_int rtt + of_int rtt / 10 ^ 12" "of_int rtt - of_int rtt / 10 ^ 12 \<le> n" using r(1) unfolding abs_le_iff by simp_all
  define y where "y = n / 1000000"
  have y: "0 < y" "y \<le> 2 ^ 64" using n r unfolding y_def by simp_all
  define x where "x = rnd y"
  have e: "\<bar>x - y\<bar> \<le> y / 2 ^ 53 + 1 / 2 ^ 60" using rnd_abs_error [of y] y(1) by (simp add: x_def)
  have x: "x \<le> of_int rtt / 1000000 + of_int rtt / 1000000 / 10 ^ 9" "of_int rtt / 1000000 - of_int rtt / 1000000 / 10 ^ 9 \<le> x"
    using e n r(1) unfolding abs_le_iff y_def by simp_all
  have "ddiv (double_of_int rtt) (Fin 1000000) = Fin x"
    using d to_double_small [of y] y by (simp add: y_def x_def)
  moreover have "0 < x" using x(2) r(1) by simp
  moreover have "\<bar>x - of_int rtt / 1000000\<bar> \<le> of_int rtt / 1000000 / 10 ^ 9" using x unfolding abs_le_iff by simp
  ultimately show ?thesis by (rule that)
qed

lemma shown_rtt:
  assumes "0 \<le> rtt" and "is_int64 rtt"
  defines "s \<equiv> show_double (ddiv (double_of_int rtt) (Fin 1000000))"
  shows "\<bar>read_double s - of_int rtt / 1000000\<bar> \<le> of_int rtt / 1000000 * (6 / 10 ^ 6)" and "CHR '' '' \<notin> set s"
proof -
  have "\<bar>read_double s - of_int rtt / 1000000\<bar> \<le> of_int rtt / 1000000 * (6 / 10 ^ 6) \<and> CHR '' '' \<notin> set s"
  proof (cases "rtt = 0")
    case True
    then have "s = ''0''" using double_of_int32 [of 0] by (simp add: s_def is_int32_def)
    then show ?thesis using True by (simp add: read_double_def read_decimal_def read_nat_def read_digit_def)
  next
    case False
    then have "0 < rtt" using assms(1) by simp
    then obtain x where x: "ddiv (double_of_int rtt) (Fin 1000000) = Fin x" "0 < x"
        "\<bar>x - of_int rtt / 1000000\<bar> \<le> of_int rtt / 1000000 / 10 ^ 9"
      using quotient_close assms(2) by metis
    obtain m e where m: "six_digits x = (m, e)" by fastforce
    define u where "u = (10 powi (e - 5) :: rat)"
    define v where "v = of_nat m * u"
    have s: "s = show_pos x" using x(1,2) by (simp add: s_def)
    have v: "read_double s = v" "CHR '' '' \<notin> set s" using read_show_pos [OF x(2) m] by (simp_all add: s v_def u_def)
    have a: "100000 \<le> m" "\<bar>v - x\<bar> \<le> u / 2" using six_digits_accurate [OF x(2) m] by (simp_all add: v_def u_def)
    have "0 < u" by (simp add: u_def)
    then have "100000 * u \<le> v" unfolding v_def using a(1) by (intro mult_right_mono) simp_all
    define t where "t = (of_int rtt / 1000000 :: rat)"
    have "\<bar>v - t\<bar> \<le> t * (6 / 10 ^ 6)"
      using a(2) \<open>100000 * u \<le> v\<close> x(3) unfolding t_def [symmetric] abs_le_iff by simp
    then show ?thesis using v by (simp add: t_def)
  qed
  then show "\<bar>read_double s - of_int rtt / 1000000\<bar> \<le> of_int rtt / 1000000 * (6 / 10 ^ 6)" and "CHR '' '' \<notin> set s" by simp_all
qed

lemma read_fields:
  assumes "CHR '' '' \<notin> set a" and "CHR '' '' \<notin> set b"
  shows "read_trace (''limen.trace maxInFlight='' @ a @ '' minRtt_ms='' @ b @ '' didDrop='' @ c) = (read_int a, read_double b, c = ''true'')"
proof -
  have skip: "drop (length p + length q) (p @ q @ r) = r" for p q r :: string by simp
  let ?line = "''limen.trace maxInFlight='' @ a @ '' minRtt_ms='' @ b @ '' didDrop='' @ c"
  have "drop 24 ?line = a @ '' minRtt_ms='' @ b @ '' didDrop='' @ c" by simp
  moreover have "takeWhile (\<lambda>x. x \<noteq> CHR '' '') (a @ '' minRtt_ms='' @ b @ '' didDrop='' @ c) = a" using take_field [OF assms(1)] by simp
  moreover have "drop (length a + 11) (a @ '' minRtt_ms='' @ b @ '' didDrop='' @ c) = b @ '' didDrop='' @ c"
    using skip [of a "'' minRtt_ms=''"] by simp
  moreover have "takeWhile (\<lambda>x. x \<noteq> CHR '' '') (b @ '' didDrop='' @ c) = b" using take_field [OF assms(2)] by simp
  moreover have "drop (length b + 9) (b @ '' didDrop='' @ c) = c" using skip [of b "'' didDrop=''"] by simp
  ultimately show ?thesis unfolding read_trace_def Let_def by simp
qed

text \<open>
  C36. A line can be read back: for every sample with a round-trip time that is not negative and fits 64 bits, a reader of the logged line that takes
  its three fields gets the in-flight count and the drop flag of the sample, and for the round-trip time, printed in
  milliseconds with a point, an exponent and without trailing zeros as the case may be, a number within six
  parts in a million of it.
\<close>

theorem trace_line_reads_back:
  assumes "0 \<le> rtt" and "is_int64 rtt"
  shows "\<exists>v. read_trace (trace_line rtt inflight d) = (inflight, v, d)
    \<and> \<bar>v - of_int rtt / 1000000\<bar> \<le> of_int rtt / 1000000 * (6 / 10 ^ 6)"
proof -
  let ?s = "show_double (ddiv (double_of_int rtt) (Fin 1000000))"
  note f = shown_rtt [OF assms]
  have "trace_line rtt inflight d = ''limen.trace maxInFlight='' @ show_int inflight @ '' minRtt_ms='' @ ?s
      @ '' didDrop='' @ (if d then ''true'' else ''false'')" by (simp add: trace_line_def)
  then have "read_trace (trace_line rtt inflight d) = (inflight, read_double ?s, d)"
    using read_fields [OF show_int_no_space [of inflight] f(2), of "if d then ''true'' else ''false''"] by simp
  then show ?thesis using f(1) by blast
qed

theorem trace_line_reads_back_witness:
  "trace_line 1234562500 42 True = ''limen.trace maxInFlight=42 minRtt_ms=1234.56 didDrop=true''
   \<and> (\<exists>v. read_trace (trace_line 1234562500 42 True) = (42, v, True) \<and> \<bar>v - 1234562500 / 1000000\<bar> \<le> 1234562500 / 1000000 * (6 / 10 ^ 6))"
proof
  have "rnd (19753 / 16) = 19753 / 16"
    using rnd_dyadic_less [of 19753 "- 4"] by (simp add: power_int_minus field_simps)
  then have q: "ddiv (double_of_int 1234562500) (Fin 1000000) = Fin (19753 / 16)"
    using double_of_int32 [of 1234562500] by (simp add: is_int32_def to_double_small)
  have f: "\<lfloor>19753 / 16 :: rat\<rfloor> = 1234" "\<lfloor>493825 / 4 :: rat\<rfloor> = 123456" by (simp_all add: floor_eq_iff)
  have "dec_exp (19753 / 16) = 3" by (simp add: dec_exp_def f show_nat.simps)
  then have "six_digits (19753 / 16) = (123456, 3)" by (simp add: six_digits_def rne_def f)
  moreover have "show_nat 123456 = ''123456''" by (simp add: show_nat.simps digit_def)
  ultimately have "show_double (Fin (19753 / 16)) = ''1234.56''"
    by (simp add: show_pos_def with_point_def strip_zeros_def)
  moreover have "show_int 42 = ''42''" by (simp add: show_int_def show_nat.simps digit_def)
  ultimately show "trace_line 1234562500 42 True = ''limen.trace maxInFlight=42 minRtt_ms=1234.56 didDrop=true''"
    using q by (simp add: trace_line_def)
  show "\<exists>v. read_trace (trace_line 1234562500 42 True) = (42, v, True) \<and> \<bar>v - 1234562500 / 1000000\<bar> \<le> 1234562500 / 1000000 * (6 / 10 ^ 6)"
    using trace_line_reads_back [of 1234562500 42 True] unfolding of_int_numeral is_int64_def by simp
qed

end
