(* ===== verification/Limiter_Core.thy ===== *)
theory Limiter_Core
  imports Limit_Base "HOL-Library.Multiset"
begin

section \<open>Limiters: slot guards and the bookkeeping of AbstractLimiter\<close>

text \<open>
  The interface \<^verbatim>\<open>Limiter\<close> with its RAII guard \<^verbatim>\<open>SlotGuard\<close> (\<^verbatim>\<open>limiter.h\<close>) and the base class
  \<^verbatim>\<open>AbstractLimiter\<close> (\<^verbatim>\<open>abstract_limiter.h\<close>, \<^verbatim>\<open>abstract_limiter.cc\<close>): bypass, the outcome
  counters, the in-flight counter, the sample fed to the wrapped limit on completion, and the
  rows its observable instruments emit. The virtual \<^verbatim>\<open>DoAcquire\<close> and \<^verbatim>\<open>OnReleasePartition\<close> are
  parameters of the operations that call them. A reading of \<^verbatim>\<open>NowNs\<close> is an argument \<open>now\<close>.

  A guard belongs to one limiter; whether its \<^verbatim>\<open>limiter_\<close> pointer is null is a boolean. The
  registration of the instruments with OpenTelemetry is not modelled.
\<close>

subsection \<open>Guards and the interface\<close>

datatype completion_status = kSuccess | kIgnored | kDropped

record slot_guard =
  sg_limiter :: bool
  sg_start_time_ns :: int
  sg_inflight_at_acquire :: int
  sg_partition_index :: int
  sg_bypassed :: bool
  sg_completed :: bool

record ('s, 'cb) limiter_ops =
  DoTryAcquire :: "int \<Rightarrow> string \<Rightarrow> 's \<Rightarrow> (slot_guard option \<times> 's) res"
  OnSlotComplete ::
    "completion_status \<Rightarrow> int \<Rightarrow> int \<Rightarrow> bool \<Rightarrow> int \<Rightarrow> int \<Rightarrow> 's \<Rightarrow> ('s \<times> ('cb \<times> int) list) res"

definition MakeSlot :: "int \<Rightarrow> int \<Rightarrow> bool \<Rightarrow> int \<Rightarrow> slot_guard" where
  "MakeSlot start_time_ns inflight_at_acquire bypassed partition_index =
     \<lparr>sg_limiter = True, sg_start_time_ns = start_time_ns,
      sg_inflight_at_acquire = inflight_at_acquire, sg_partition_index = partition_index,
      sg_bypassed = bypassed, sg_completed = False\<rparr>"

definition TryAcquire :: "('s, 'cb) limiter_ops \<Rightarrow> int \<Rightarrow> string \<Rightarrow> 's \<Rightarrow> (slot_guard option \<times> 's) res" where
  "TryAcquire ops now context s = DoTryAcquire ops now context s"

definition TryAcquire_default :: "('s, 'cb) limiter_ops \<Rightarrow> int \<Rightarrow> 's \<Rightarrow> (slot_guard option \<times> 's) res" where
  "TryAcquire_default ops now s = DoTryAcquire ops now [] s"

definition SlotGuard_notify ::
  "('s, 'cb) limiter_ops \<Rightarrow> completion_status \<Rightarrow> int \<Rightarrow> slot_guard \<Rightarrow> 's \<Rightarrow> ('s \<times> ('cb \<times> int) list) res" where
  "SlotGuard_notify ops st now g s =
     OnSlotComplete ops st (sg_start_time_ns g) (sg_inflight_at_acquire g) (sg_bypassed g)
       (sg_partition_index g) now s"

definition SlotGuard_Complete ::
  "('s, 'cb) limiter_ops \<Rightarrow> completion_status \<Rightarrow> int \<Rightarrow> slot_guard \<Rightarrow> 's \<Rightarrow>
   (slot_guard \<times> 's \<times> ('cb \<times> int) list) res" where
  "SlotGuard_Complete ops st now g s =
     (if \<not> sg_limiter g \<or> sg_completed g then Inr (g, s, [])
      else bind_res (SlotGuard_notify ops st now g s) (\<lambda>(s', cs).
        Inr (g\<lparr>sg_completed := True\<rparr>, s', cs)))"

definition SlotGuard_OnSuccess where "SlotGuard_OnSuccess ops = SlotGuard_Complete ops kSuccess"
definition SlotGuard_OnIgnore where "SlotGuard_OnIgnore ops = SlotGuard_Complete ops kIgnored"
definition SlotGuard_OnDropped where "SlotGuard_OnDropped ops = SlotGuard_Complete ops kDropped"

definition SlotGuard_destroy ::
  "('s, 'cb) limiter_ops \<Rightarrow> int \<Rightarrow> slot_guard \<Rightarrow> 's \<Rightarrow> ('s \<times> ('cb \<times> int) list) res" where
  "SlotGuard_destroy ops now g s =
     (if sg_limiter g \<and> \<not> sg_completed g then SlotGuard_notify ops kIgnored now g s else Inr (s, []))"

text \<open>The move constructor returns the new guard and what is left of the old one.\<close>

definition SlotGuard_move :: "slot_guard \<Rightarrow> slot_guard \<times> slot_guard" where
  "SlotGuard_move other = (other, other\<lparr>sg_limiter := False\<rparr>)"

text \<open>Move assignment between two different objects: the new \<^verbatim>\<open>*this\<close> and the new \<^verbatim>\<open>other\<close>.\<close>

definition SlotGuard_move_assign ::
  "('s, 'cb) limiter_ops \<Rightarrow> int \<Rightarrow> slot_guard \<Rightarrow> slot_guard \<Rightarrow> 's \<Rightarrow>
   (slot_guard \<times> slot_guard \<times> 's \<times> ('cb \<times> int) list) res" where
  "SlotGuard_move_assign ops now g other s =
     bind_res (if sg_limiter g \<and> \<not> sg_completed g then SlotGuard_notify ops kIgnored now g s else Inr (s, []))
       (\<lambda>(s', cs). Inr (other, other\<lparr>sg_limiter := False\<rparr>, s', cs))"

subsection \<open>AbstractLimiter\<close>

datatype call_status = Status_kSuccess | Status_kRejected | Status_kDropped | Status_kIgnored | Status_kBypassed

primrec status_index :: "call_status \<Rightarrow> nat" where
  "status_index Status_kSuccess = 0"
| "status_index Status_kRejected = 1"
| "status_index Status_kDropped = 2"
| "status_index Status_kIgnored = 3"
| "status_index Status_kBypassed = 4"

definition kStatusLabels :: "string list" where
  "kStatusLabels = [''success'', ''rejected'', ''dropped'', ''ignored'', ''bypassed'']"

primrec ToOutcomeStatus :: "completion_status \<Rightarrow> call_status" where
  "ToOutcomeStatus kSuccess = Status_kSuccess"
| "ToOutcomeStatus kIgnored = Status_kIgnored"
| "ToOutcomeStatus kDropped = Status_kDropped"

record 'l abstract_limiter =
  al_inflight :: int
  al_limit :: 'l
  al_id :: string
  al_bypass_predicate :: "(string \<Rightarrow> bool) option"
  al_meter_provider :: bool
  al_outcome_counts :: "int list"

record acquire_result =
  ar_inflight_post :: int
  ar_partition_index :: int

definition AbstractLimiter_new :: "'l \<Rightarrow> string \<Rightarrow> (string \<Rightarrow> bool) option \<Rightarrow> bool \<Rightarrow> 'l abstract_limiter" where
  "AbstractLimiter_new limit i bypass_predicate meter_provider =
     \<lparr>al_inflight = 0, al_limit = limit, al_id = i, al_bypass_predicate = bypass_predicate,
      al_meter_provider = meter_provider, al_outcome_counts = replicate 5 0\<rparr>"

definition Limiter_GetLimit :: "('l, 'cb) limit_ops \<Rightarrow> ('l, 'z) abstract_limiter_scheme \<Rightarrow> int" where
  "Limiter_GetLimit lops s = GetLimit lops (al_limit s)"

definition GetId :: "('l, 'z) abstract_limiter_scheme \<Rightarrow> string" where
  [simp]: "GetId s = al_id s"

definition GetMeterProvider :: "('l, 'z) abstract_limiter_scheme \<Rightarrow> bool" where
  [simp]: "GetMeterProvider s = al_meter_provider s"

definition InflightCount :: "('l, 'z) abstract_limiter_scheme \<Rightarrow> int" where
  "InflightCount s = al_inflight s"

definition OutcomeCount :: "call_status \<Rightarrow> ('l, 'z) abstract_limiter_scheme \<Rightarrow> int" where
  "OutcomeCount st s = al_outcome_counts s ! status_index st"

definition count_outcome ::
  "call_status \<Rightarrow> ('l, 'z) abstract_limiter_scheme \<Rightarrow> ('l, 'z) abstract_limiter_scheme" where
  "count_outcome st s =
     s\<lparr>al_outcome_counts := (al_outcome_counts s)[status_index st := wrap64 (al_outcome_counts s ! status_index st + 1)]\<rparr>"

type_synonym ('l, 'z) gate =
  "string \<Rightarrow> ('l, 'z) abstract_limiter_scheme \<Rightarrow> (acquire_result option \<times> ('l, 'z) abstract_limiter_scheme) res"

definition AbstractLimiter_DoTryAcquire ::
  "('l, 'z) gate \<Rightarrow> int \<Rightarrow> string \<Rightarrow> ('l, 'z) abstract_limiter_scheme \<Rightarrow>
   (slot_guard option \<times> ('l, 'z) abstract_limiter_scheme) res" where
  "AbstractLimiter_DoTryAcquire DoAcquire now context s =
     (if (case al_bypass_predicate s of None \<Rightarrow> False | Some bypass_predicate \<Rightarrow> bypass_predicate context)
      then Inr (Some (MakeSlot 0 0 True (- 1)), count_outcome Status_kBypassed s)
      else
        bind_res (DoAcquire context s) (\<lambda>(result, s).
          case result of
            None \<Rightarrow> Inr (None, count_outcome Status_kRejected s)
          | Some r \<Rightarrow> Inr (Some (MakeSlot now (ar_inflight_post r) False (ar_partition_index r)), s)))"

definition AbstractLimiter_DoAcquire :: "('l, 'z) gate" where
  "AbstractLimiter_DoAcquire context s =
     bind_res (chk32 (al_inflight s + 1)) (\<lambda>post.
       Inr (Some \<lparr>ar_inflight_post = post, ar_partition_index = - 1\<rparr>, s\<lparr>al_inflight := wrap32 (al_inflight s + 1)\<rparr>))"

definition AbstractLimiter_OnReleasePartition ::
  "int \<Rightarrow> ('l, 'z) abstract_limiter_scheme \<Rightarrow> ('l, 'z) abstract_limiter_scheme res" where
  "AbstractLimiter_OnReleasePartition partition_index s = Inr s"

definition AbstractLimiter_OnSlotComplete ::
  "('l, 'cb) limit_ops \<Rightarrow>
   (int \<Rightarrow> ('l, 'z) abstract_limiter_scheme \<Rightarrow> ('l, 'z) abstract_limiter_scheme res) \<Rightarrow>
   completion_status \<Rightarrow> int \<Rightarrow> int \<Rightarrow> bool \<Rightarrow> int \<Rightarrow> int \<Rightarrow> ('l, 'z) abstract_limiter_scheme \<Rightarrow>
   (('l, 'z) abstract_limiter_scheme \<times> ('cb \<times> int) list) res" where
  "AbstractLimiter_OnSlotComplete lops OnReleasePartition st start_time_ns inflight_at_acquire bypassed
       partition_index now s =
     (if bypassed then Inr (s, [])
      else
        let s = s\<lparr>al_inflight := wrap32 (al_inflight s - 1)\<rparr> in
        bind_res (OnReleasePartition partition_index s) (\<lambda>s.
        let outcome = ToOutcomeStatus st; s = count_outcome outcome s in
        if outcome = Status_kSuccess \<or> outcome = Status_kDropped then
          bind_res (chk64 (now - start_time_ns)) (\<lambda>rtt_ns.
          bind_res (OnSample lops start_time_ns rtt_ns inflight_at_acquire (outcome = Status_kDropped) (al_limit s))
            (\<lambda>(l, cs). Inr (s\<lparr>al_limit := l\<rparr>, cs)))
        else Inr (s, [])))"

definition RegisterLimitChangeCallback ::
  "('l, 'cb) limit_ops \<Rightarrow> 'cb \<Rightarrow> ('l, 'z) abstract_limiter_scheme \<Rightarrow> ('l, 'z) abstract_limiter_scheme" where
  "RegisterLimitChangeCallback lops callback s = s\<lparr>al_limit := NotifyOnChange lops callback (al_limit s)\<rparr>"

definition AbstractLimiter_ops ::
  "('l, 'cb) limit_ops \<Rightarrow> ('l, 'z) gate \<Rightarrow>
   (int \<Rightarrow> ('l, 'z) abstract_limiter_scheme \<Rightarrow> ('l, 'z) abstract_limiter_scheme res) \<Rightarrow>
   (('l, 'z) abstract_limiter_scheme, 'cb) limiter_ops" where
  "AbstractLimiter_ops lops DoAcquire OnReleasePartition =
     \<lparr>DoTryAcquire = AbstractLimiter_DoTryAcquire DoAcquire,
      OnSlotComplete = AbstractLimiter_OnSlotComplete lops OnReleasePartition\<rparr>"

text \<open>Observations: a value with its attributes.\<close>

type_synonym observation = "int \<times> (string \<times> string) list"

definition ObserveLimit :: "('l, 'cb) limit_ops \<Rightarrow> ('l, 'z) abstract_limiter_scheme \<Rightarrow> observation list" where
  "ObserveLimit lops s = [(GetLimit lops (al_limit s), [(''id'', al_id s)])]"

definition OnObserveInflight :: "('l, 'z) abstract_limiter_scheme \<Rightarrow> observation list" where
  "OnObserveInflight s = [(al_inflight s, [(''id'', al_id s)])]"

definition ObserveCall :: "('l, 'z) abstract_limiter_scheme \<Rightarrow> observation list" where
  "ObserveCall s =
     map (\<lambda>i. (al_outcome_counts s ! i, [(''id'', al_id s), (''status'', kStatusLabels ! i)])) [0 ..< 5]"

subsection \<open>A program that uses guards\<close>

text \<open>
  The limiter together with every guard the program holds; \<open>w_calls\<close> counts the calls of
  \<^verbatim>\<open>TryAcquire\<close>. A guard that was moved from, or destroyed, stays in the list with a null
  pointer.
\<close>

record 's world =
  w_limiter :: 's
  w_guards :: "slot_guard list"
  w_calls :: nat

inductive world_step :: "('s, 'cb) limiter_ops \<Rightarrow> 's world \<Rightarrow> 's world \<Rightarrow> bool" for ops where
  acquired: "DoTryAcquire ops now context (w_limiter w) = Inr (Some g, s') \<Longrightarrow>
    world_step ops w (w\<lparr>w_limiter := s', w_guards := w_guards w @ [g], w_calls := Suc (w_calls w)\<rparr>)"
| rejected: "DoTryAcquire ops now context (w_limiter w) = Inr (None, s') \<Longrightarrow>
    world_step ops w (w\<lparr>w_limiter := s', w_calls := Suc (w_calls w)\<rparr>)"
| completed: "i < length (w_guards w) \<Longrightarrow>
    SlotGuard_Complete ops st now (w_guards w ! i) (w_limiter w) = Inr (g, s', cs) \<Longrightarrow>
    world_step ops w (w\<lparr>w_limiter := s', w_guards := (w_guards w)[i := g]\<rparr>)"
| destroyed: "i < length (w_guards w) \<Longrightarrow>
    SlotGuard_destroy ops now (w_guards w ! i) (w_limiter w) = Inr (s', cs) \<Longrightarrow>
    world_step ops w (w\<lparr>w_limiter := s', w_guards := (w_guards w)[i := (w_guards w ! i)\<lparr>sg_limiter := False\<rparr>]\<rparr>)"
| moved: "i < length (w_guards w) \<Longrightarrow> SlotGuard_move (w_guards w ! i) = (g, g') \<Longrightarrow>
    world_step ops w (w\<lparr>w_guards := (w_guards w)[i := g'] @ [g]\<rparr>)"
| assigned: "i < length (w_guards w) \<Longrightarrow> j < length (w_guards w) \<Longrightarrow> i \<noteq> j \<Longrightarrow>
    SlotGuard_move_assign ops now (w_guards w ! i) (w_guards w ! j) (w_limiter w) = Inr (g, g', s', cs) \<Longrightarrow>
    world_step ops w (w\<lparr>w_limiter := s', w_guards := (w_guards w)[i := g, j := g']\<rparr>)"

inductive_cases world_step_E: "world_step ops w w'"

definition world_reach :: "('s, 'cb) limiter_ops \<Rightarrow> 's \<Rightarrow> 's world \<Rightarrow> bool" where
  "world_reach ops s0 w \<longleftrightarrow>
     (world_step ops)\<^sup>*\<^sup>* \<lparr>w_limiter = s0, w_guards = [], w_calls = 0\<rparr> w"

text \<open>A guard whose completion the limiter still waits for.\<close>

definition live :: "slot_guard \<Rightarrow> bool" where
  "live g \<longleftrightarrow> sg_limiter g \<and> \<not> sg_completed g \<and> \<not> sg_bypassed g"

definition live_count :: "slot_guard list \<Rightarrow> int" where
  "live_count gs = int (length (filter live gs))"

subsection \<open>Invariants of a program that uses guards\<close>

definition live_guards :: "slot_guard list \<Rightarrow> slot_guard multiset" where
  "live_guards gs = filter_mset live (mset gs)"

lemma live_count_size: "live_count gs = int (size (live_guards gs))"
  by (simp add: live_count_def live_guards_def flip: mset_filter)

lemma live_guards_Nil [simp]: "live_guards [] = {#}"
  by (simp add: live_guards_def)

lemma live_guards_snoc [simp]: "live_guards (gs @ [g]) = (if live g then add_mset g (live_guards gs) else live_guards gs)"
  by (simp add: live_guards_def)

lemma live_guards_update [simp]:
  assumes "i < length gs"
  shows "live_guards (gs[i := g]) =
    (if live g then {#g#} else {#}) + (live_guards gs - (if live (gs ! i) then {#gs ! i#} else {#}))"
  using assms by (simp add: live_guards_def mset_update)

lemma live_guards_mem: "i < length gs \<Longrightarrow> live (gs ! i) \<Longrightarrow> gs ! i \<in># live_guards gs"
  by (simp add: live_guards_def)

text \<open>
  A condition on the number of calls, the limiter and the multiset of live guards is kept by
  everything a program can do with guards, if it is kept by an admission request and by the
  completion of one live guard.
\<close>

locale guard_invariant =
  fixes ops :: "('s, 'cb) limiter_ops" and J :: "nat \<Rightarrow> 's \<Rightarrow> slot_guard multiset \<Rightarrow> bool"
  assumes admitted: "J n s M \<Longrightarrow> DoTryAcquire ops now ctx s = Inr (Some g, s') \<Longrightarrow>
      J (Suc n) s' (if live g then add_mset g M else M)"
    and turned_away: "J n s M \<Longrightarrow> DoTryAcquire ops now ctx s = Inr (None, s') \<Longrightarrow> J (Suc n) s' M"
    and finished: "J n s (add_mset g M) \<Longrightarrow> live g \<Longrightarrow> SlotGuard_notify ops st now g s = Inr (s', cs) \<Longrightarrow> J n s' M"
    and bypass_finished: "J n s M \<Longrightarrow> sg_bypassed g \<Longrightarrow> SlotGuard_notify ops st now g s = Inr (s', cs) \<Longrightarrow> J n s' M"
begin

lemma drop_guard:
  assumes "J n s (live_guards gs)" and "i < length gs" and "g = gs ! i"
    and "(if sg_limiter g \<and> \<not> sg_completed g then SlotGuard_notify ops st now g s else Inr (s, [])) = Inr (s', cs)"
  shows "J n s' (live_guards gs - (if live g then {#g#} else {#}))"
proof (cases "live g")
  case True
  then have "J n s (add_mset g (live_guards gs - {#g#}))"
    using assms(1-3) live_guards_mem by simp
  moreover have "SlotGuard_notify ops st now g s = Inr (s', cs)" using assms(4) True by (simp add: live_def)
  ultimately show ?thesis using finished True by simp
next
  case False
  then show ?thesis
    using assms(1,4) bypass_finished [OF assms(1)] by (auto simp: live_def split: if_splits)
qed

text \<open>The same for guards that are held in any other structure.\<close>

lemma drop_one:
  assumes "J n s (filter_mset live (add_mset g M))"
    and "(if sg_limiter g \<and> \<not> sg_completed g then SlotGuard_notify ops st now g s else Inr (s, [])) = Inr (s', cs)"
  shows "J n s' (filter_mset live M)"
proof (cases "live g")
  case True
  then have "SlotGuard_notify ops st now g s = Inr (s', cs)" using assms(2) by (simp add: live_def)
  then show ?thesis using finished True assms(1) by simp
next
  case False
  then have "J n s (filter_mset live M)" using assms(1) by simp
  then show ?thesis using assms(2) False bypass_finished by (auto simp: live_def split: if_splits)
qed

lemma Complete_drops:
  assumes "SlotGuard_Complete ops st now g s = Inr (g', s', cs)"
  shows "(if sg_limiter g \<and> \<not> sg_completed g then SlotGuard_notify ops st now g s else Inr (s, [])) = Inr (s', cs)
    \<and> \<not> live g'"
  using assms by (auto simp: SlotGuard_Complete_def bind_res_Inr live_def split: if_splits)

lemma step_invariant:
  assumes "world_step ops w w'" and "J (w_calls w) (w_limiter w) (live_guards (w_guards w))"
  shows "J (w_calls w') (w_limiter w') (live_guards (w_guards w'))"
  using assms(1)
proof cases
  case (acquired now ctx g s')
  then show ?thesis using admitted [OF assms(2)] by fastforce
next
  case (rejected now ctx s')
  then show ?thesis using turned_away [OF assms(2)] by fastforce
next
  case (completed i st now g s' cs)
  note d = Complete_drops [OF completed(3)]
  show ?thesis using drop_guard [OF assms(2) completed(2) refl conjunct1 [OF d]] d completed(1,2) by simp
next
  case (destroyed i now s' cs)
  have "\<not> live ((w_guards w ! i)\<lparr>sg_limiter := False\<rparr>)" by (simp add: live_def)
  then show ?thesis
    using drop_guard [OF assms(2) destroyed(2) refl destroyed(3) [unfolded SlotGuard_destroy_def]] destroyed(1,2) by simp
next
  case (moved i g g')
  then have g: "g = w_guards w ! i" "\<not> live g'" by (auto simp: SlotGuard_move_def live_def)
  then show ?thesis using assms(2) moved(1,2) live_guards_mem by simp
next
  case (assigned i j now g g' s' cs)
  then obtain d: "(if sg_limiter (w_guards w ! i) \<and> \<not> sg_completed (w_guards w ! i)
      then SlotGuard_notify ops kIgnored now (w_guards w ! i) (w_limiter w) else Inr (w_limiter w, [])) = Inr (s', cs)"
    and g: "g = w_guards w ! j" "g' = (w_guards w ! j)\<lparr>sg_limiter := False\<rparr>"
    unfolding SlotGuard_move_assign_def bind_res_Inr by fastforce
  have "\<not> live g'" using g(2) by (simp add: live_def)
  then show ?thesis using drop_guard [OF assms(2) assigned(2) refl d] assigned(1-4) g(1) by simp
qed

lemma reach_invariant:
  assumes "world_reach ops s0 w" and "J 0 s0 {#}"
  shows "J (w_calls w) (w_limiter w) (live_guards (w_guards w))"
  using assms(1) unfolding world_reach_def
  by (induction rule: rtranclp_induct) (use assms(2) step_invariant in \<open>auto\<close>)

end

subsection \<open>Counting outcomes\<close>

lemma wrap32_cong: "4294967296 dvd wrap32 x - x"
proof -
  have "wrap32 x - x = - (4294967296 * ((x + 2147483648) div 4294967296))"
    using minus_mult_div_eq_mod [of "x + 2147483648" 4294967296] unfolding wrap32_def by linarith
  then show ?thesis by simp
qed

lemma wrap64_cong: "18446744073709551616 dvd wrap64 x - x"
proof -
  have "wrap64 x - x = - (18446744073709551616 * ((x + 9223372036854775808) div 18446744073709551616))"
    using minus_mult_div_eq_mod [of "x + 9223372036854775808" 18446744073709551616] unfolding wrap64_def by linarith
  then show ?thesis by simp
qed

text \<open>
  The books of a limiter balance against \<open>n\<close> admission requests of which \<open>k\<close> are in progress:
  modulo the width of the counters, the in-flight counter is \<open>k\<close> and the outcome counters
  together account for the other requests.
\<close>

definition balanced :: "int \<Rightarrow> int \<Rightarrow> ('l, 'z) abstract_limiter_scheme \<Rightarrow> bool" where
  "balanced n k s \<longleftrightarrow> length (al_outcome_counts s) = 5 \<and> is_int32 (al_inflight s)
     \<and> 4294967296 dvd al_inflight s - k
     \<and> 18446744073709551616 dvd sum_list (al_outcome_counts s) + k - n"

lemma balanced_inflight:
  assumes "balanced n k s" and "is_int32 k"
  shows "al_inflight s = k"
proof -
  obtain m where m: "al_inflight s - k = 4294967296 * m" using assms(1) by (auto simp: balanced_def)
  have "\<bar>al_inflight s - k\<bar> < 4294967296" using assms by (auto simp: balanced_def is_int32_def)
  then have "m = 0" using m by linarith
  then show ?thesis using m by simp
qed

lemma balanced_count:
  assumes "balanced n k s" and "status_index st < 5"
  shows "balanced (n + 1) k (count_outcome st s)"
proof -
  let ?x = "al_outcome_counts s ! status_index st"
  have "18446744073709551616 dvd (sum_list (al_outcome_counts s) + k - n) + (wrap64 (?x + 1) - (?x + 1))"
    using assms(1) wrap64_cong [of "?x + 1"] by (intro dvd_add) (auto simp: balanced_def)
  then show ?thesis
    using assms by (simp add: balanced_def count_outcome_def sum_list_update_int algebra_simps)
qed

lemma status_index_less [simp]: "status_index st < 5"
  by (cases st) simp_all

lemma balanced_inflight_step:
  assumes "balanced n k s" and "al_inflight s' = wrap32 (al_inflight s + d)"
    and "al_outcome_counts s' = al_outcome_counts s"
  shows "balanced (n + d) (k + d) s'"
proof -
  have "4294967296 dvd (wrap32 (al_inflight s + d) - (al_inflight s + d)) + (al_inflight s - k)"
    using assms(1) wrap32_cong [of "al_inflight s + d"] by (intro dvd_add) (auto simp: balanced_def)
  then show ?thesis using assms by (simp add: balanced_def algebra_simps)
qed

subsection \<open>The contract between AbstractLimiter and its subclasses\<close>

text \<open>
  What the header asks of an override: \<open>DoAcquire\<close> leaves the in-flight counter incremented by
  exactly one on admission and untouched on rejection, and neither it nor
  \<open>OnReleasePartition\<close> touches the rest of the base class.
\<close>

locale admission_gate =
  fixes lops :: "('l, 'cb) limit_ops" and gate :: "('l, 'z) gate"
    and release :: "int \<Rightarrow> ('l, 'z) abstract_limiter_scheme \<Rightarrow> ('l, 'z) abstract_limiter_scheme res"
  assumes gate_admits: "gate context s = Inr (Some r, s') \<Longrightarrow>
      al_inflight s' = wrap32 (al_inflight s + 1) \<and> ar_inflight_post r = al_inflight s + 1"
    and gate_rejects: "gate context s = Inr (None, s') \<Longrightarrow> al_inflight s' = al_inflight s"
    and gate_counts: "gate context s = Inr (res, s') \<Longrightarrow> al_outcome_counts s' = al_outcome_counts s"
    and release_inflight: "release i s = Inr s' \<Longrightarrow> al_inflight s' = al_inflight s"
    and release_counts: "release i s = Inr s' \<Longrightarrow> al_outcome_counts s' = al_outcome_counts s"
begin

lemma try_balanced:
  assumes "balanced n k s" and "AbstractLimiter_DoTryAcquire gate now context s = Inr (res, s')"
  shows "balanced (n + 1) (k + (case res of None \<Rightarrow> 0 | Some g \<Rightarrow> of_bool (live g))) s'"
proof (cases "case al_bypass_predicate s of None \<Rightarrow> False | Some p \<Rightarrow> p context")
  case True
  then show ?thesis
    using assms balanced_count [OF assms(1), of Status_kBypassed]
    by (auto simp: AbstractLimiter_DoTryAcquire_def MakeSlot_def live_def)
next
  case False
  then obtain result s1 where g: "gate context s = Inr (result, s1)"
    and res: "(case result of None \<Rightarrow> Inr (None, count_outcome Status_kRejected s1)
      | Some r \<Rightarrow> Inr (Some (MakeSlot now (ar_inflight_post r) False (ar_partition_index r)), s1)) = (Inr (res, s') :: _ res)"
    using assms(2) by (auto simp: AbstractLimiter_DoTryAcquire_def bind_res_Inr split: prod.splits)
  show ?thesis
  proof (cases result)
    case None
    then have "balanced n k s1"
      using assms(1) gate_rejects gate_counts g by (simp add: balanced_def)
    then show ?thesis using res None balanced_count [of n k s1 Status_kRejected] by auto
  next
    case (Some r)
    then have "balanced (n + 1) (k + 1) s1"
      using balanced_inflight_step [OF assms(1)] gate_admits gate_counts g by blast
    then show ?thesis using res Some by (auto simp: MakeSlot_def live_def)
  qed
qed

lemma complete_balanced:
  assumes "balanced n k s"
    and "AbstractLimiter_OnSlotComplete lops release st t i False p now s = Inr (s', cs)"
  shows "balanced n (k - 1) s'"
proof -
  let ?s = "s\<lparr>al_inflight := wrap32 (al_inflight s - 1)\<rparr>"
  obtain s1 where r: "release p ?s = Inr s1"
    and s': "al_inflight s' = al_inflight s1"
      "al_outcome_counts s' = al_outcome_counts (count_outcome (ToOutcomeStatus st) s1)"
    using assms(2)
    by (auto simp: AbstractLimiter_OnSlotComplete_def Let_def bind_res_Inr count_outcome_def split: if_splits)
  have "balanced (n - 1) (k - 1) s1"
    using balanced_inflight_step [OF assms(1), of s1 "- 1"] release_inflight [OF r] release_counts [OF r] by simp
  then have "balanced n (k - 1) (count_outcome (ToOutcomeStatus st) s1)"
    using balanced_count [of "n - 1" "k - 1" s1 "ToOutcomeStatus st"] by simp
  then show ?thesis using s' by (simp add: balanced_def count_outcome_def)
qed

end

sublocale admission_gate \<subseteq> books: guard_invariant "AbstractLimiter_ops lops gate release"
  "\<lambda>n s M. balanced (int n) (int (size M)) s"
proof unfold_locales
  fix n :: nat and s s' :: "('l, 'z) abstract_limiter_scheme" and M :: "slot_guard multiset"
    and now ctx and g :: slot_guard and st cs
  assume b: "balanced (int n) (int (size M)) s"
  show "balanced (int (Suc n)) (int (size (if live g then add_mset g M else M))) s'"
    if "DoTryAcquire (AbstractLimiter_ops lops gate release) now ctx s = Inr (Some g, s')"
    using try_balanced [OF b, of now ctx "Some g" s'] that by (auto simp: AbstractLimiter_ops_def algebra_simps)
  show "balanced (int (Suc n)) (int (size M)) s'"
    if "DoTryAcquire (AbstractLimiter_ops lops gate release) now ctx s = Inr (None, s')"
    using try_balanced [OF b, of now ctx None s'] that by (simp add: AbstractLimiter_ops_def algebra_simps)
  show "balanced (int n) (int (size M)) s'"
    if "sg_bypassed g" "SlotGuard_notify (AbstractLimiter_ops lops gate release) st now g s = Inr (s', cs)"
    using b that by (simp add: SlotGuard_notify_def AbstractLimiter_ops_def AbstractLimiter_OnSlotComplete_def)
next
  fix n :: nat and s s' :: "('l, 'z) abstract_limiter_scheme" and M :: "slot_guard multiset"
    and g st now cs
  assume "balanced (int n) (int (size (add_mset g M))) s" and "live g"
    and "SlotGuard_notify (AbstractLimiter_ops lops gate release) st now g s = Inr (s', cs)"
  then show "balanced (int n) (int (size M)) s'"
    using complete_balanced [of "int n" "int (size (add_mset g M))" s]
    by (simp add: SlotGuard_notify_def AbstractLimiter_ops_def live_def)
qed

interpretation base: admission_gate lops AbstractLimiter_DoAcquire AbstractLimiter_OnReleasePartition for lops
  by unfold_locales
     (auto simp: AbstractLimiter_DoAcquire_def AbstractLimiter_OnReleasePartition_def bind_res_Inr)

lemma balanced_new: "balanced 0 0 (AbstractLimiter_new l i bp mp)"
  by (simp add: balanced_def AbstractLimiter_new_def is_int32_def sum_list_replicate)

end
