(* ===== verification/Simple_Limiter.thy ===== *)
theory Simple_Limiter
  imports Limiter_Core
begin

section \<open>SimpleLimiter: the compare-and-swap gate\<close>

text \<open>
  \<^verbatim>\<open>SimpleLimiter\<close> (\<^verbatim>\<open>simple_limiter.h\<close>, \<^verbatim>\<open>simple_limiter.cc\<close>) overrides \<^verbatim>\<open>DoAcquire\<close> with a
  compare-and-swap loop. Two models of the loop: \<open>Simple_DoAcquire\<close> runs it alone, with any
  finite sequence of spurious failures of \<^verbatim>\<open>compare_exchange_weak\<close>; \<open>cas_step\<close> interleaves the
  atomic actions of any number of threads that acquire and release, while the cap changes.
\<close>

subsection \<open>Builder\<close>

record 'l simple_builder =
  sb_limit :: "'l option"
  sb_id :: string
  sb_bypass_predicate :: "(string \<Rightarrow> bool) option"
  sb_meter_provider :: bool

definition Simple_Builder :: "'l simple_builder" where
  "Simple_Builder = \<lparr>sb_limit = None, sb_id = [], sb_bypass_predicate = None, sb_meter_provider = False\<rparr>"

definition Simple_Limit :: "'l option \<Rightarrow> 'l simple_builder \<Rightarrow> 'l simple_builder" where
  "Simple_Limit limit b = b\<lparr>sb_limit := limit\<rparr>"

definition Simple_Id :: "string \<Rightarrow> 'l simple_builder \<Rightarrow> 'l simple_builder" where
  "Simple_Id i b = b\<lparr>sb_id := i\<rparr>"

definition Simple_BypassPredicate :: "(string \<Rightarrow> bool) option \<Rightarrow> 'l simple_builder \<Rightarrow> 'l simple_builder" where
  "Simple_BypassPredicate p b = b\<lparr>sb_bypass_predicate := p\<rparr>"

definition Simple_MeterProvider :: "bool \<Rightarrow> 'l simple_builder \<Rightarrow> 'l simple_builder" where
  "Simple_MeterProvider provider b = b\<lparr>sb_meter_provider := provider\<rparr>"

definition Simple_Build :: "'l simple_builder \<Rightarrow> status + 'l abstract_limiter" where
  "Simple_Build b =
     (case sb_limit b of
        None \<Rightarrow> Inl (InvalidArgument ''SimpleLimiter::Builder::Limit() is required'')
      | Some limit \<Rightarrow> Inr (AbstractLimiter_new limit (sb_id b) (sb_bypass_predicate b) (sb_meter_provider b)))"

subsection \<open>The loop alone\<close>

text \<open>\<open>fails\<close>: for each iteration, whether the exchange fails although the value matches; after
  the list, none does.\<close>

function Simple_loop ::
  "('l, 'cb) limit_ops \<Rightarrow> bool list \<Rightarrow> int \<Rightarrow> ('l, 'z) abstract_limiter_scheme \<Rightarrow>
   (acquire_result option \<times> ('l, 'z) abstract_limiter_scheme) res" where
  "Simple_loop lops fails current s =
     (let cap = GetLimit lops (al_limit s) in
      if cap \<le> current then Inr (None, s)
      else
        bind_res (chk32 (current + 1)) (\<lambda>next.
        if al_inflight s = current \<and> \<not> (fails \<noteq> [] \<and> hd fails)
        then Inr (Some \<lparr>ar_inflight_post = next, ar_partition_index = - 1\<rparr>, s\<lparr>al_inflight := next\<rparr>)
        else Simple_loop lops (tl fails) (al_inflight s) s))"
  by auto
termination
  by (relation "measure (\<lambda>(lops, fails, current, s). 2 * length fails + (if al_inflight s = current then 0 else 1))")
     (auto simp: neq_Nil_conv)

declare Simple_loop.simps [simp del]

definition Simple_DoAcquire :: "('l, 'cb) limit_ops \<Rightarrow> bool list \<Rightarrow> ('l, 'z) gate" where
  "Simple_DoAcquire lops fails context s = Simple_loop lops fails (al_inflight s) s"

definition Simple_ops :: "('l, 'cb) limit_ops \<Rightarrow> bool list \<Rightarrow> ('l abstract_limiter, 'cb) limiter_ops" where
  "Simple_ops lops fails =
     AbstractLimiter_ops lops (Simple_DoAcquire lops fails) AbstractLimiter_OnReleasePartition"

lemma Simple_loop_decides:
  assumes "is_int32 (GetLimit lops (al_limit s))" and "is_int32 (al_inflight s)"
  shows "Simple_loop lops fails (al_inflight s) s =
    (if al_inflight s < GetLimit lops (al_limit s)
     then Inr (Some \<lparr>ar_inflight_post = al_inflight s + 1, ar_partition_index = - 1\<rparr>,
               s\<lparr>al_inflight := al_inflight s + 1\<rparr>)
     else Inr (None, s))"
proof (induction fails)
  case Nil
  then show ?case using assms by (subst Simple_loop.simps) (auto simp: Let_def chk32_ok is_int32_def)
next
  case (Cons f fails)
  then show ?case using assms
    by (subst Simple_loop.simps) (auto simp: Let_def chk32_ok is_int32_def)
qed

lemma Simple_loop_effect:
  assumes "Simple_loop lops fails current s = Inr (res, s')"
  shows "case res of None \<Rightarrow> s' = s
    | Some r \<Rightarrow> ar_inflight_post r = al_inflight s + 1 \<and> is_int32 (al_inflight s + 1)
        \<and> s' = s\<lparr>al_inflight := al_inflight s + 1\<rparr>"
  using assms
proof (induction lops fails current s rule: Simple_loop.induct)
  case (1 lops fails current s)
  from "1.prems" show ?case
    by (subst (asm) Simple_loop.simps) (auto simp: Let_def bind_res_Inr split: if_splits dest!: "1.IH" [rotated])
qed

text \<open>A whole call without a bypass predicate.\<close>

lemma Simple_TryAcquire:
  assumes "al_bypass_predicate d = None" and "is_int32 (al_inflight d)" and "is_int32 (GetLimit lops (al_limit d))"
  shows "TryAcquire (Simple_ops lops fails) now ctx d =
    (if al_inflight d < GetLimit lops (al_limit d)
     then Inr (Some (MakeSlot now (al_inflight d + 1) False (- 1)), d\<lparr>al_inflight := al_inflight d + 1\<rparr>)
     else Inr (None, count_outcome Status_kRejected d))"
  using assms Simple_loop_decides [OF assms(3,2), of fails]
  by (simp add: TryAcquire_def Simple_ops_def AbstractLimiter_ops_def AbstractLimiter_DoTryAcquire_def Simple_DoAcquire_def)

interpretation simple: admission_gate lops "Simple_DoAcquire lops fails" AbstractLimiter_OnReleasePartition
  for lops fails
  by unfold_locales
     (auto simp: Simple_DoAcquire_def AbstractLimiter_OnReleasePartition_def dest!: Simple_loop_effect
       split: option.splits)

lemma Simple_Build_balanced: "Simple_Build b = Inr s \<Longrightarrow> balanced 0 0 s"
  using balanced_new by (auto simp: Simple_Build_def split: option.splits)

subsection \<open>Threads interleaved\<close>

text \<open>
  Where a thread is: before \<^verbatim>\<open>DoAcquire\<close> (\<open>Idle\<close>), at the top of the loop with the value it
  loaded (\<open>AtTop\<close>), at the exchange with that value and the cap it read (\<open>AtCas\<close>), or holding a
  slot (\<open>Holding\<close>).
\<close>

datatype pc = Idle | AtTop int | AtCas int int | Holding

text \<open>\<open>cs_peak\<close> is the largest cap there has been so far; the program does not store it.\<close>

record cas_state =
  cs_inflight :: int
  cs_cap :: int
  cs_threads :: "pc list"
  cs_peak :: int

inductive cas_step :: "cas_state \<Rightarrow> cas_state \<Rightarrow> bool" where
  load: "i < length (cs_threads c) \<Longrightarrow> cs_threads c ! i = Idle \<Longrightarrow>
    cas_step c (c\<lparr>cs_threads := (cs_threads c)[i := AtTop (cs_inflight c)]\<rparr>)"
| reject: "i < length (cs_threads c) \<Longrightarrow> cs_threads c ! i = AtTop current \<Longrightarrow> cs_cap c \<le> current \<Longrightarrow>
    cas_step c (c\<lparr>cs_threads := (cs_threads c)[i := Idle]\<rparr>)"
| headroom: "i < length (cs_threads c) \<Longrightarrow> cs_threads c ! i = AtTop current \<Longrightarrow> current < cs_cap c \<Longrightarrow>
    cas_step c (c\<lparr>cs_threads := (cs_threads c)[i := AtCas current (cs_cap c)]\<rparr>)"
| exchange: "i < length (cs_threads c) \<Longrightarrow> cs_threads c ! i = AtCas current cap \<Longrightarrow> cs_inflight c = current \<Longrightarrow>
    cas_step c (c\<lparr>cs_inflight := wrap32 (current + 1), cs_threads := (cs_threads c)[i := Holding]\<rparr>)"
| retry: "i < length (cs_threads c) \<Longrightarrow> cs_threads c ! i = AtCas current cap \<Longrightarrow>
    cas_step c (c\<lparr>cs_threads := (cs_threads c)[i := AtTop (cs_inflight c)]\<rparr>)"
| release: "i < length (cs_threads c) \<Longrightarrow> cs_threads c ! i = Holding \<Longrightarrow>
    cas_step c (c\<lparr>cs_inflight := wrap32 (cs_inflight c - 1), cs_threads := (cs_threads c)[i := Idle]\<rparr>)"
| set_cap: "is_int32 n \<Longrightarrow> cas_step c (c\<lparr>cs_cap := n, cs_peak := max n (cs_peak c)\<rparr>)"

inductive_cases cas_step_E: "cas_step c c'"

definition cas_init :: "int \<Rightarrow> nat \<Rightarrow> cas_state" where
  "cas_init cap n = \<lparr>cs_inflight = 0, cs_cap = cap, cs_threads = replicate n Idle, cs_peak = cap\<rparr>"

definition holders :: "pc list \<Rightarrow> int" where
  "holders ps = tally (\<lambda>p. p = Holding) ps"

lemma holders_update [simp]:
  "i < length ps \<Longrightarrow> holders (ps[i := p]) = holders ps - of_bool (ps ! i = Holding) + of_bool (p = Holding)"
  by (simp add: holders_def)

lemma holders_nonneg [simp]: "0 \<le> holders ps"
  by (simp add: holders_def)

lemma holders_pos: "i < length ps \<Longrightarrow> ps ! i = Holding \<Longrightarrow> 1 \<le> holders ps"
  by (simp add: holders_def tally_pos)

text \<open>The counter counts the holders and stays below the largest cap; a thread at the exchange
  carries a value below a cap there has been.\<close>

fun pc_ok :: "int \<Rightarrow> pc \<Rightarrow> bool" where
  "pc_ok peak (AtCas current cap) \<longleftrightarrow> current < cap \<and> cap \<le> peak"
| "pc_ok peak _ \<longleftrightarrow> True"

definition cas_inv :: "cas_state \<Rightarrow> bool" where
  "cas_inv c \<longleftrightarrow> cs_inflight c = holders (cs_threads c) \<and> cs_inflight c \<le> max 0 (cs_peak c)
     \<and> cs_cap c \<le> cs_peak c \<and> is_int32 (cs_peak c) \<and> list_all (pc_ok (cs_peak c)) (cs_threads c)"

lemma pc_ok_mono: "pc_ok m p \<Longrightarrow> m \<le> n \<Longrightarrow> pc_ok n p"
  by (cases p) auto

lemma cas_step_inv:
  assumes "cas_step c c'" and inv: "cas_inv c"
  shows "cas_inv c'"
  using assms(1)
proof cases
  case (exchange i current cap)
  have "pc_ok (cs_peak c) (AtCas current cap)"
    using inv exchange by (metis cas_inv_def list_all_length)
  moreover have "0 \<le> current" using inv exchange by (auto simp: cas_inv_def)
  moreover have "is_int32 (current + 1)" using calculation inv by (auto simp: cas_inv_def is_int32_def)
  ultimately show ?thesis using inv exchange by (auto simp: cas_inv_def)
next
  case (release i)
  have "1 \<le> cs_inflight c" using inv release holders_pos by (simp add: cas_inv_def)
  moreover have "is_int32 (cs_inflight c - 1)" using calculation inv by (auto simp: cas_inv_def is_int32_def)
  ultimately show ?thesis using inv release by (simp add: cas_inv_def)
next
  case (set_cap n)
  have "list_all (pc_ok (max n (cs_peak c))) (cs_threads c)"
    using inv by (auto simp: cas_inv_def elim!: list.pred_mono_strong intro: pc_ok_mono)
  moreover have "is_int32 (max n (cs_peak c))" using set_cap inv by (auto simp: cas_inv_def max_def)
  ultimately show ?thesis using inv set_cap by (auto simp: cas_inv_def)
qed (use inv in \<open>simp_all add: cas_inv_def\<close>)

lemma cas_init_inv: "is_int32 cap \<Longrightarrow> cas_inv (cas_init cap n)"
  by (auto simp: cas_inv_def cas_init_def holders_def list_all_iff)

lemma cas_reach_inv: "cas_step\<^sup>*\<^sup>* (cas_init cap n) c \<Longrightarrow> is_int32 cap \<Longrightarrow> cas_inv c"
  by (induction rule: rtranclp_induct) (auto intro: cas_init_inv cas_step_inv)

subsection \<open>Properties\<close>

text \<open>
  The gate decides by headroom alone: however often the weak exchange fails spuriously, the
  loop ends, admits exactly when the in-flight count is below the cap, and then leaves the
  counter one higher; a rejection changes nothing.
\<close>

lemma simple_gate_decides:
  assumes "is_int32 (GetLimit lops (al_limit s))" and "is_int32 (al_inflight s)"
  shows "Simple_DoAcquire lops fails context s =
    (if al_inflight s < GetLimit lops (al_limit s)
     then Inr (Some \<lparr>ar_inflight_post = al_inflight s + 1, ar_partition_index = - 1\<rparr>,
               s\<lparr>al_inflight := al_inflight s + 1\<rparr>)
     else Inr (None, s))"
  using Simple_loop_decides [OF assms] by (simp add: Simple_DoAcquire_def)

lemma simple_gate_decides_witness:
  "Simple_DoAcquire FixedLimit_ops [True, True] ''ctx''
      (AbstractLimiter_new (FixedLimit_Of 1 :: nat abstract_limit) [] None False)
    = Inr (Some \<lparr>ar_inflight_post = 1, ar_partition_index = - 1\<rparr>,
        (AbstractLimiter_new (FixedLimit_Of 1) [] None False)\<lparr>al_inflight := 1\<rparr>)"
proof -
  let ?s = "AbstractLimiter_new (FixedLimit_Of 1 :: nat abstract_limit) [] None False"
  have g: "GetLimit FixedLimit_ops (al_limit ?s) = 1" "al_inflight ?s = 0"
    by (simp_all add: AbstractLimiter_new_def FixedLimit_ops_def FixedLimit_Of_def abstract_limit_defs)
  show ?thesis
    using simple_gate_decides [of FixedLimit_ops ?s "[True, True]" "''ctx''"] g by (simp add: is_int32_def)
qed

text \<open>
  C4. No overshoot under contention: in every interleaving of acquiring and releasing threads,
  with the cap changing at any time, the in-flight counter is exactly the number of threads
  that hold a slot, never wraps, and never exceeds the largest cap there has been.
\<close>

theorem simple_no_overshoot:
  assumes "cas_step\<^sup>*\<^sup>* (cas_init cap n) c" and "is_int32 cap"
  shows "cs_inflight c = holders (cs_threads c) \<and> 0 \<le> cs_inflight c
    \<and> cs_inflight c \<le> max 0 (cs_peak c) \<and> is_int32 (cs_inflight c)"
proof -
  have i: "cs_inflight c = holders (cs_threads c)" "cs_inflight c \<le> max 0 (cs_peak c)" "is_int32 (cs_peak c)"
    using cas_reach_inv [OF assms] by (simp_all add: cas_inv_def)
  have "0 \<le> cs_inflight c" using i(1) by simp
  then show ?thesis using i unfolding is_int32_def by linarith
qed

theorem simple_no_overshoot_witness:
  "\<exists>c. cas_step\<^sup>*\<^sup>* (cas_init 1 2) c \<and> cs_threads c = [Holding, AtTop 1]
    \<and> cs_inflight c = holders [Holding, AtTop 1] \<and> cs_inflight c \<le> max 0 (cs_peak c)"
proof -
  let ?c = "\<lambda>n ps. \<lparr>cs_inflight = n, cs_cap = 1, cs_threads = ps, cs_peak = 1\<rparr>"
  have "cas_step (?c 0 [Idle, Idle]) (?c 0 [AtTop 0, Idle])" using cas_step.load [of 0 "?c 0 [Idle, Idle]"] by simp
  moreover have "cas_step (?c 0 [AtTop 0, Idle]) (?c 0 [AtTop 0, AtTop 0])"
    using cas_step.load [of 1 "?c 0 [AtTop 0, Idle]"] by simp
  moreover have "cas_step (?c 0 [AtTop 0, AtTop 0]) (?c 0 [AtCas 0 1, AtTop 0])"
    using cas_step.headroom [of 0 "?c 0 [AtTop 0, AtTop 0]" 0] by simp
  moreover have "cas_step (?c 0 [AtCas 0 1, AtTop 0]) (?c 0 [AtCas 0 1, AtCas 0 1])"
    using cas_step.headroom [of 1 "?c 0 [AtCas 0 1, AtTop 0]" 0] by simp
  moreover have "cas_step (?c 0 [AtCas 0 1, AtCas 0 1]) (?c 1 [Holding, AtCas 0 1])"
    using cas_step.exchange [of 0 "?c 0 [AtCas 0 1, AtCas 0 1]" 0 1] by (simp add: is_int32_def)
  moreover have "cas_step (?c 1 [Holding, AtCas 0 1]) (?c 1 [Holding, AtTop 1])"
    using cas_step.retry [of 1 "?c 1 [Holding, AtCas 0 1]" 0 1] by simp
  moreover have "cas_init 1 2 = ?c 0 [Idle, Idle]" by (simp add: cas_init_def numeral_eq_Suc)
  ultimately have r: "cas_step\<^sup>*\<^sup>* (cas_init 1 2) (?c 1 [Holding, AtTop 1])"
    by (metis (no_types, lifting) r_into_rtranclp rtranclp_trans)
  show ?thesis
    using simple_no_overshoot [OF r] r
    by (intro exI [of _ "?c 1 [Holding, AtTop 1]"]) (simp add: is_int32_def)
qed

text \<open>
  C3. Every admitted request is released exactly once: along every run of a program that
  acquires, completes (any number of times, with any outcome), moves, move-assigns and destroys
  guards, the in-flight count of a simple limiter is the number of guards that are neither
  completed, bypassed, moved from nor destroyed, and the five outcome counters account for all
  other calls of \<^verbatim>\<open>TryAcquire\<close> modulo \<open>2 ^ 64\<close>.
\<close>

theorem simple_slots_conserved:
  assumes "Simple_Build b = Inr s0" and "world_reach (Simple_ops lops fails) s0 w"
    and "live_count (w_guards w) \<le> INT_MAX"
  shows "InflightCount (w_limiter w) = live_count (w_guards w)
    \<and> 18446744073709551616 dvd (OutcomeCount Status_kSuccess (w_limiter w) + OutcomeCount Status_kRejected (w_limiter w)
        + OutcomeCount Status_kDropped (w_limiter w) + OutcomeCount Status_kIgnored (w_limiter w)
        + OutcomeCount Status_kBypassed (w_limiter w) + live_count (w_guards w) - int (w_calls w))"
proof -
  have "balanced 0 0 s0" using assms(1) by (rule Simple_Build_balanced)
  then have b: "balanced (int (w_calls w)) (live_count (w_guards w)) (w_limiter w)"
    using simple.books.reach_invariant [of lops fails s0 w] assms(2) by (simp add: Simple_ops_def live_count_size)
  have "is_int32 (live_count (w_guards w))" using assms(3) by (simp add: live_count_def is_int32_def)
  then have "al_inflight (w_limiter w) = live_count (w_guards w)" by (rule balanced_inflight [OF b])
  moreover have "length (al_outcome_counts (w_limiter w)) = 5" using b by (simp add: balanced_def)
  then have "sum_list (al_outcome_counts (w_limiter w)) = (\<Sum>st \<leftarrow> [Status_kSuccess, Status_kRejected,
      Status_kDropped, Status_kIgnored, Status_kBypassed]. OutcomeCount st (w_limiter w))"
    by (auto simp: OutcomeCount_def numeral_eq_Suc length_Suc_conv)
  ultimately show ?thesis using b by (simp add: balanced_def InflightCount_def algebra_simps)
qed

theorem simple_slots_conserved_witness:
  "\<exists>s0 w. Simple_Build (Simple_Limit (Some (FixedLimit_Of 1 :: nat abstract_limit)) Simple_Builder) = Inr s0
    \<and> world_reach (Simple_ops FixedLimit_ops []) s0 w \<and> w_calls w = 2 \<and> live_count (w_guards w) = 1
    \<and> InflightCount (w_limiter w) = 1"
proof -
  let ?ops = "Simple_ops FixedLimit_ops [] :: (nat abstract_limit abstract_limiter, nat) limiter_ops"
  define s0 where "s0 = AbstractLimiter_new (FixedLimit_Of 1 :: nat abstract_limit) [] None False"
  define g where "g = MakeSlot 7 1 False (- 1)"
  have b: "Simple_Build (Simple_Limit (Some (FixedLimit_Of 1)) Simple_Builder) = Inr s0"
    by (simp add: Simple_Build_def Simple_Limit_def Simple_Builder_def s0_def)
  have cap: "GetLimit FixedLimit_ops (al_limit s0) = 1" "al_inflight s0 = 0" "al_bypass_predicate s0 = None"
    by (simp_all add: s0_def AbstractLimiter_new_def FixedLimit_ops_def FixedLimit_Of_def abstract_limit_defs)
  have "DoTryAcquire ?ops 7 ''a'' s0 = Inr (Some g, s0\<lparr>al_inflight := 1\<rparr>)"
    using cap Simple_loop_decides [of FixedLimit_ops s0 "[]"]
    by (simp add: Simple_ops_def AbstractLimiter_ops_def AbstractLimiter_DoTryAcquire_def Simple_DoAcquire_def
        is_int32_def g_def)
  from world_step.acquired [of ?ops 7 "''a''" "\<lparr>w_limiter = s0, w_guards = [], w_calls = 0\<rparr>", simplified, OF this]
  have s1: "world_step ?ops \<lparr>w_limiter = s0, w_guards = [], w_calls = 0\<rparr>
      \<lparr>w_limiter = s0\<lparr>al_inflight := 1\<rparr>, w_guards = [g], w_calls = 1\<rparr>" by simp
  define s2 where "s2 = count_outcome Status_kRejected (s0\<lparr>al_inflight := 1\<rparr>)"
  have "DoTryAcquire ?ops 8 ''b'' (s0\<lparr>al_inflight := 1\<rparr>) = Inr (None, s2)"
    using cap Simple_loop_decides [of FixedLimit_ops "s0\<lparr>al_inflight := 1\<rparr>" "[]"]
    by (simp add: Simple_ops_def AbstractLimiter_ops_def AbstractLimiter_DoTryAcquire_def Simple_DoAcquire_def
        is_int32_def s2_def)
  from world_step.rejected [of ?ops 8 "''b''" "\<lparr>w_limiter = s0\<lparr>al_inflight := 1\<rparr>, w_guards = [g], w_calls = 1\<rparr>",
      simplified, OF this]
  have s2: "world_step ?ops \<lparr>w_limiter = s0\<lparr>al_inflight := 1\<rparr>, w_guards = [g], w_calls = 1\<rparr>
      \<lparr>w_limiter = s2, w_guards = [g], w_calls = 2\<rparr>" by (simp add: numeral_eq_Suc)
  let ?w = "\<lparr>w_limiter = s2, w_guards = [g], w_calls = 2\<rparr>"
  have r: "world_reach ?ops s0 ?w" using s1 s2 unfolding world_reach_def by (metis r_into_rtranclp rtranclp.rtrancl_into_rtrancl)
  have l: "live_count [g] = 1" by (simp add: live_count_def live_def g_def MakeSlot_def)
  have "InflightCount s2 = 1" using simple_slots_conserved [OF b r] l by simp
  then show ?thesis using b r l by (intro exI [of _ s0] exI [of _ ?w]) simp
qed

text \<open>
  A thread that runs alone gets its slot: from any state in which the counter is below the
  cap, the loop of an idle thread, run without interference, ends with the slot held and
  nothing else changed. So the interleaving model and the function agree on a lone thread.
\<close>

lemma simple_lone_thread_acquires:
  assumes "i < length (cs_threads c)" and "cs_threads c ! i = Idle" and "cs_inflight c < cs_cap c"
    and "is_int32 (cs_inflight c)" and "is_int32 (cs_cap c)"
  shows "cas_step\<^sup>*\<^sup>* c (c\<lparr>cs_inflight := cs_inflight c + 1, cs_threads := (cs_threads c)[i := Holding]\<rparr>)"
proof -
  let ?c = "\<lambda>p. c\<lparr>cs_threads := (cs_threads c)[i := p]\<rparr>"
  have w: "wrap32 (cs_inflight c + 1) = cs_inflight c + 1"
    using assms(3-5) by (intro wrap32_id) (simp add: is_int32_def)
  have "cas_step c (?c (AtTop (cs_inflight c)))" using cas_step.load [OF assms(1,2)] .
  moreover have "cas_step (?c (AtTop (cs_inflight c))) (?c (AtCas (cs_inflight c) (cs_cap c)))"
    using cas_step.headroom [of i "?c (AtTop (cs_inflight c))" "cs_inflight c"] assms by simp
  moreover have "cas_step (?c (AtCas (cs_inflight c) (cs_cap c)))
      (c\<lparr>cs_inflight := cs_inflight c + 1, cs_threads := (cs_threads c)[i := Holding]\<rparr>)"
    using cas_step.exchange [of i "?c (AtCas (cs_inflight c) (cs_cap c))" "cs_inflight c" "cs_cap c"] assms w by simp
  ultimately show ?thesis by (meson r_into_rtranclp rtranclp.rtrancl_into_rtrancl)
qed

theorem simple_lone_thread_acquires_witness:
  "cas_step\<^sup>*\<^sup>* (cas_init 1 2) ((cas_init 1 2)\<lparr>cs_inflight := 1, cs_threads := [Idle, Holding]\<rparr>)"
  using simple_lone_thread_acquires [of 1 "cas_init 1 2"]
  by (simp add: cas_init_def is_int32_def numeral_eq_Suc)

end
