(* ===== verification/Absl_Time.thy ===== *)
theory Absl_Time
  imports Binary64
begin

section \<open>Abseil time as a parameter\<close>

text \<open>
  \<^verbatim>\<open>absl::Time\<close> and \<^verbatim>\<open>absl::Duration\<close> are not part of the repository: their types are type
  variables, and the operations the filter and the blocking limiters call are the fields of a
  record, with the documented laws the properties rely on as a locale.
\<close>

subsection \<open>What the code uses of Abseil\<close>

record ('t, 'd) absl_time =
  UnixEpoch :: 't
  ZeroDuration :: 'd
  Milliseconds :: "int \<Rightarrow> 'd"
  time_minus :: "'t \<Rightarrow> 't \<Rightarrow> 'd"
  time_plus :: "'t \<Rightarrow> 'd \<Rightarrow> 't"
  dur_times :: "int \<Rightarrow> 'd \<Rightarrow> 'd"
  dur_div :: "'d \<Rightarrow> double \<Rightarrow> 'd"

text \<open>
  The documented behaviour the properties rely on: adding a duration that is not negative does
  not go back in time and respects the order of durations; dividing a positive duration by a
  number that is at least one gives a duration that is not negative and not longer; and dividing
  by one changes nothing.
\<close>

locale absl_laws =
  fixes tm :: "('t::linorder, 'd::linorder) absl_time"
  assumes plus_ge: "ZeroDuration tm \<le> d \<Longrightarrow> t \<le> time_plus tm t d"
    and plus_mono: "d \<le> e \<Longrightarrow> time_plus tm t d \<le> time_plus tm t e"
    and div_range: "ZeroDuration tm \<le> d \<Longrightarrow> 1 \<le> x \<Longrightarrow>
      ZeroDuration tm \<le> dur_div tm d (Fin x) \<and> dur_div tm d (Fin x) \<le> d"
    and div_one: "dur_div tm d (Fin 1) = d"

subsection \<open>A clock that ticks\<close>

text \<open>Times and durations as numbers of nanoseconds: an instance of the laws.\<close>

definition ticks :: "(int, int) absl_time" where
  "ticks = \<lparr>UnixEpoch = 0, ZeroDuration = 0, Milliseconds = (\<lambda>n. 1000000 * n), time_minus = (-), time_plus = (+),
     dur_times = (*), dur_div = (\<lambda>d x. case x of Fin q \<Rightarrow> trunc (of_int d / q) | _ \<Rightarrow> 0)\<rparr>"

interpretation ticks: absl_laws ticks
proof unfold_locales
  fix d :: int and x :: rat
  assume d: "ZeroDuration ticks \<le> d" and x: "1 \<le> x"
  have "0 \<le> of_int d / x" using d x by (simp add: ticks_def)
  moreover have "of_int d / x \<le> of_int d" using d x by (simp add: ticks_def divide_le_eq mult_le_cancel_left1)
  ultimately show "ZeroDuration ticks \<le> dur_div ticks d (Fin x) \<and> dur_div ticks d (Fin x) \<le> d"
    by (simp add: ticks_def trunc_def floor_le_iff)
qed (auto simp: ticks_def trunc_def)

end
