(* ===== verification/Codel.thy ===== *)
theory Codel
  imports Absl_Time "HOL-Library.Word"
begin

section \<open>Codel: the controlled-delay filter\<close>

text \<open>
  \<^verbatim>\<open>CodelFilter\<close> (\<^verbatim>\<open>codel_filter.h\<close>, \<^verbatim>\<open>codel_filter.cc\<close>), the state machine of RFC 8289 over
  caller-supplied enqueue times. Times and durations are Abseil's, which is not part of the
  repository: their types are type variables, linearly ordered as \<^verbatim>\<open>absl::Time\<close> and
  \<^verbatim>\<open>absl::Duration\<close> are, and the operations the code calls are the fields of the parameter
  \<open>absl_time\<close> of the theory \<open>Absl_Time\<close>. \<open>codel_clock\<close> says which clock a filter reads,
  \<^verbatim>\<open>absl::Now\<close> or one of the application; what that clock reads is an argument \<open>now\<close>.
  \<^verbatim>\<open>uint32_t\<close> counters are 32-bit words; the critical section under \<^verbatim>\<open>mu_\<close> is one operation.
\<close>

subsection \<open>State and builder\<close>

datatype codel_clock = AbslNow | ClockFn nat

record ('t, 'd) codel =
  cf_first_above_time :: 't
  cf_drop_next :: 't
  cf_count :: "32 word"
  cf_lastcount :: "32 word"
  cf_dropping :: bool
  cf_target :: 'd
  cf_interval :: 'd
  cf_clock :: codel_clock
  cf_id :: string
  cf_drop_count :: int
  cf_meter_provider :: bool

record 'd codel_params =
  cp_target :: 'd
  cp_interval :: 'd
  cp_clock :: codel_clock
  cp_id :: string
  cp_meter_provider :: bool

record 'd codel_builder =
  cfb_target :: 'd
  cfb_interval :: 'd
  cfb_clock :: "codel_clock option"
  cfb_id :: string
  cfb_meter_provider :: bool

definition Codel_Builder :: "('t, 'd) absl_time \<Rightarrow> 'd codel_builder" where
  "Codel_Builder tm = \<lparr>cfb_target = Milliseconds tm 5, cfb_interval = Milliseconds tm 100, cfb_clock = None,
     cfb_id = [], cfb_meter_provider = False\<rparr>"

definition Codel_Target :: "'d \<Rightarrow> 'd codel_builder \<Rightarrow> 'd codel_builder" where
  "Codel_Target v b = b\<lparr>cfb_target := v\<rparr>"

definition Codel_Interval :: "'d \<Rightarrow> 'd codel_builder \<Rightarrow> 'd codel_builder" where
  "Codel_Interval v b = b\<lparr>cfb_interval := v\<rparr>"

definition Codel_Clock :: "codel_clock option \<Rightarrow> 'd codel_builder \<Rightarrow> 'd codel_builder" where
  "Codel_Clock clock b = b\<lparr>cfb_clock := clock\<rparr>"

definition Codel_Id :: "string \<Rightarrow> 'd codel_builder \<Rightarrow> 'd codel_builder" where
  "Codel_Id i b = b\<lparr>cfb_id := i\<rparr>"

definition Codel_new :: "('t, 'd) absl_time \<Rightarrow> 'd codel_params \<Rightarrow> ('t, 'd) codel" where
  "Codel_new tm params =
     \<lparr>cf_first_above_time = UnixEpoch tm, cf_drop_next = UnixEpoch tm, cf_count = 0, cf_lastcount = 0,
      cf_dropping = False, cf_target = cp_target params, cf_interval = cp_interval params,
      cf_clock = cp_clock params, cf_id = cp_id params, cf_drop_count = 0,
      cf_meter_provider = cp_meter_provider params\<rparr>"

definition Codel_Build ::
  "('t, 'd::linorder) absl_time \<Rightarrow> 'd codel_builder \<Rightarrow> status + ('t, 'd) codel" where
  "Codel_Build tm b =
     (if cfb_target b \<le> ZeroDuration tm then
        Inl (InvalidArgument ''CodelFilter::Builder::Target must be a positive duration'')
      else if cfb_interval b \<le> ZeroDuration tm then
        Inl (InvalidArgument ''CodelFilter::Builder::Interval must be a positive duration'')
      else Inr (Codel_new tm
        \<lparr>cp_target = cfb_target b, cp_interval = cfb_interval b,
         cp_clock = (case cfb_clock b of Some clock \<Rightarrow> clock | None \<Rightarrow> AbslNow),
         cp_id = cfb_id b, cp_meter_provider = cfb_meter_provider b\<rparr>))"

subsection \<open>The state machine\<close>

definition ControlLaw :: "('t, 'd) absl_time \<Rightarrow> 't \<Rightarrow> 32 word \<Rightarrow> ('t, 'd) codel \<Rightarrow> 't" where
  "ControlLaw tm t count s = time_plus tm t (dur_div tm (cf_interval s) (dsqrt (double_of_int (uint count))))"

definition OkToDrop ::
  "('t::linorder, 'd::linorder) absl_time \<Rightarrow> 'd \<Rightarrow> 't \<Rightarrow> ('t, 'd) codel \<Rightarrow> bool \<times> ('t, 'd) codel" where
  "OkToDrop tm sojourn now s =
     (if sojourn < cf_target s then (False, s\<lparr>cf_first_above_time := UnixEpoch tm\<rparr>)
      else if cf_first_above_time s = UnixEpoch tm then
        (False, s\<lparr>cf_first_above_time := time_plus tm now (cf_interval s)\<rparr>)
      else if cf_first_above_time s \<le> now then (True, s)
      else (False, s))"

definition codel_sojourn :: "('t, 'd::linorder) absl_time \<Rightarrow> 't \<Rightarrow> 't \<Rightarrow> 'd" where
  "codel_sojourn tm now enqueue_time = max (ZeroDuration tm) (time_minus tm now enqueue_time)"

definition ShouldDrop ::
  "('t::linorder, 'd::linorder) absl_time \<Rightarrow> 't \<Rightarrow> 't \<Rightarrow> ('t, 'd) codel \<Rightarrow> bool \<times> ('t, 'd) codel" where
  "ShouldDrop tm now enqueue_time s =
     (let sojourn = codel_sojourn tm now enqueue_time;
          (ok_to_drop, s) = OkToDrop tm sojourn now s
      in if cf_dropping s then
           if \<not> ok_to_drop then (False, s\<lparr>cf_dropping := False\<rparr>)
           else if cf_drop_next s \<le> now then
             let s = s\<lparr>cf_count := cf_count s + 1\<rparr>;
                 s = s\<lparr>cf_drop_next := ControlLaw tm (cf_drop_next s) (cf_count s) s\<rparr>;
                 s = s\<lparr>cf_drop_count := wrap64 (cf_drop_count s + 1)\<rparr>
             in (True, s)
           else (False, s)
         else if ok_to_drop then
           let s = s\<lparr>cf_dropping := True\<rparr>;
               delta = cf_count s - cf_lastcount s;
               s = s\<lparr>cf_count := 1\<rparr>;
               s = (if 1 < delta \<and> time_minus tm now (cf_drop_next s) < dur_times tm 16 (cf_interval s)
                    then s\<lparr>cf_count := delta\<rparr> else s);
               s = s\<lparr>cf_drop_next := ControlLaw tm now (cf_count s) s\<rparr>;
               s = s\<lparr>cf_lastcount := cf_count s\<rparr>;
               s = s\<lparr>cf_drop_count := wrap64 (cf_drop_count s + 1)\<rparr>
           in (True, s)
         else (False, s))"

definition IsDropping :: "('t, 'd) codel \<Rightarrow> bool" where "IsDropping s = cf_dropping s"
definition DropCount :: "('t, 'd) codel \<Rightarrow> int" where "DropCount s = cf_drop_count s"
definition DropEpisodeCount :: "('t, 'd) codel \<Rightarrow> 32 word" where "DropEpisodeCount s = cf_count s"
definition DropNext :: "('t, 'd) codel \<Rightarrow> 't" where "DropNext s = cf_drop_next s"

definition ObserveDrops :: "('t, 'd) codel \<Rightarrow> (int \<times> (string \<times> string) list) list" where
  "ObserveDrops s = [(cf_drop_count s, [(''id'', cf_id s)])]"

definition ObserveDropping :: "('t, 'd) codel \<Rightarrow> (int \<times> (string \<times> string) list) list" where
  "ObserveDropping s = [(if cf_dropping s then 1 else 0, [(''id'', cf_id s)])]"

text \<open>The example the concrete runs below use: a target of 5 and an interval of 100 ticks.\<close>

definition ticks_params :: "int codel_params" where
  "ticks_params = \<lparr>cp_target = 5, cp_interval = 100, cp_clock = AbslNow, cp_id = [], cp_meter_provider = False\<rparr>"

text \<open>A sequence of calls, each with its clock reading and enqueue time; the decisions, in order.\<close>

fun codel_run ::
  "('t::linorder, 'd::linorder) absl_time \<Rightarrow> ('t \<times> 't) list \<Rightarrow> ('t, 'd) codel \<Rightarrow> bool list \<times> ('t, 'd) codel"
where
  "codel_run tm [] s = ([], s)"
| "codel_run tm ((now, enq) # xs) s =
     (let (d, s') = ShouldDrop tm now enq s; (ds, s'') = codel_run tm xs s' in (d # ds, s''))"

subsection \<open>Runs\<close>

lemma codel_run_snoc:
  "codel_run tm (xs @ [(now, enq)]) s =
     (let (ds, s') = codel_run tm xs s; (d, s'') = ShouldDrop tm now enq s' in (ds @ [d], s''))"
  by (induction xs arbitrary: s) (auto simp: Let_def split: prod.splits)

lemma codel_run_length: "codel_run tm xs s = (ds, s') \<Longrightarrow> length ds = length xs"
  by (induction xs arbitrary: s ds) (auto simp: Let_def split: prod.splits)

lemma codel_run_take:
  assumes "codel_run tm xs s = (ds, s')" and "k \<le> length xs"
  shows "\<exists>s''. codel_run tm (take k xs) s = (take k ds, s'')"
  using assms
proof (induction xs arbitrary: s ds k)
  case Nil
  then show ?case by simp
next
  case (Cons x xs)
  then show ?case by (cases k; cases x) (fastforce simp: Let_def split: prod.splits)+
qed

lemma ShouldDrop_config:
  "ShouldDrop tm now enq s = (d, s') \<Longrightarrow> cf_target s' = cf_target s \<and> cf_interval s' = cf_interval s"
  by (auto simp: ShouldDrop_def OkToDrop_def Let_def split: if_splits)

lemma ShouldDrop_first_above:
  assumes "ShouldDrop tm now enq s = (d, s')"
  shows "cf_first_above_time s' = cf_first_above_time (snd (OkToDrop tm (codel_sojourn tm now enq) now s))"
  using assms by (auto simp: ShouldDrop_def OkToDrop_def Let_def split: if_splits)

lemma ShouldDrop_drops:
  assumes "ShouldDrop tm now enq s = (True, s')"
  shows "cf_target s \<le> codel_sojourn tm now enq" and "cf_first_above_time s \<noteq> UnixEpoch tm"
    and "cf_first_above_time s \<le> now"
  using assms by (auto simp: ShouldDrop_def OkToDrop_def Let_def split: if_splits)

text \<open>Since when the sojourn time has been above target: the call that armed the filter.\<close>

definition armed_by :: "('t::linorder, 'd::linorder) absl_time \<Rightarrow> 'd \<Rightarrow> 'd \<Rightarrow> ('t \<times> 't) list \<Rightarrow> 't \<Rightarrow> nat \<Rightarrow> bool" where
  "armed_by tm target interval xs t j \<longleftrightarrow> j < length xs \<and> t = time_plus tm (fst (xs ! j)) interval
     \<and> (\<forall>i. j \<le> i \<and> i < length xs \<longrightarrow> target \<le> codel_sojourn tm (fst (xs ! i)) (snd (xs ! i)))"

lemma codel_run_armed:
  assumes "codel_run tm xs s0 = (ds, s)" and "cf_first_above_time s0 = UnixEpoch tm"
  shows "cf_target s = cf_target s0 \<and> cf_interval s = cf_interval s0
    \<and> (cf_first_above_time s = UnixEpoch tm
        \<or> (\<exists>j. armed_by tm (cf_target s0) (cf_interval s0) xs (cf_first_above_time s) j))"
  using assms(1)
proof (induction xs arbitrary: ds s rule: rev_induct)
  case Nil
  then show ?case using assms(2) by simp
next
  case (snoc x xs)
  obtain now enq where x: "x = (now, enq)" by (cases x)
  obtain ds1 s1 d where r: "codel_run tm xs s0 = (ds1, s1)" "ShouldDrop tm now enq s1 = (d, s)"
    using snoc.prems by (auto simp: x codel_run_snoc Let_def split: prod.splits)
  note c = ShouldDrop_config [OF r(2)] and f = ShouldDrop_first_above [OF r(2)] and IH = snoc.IH [OF r(1)]
  show ?case
  proof (cases "codel_sojourn tm now enq < cf_target s1")
    case True
    then show ?thesis using IH c f by (simp add: OkToDrop_def)
  next
    case above: False
    show ?thesis
    proof (cases "cf_first_above_time s1 = UnixEpoch tm")
      case True
      then have "armed_by tm (cf_target s0) (cf_interval s0) (xs @ [x]) (cf_first_above_time s) (length xs)"
        using above IH f by (auto simp: OkToDrop_def armed_by_def x nth_append)
      then show ?thesis using IH c by auto
    next
      case False
      then obtain j where "armed_by tm (cf_target s0) (cf_interval s0) xs (cf_first_above_time s1) j" using IH by auto
      then have "armed_by tm (cf_target s0) (cf_interval s0) (xs @ [x]) (cf_first_above_time s) j"
        using above False IH f by (auto simp: OkToDrop_def armed_by_def x nth_append less_Suc_eq)
      then show ?thesis using IH c by auto
    qed
  qed
qed

text \<open>
  C10. Only sustained overload is dropped: if a call of a new filter says drop, then at some
  earlier call, at least the interval before on the filter's clock, the sojourn time was
  already at or above the target, and so it was at every call since.
\<close>

theorem codel_drops_sustained_overload:
  assumes "Codel_Build tm b = Inr s0" and "codel_run tm xs s0 = (ds, s)" and "k < length xs" and "ds ! k"
  shows "\<exists>j < k. time_plus tm (fst (xs ! j)) (cfb_interval b) \<le> fst (xs ! k)
    \<and> (\<forall>i. j \<le> i \<and> i \<le> k \<longrightarrow> cfb_target b \<le> codel_sojourn tm (fst (xs ! i)) (snd (xs ! i)))"
proof -
  have s0: "cf_first_above_time s0 = UnixEpoch tm" "cf_target s0 = cfb_target b" "cf_interval s0 = cfb_interval b"
    using assms(1) by (auto simp: Codel_Build_def Codel_new_def split: if_splits)
  obtain now enq where x: "xs ! k = (now, enq)" by fastforce
  have t: "take (Suc k) xs = take k xs @ [(now, enq)]" using assms(3) x by (simp add: take_Suc_conv_app_nth)
  have l: "length ds = length xs" by (rule codel_run_length [OF assms(2)])
  then have td: "take (Suc k) ds = take k ds @ [True]" using assms(3,4) by (simp add: take_Suc_conv_app_nth)
  obtain s2 where "codel_run tm (take k xs @ [(now, enq)]) s0 = (take k ds @ [True], s2)"
    using codel_run_take [OF assms(2), of "Suc k"] assms(3) t td by auto
  then obtain s1 where r: "codel_run tm (take k xs) s0 = (take k ds, s1)" "ShouldDrop tm now enq s1 = (True, s2)"
    by (auto simp: codel_run_snoc Let_def split: prod.splits)
  note a = codel_run_armed [OF r(1) s0(1)] and d = ShouldDrop_drops [OF r(2)]
  obtain j where "armed_by tm (cf_target s0) (cf_interval s0) (take k xs) (cf_first_above_time s1) j"
    using a d(2) by auto
  then have j: "j < k" "cf_first_above_time s1 = time_plus tm (fst (xs ! j)) (cfb_interval b)"
      "\<forall>i. j \<le> i \<and> i < k \<longrightarrow> cfb_target b \<le> codel_sojourn tm (fst (xs ! i)) (snd (xs ! i))"
    using assms(3) s0 by (auto simp: armed_by_def)
  have "\<forall>i. j \<le> i \<and> i \<le> k \<longrightarrow> cfb_target b \<le> codel_sojourn tm (fst (xs ! i)) (snd (xs ! i))"
    using j(3) d(1) x a s0(2) by (auto simp: le_less)
  then show ?thesis using j(1,2) d(3) x by auto
qed

theorem codel_drops_sustained_overload_witness:
  "\<exists>s0 s. Codel_Build ticks (Codel_Interval 100 (Codel_Target 5 (Codel_Builder ticks))) = Inr s0
    \<and> codel_run ticks [(10, 1), (60, 50), (115, 100)] s0 = ([False, False, True], s)
    \<and> (\<exists>j < 2. time_plus ticks ([10, 60, 115] ! j) 100 \<le> 115)"
proof -
  let ?b = "Codel_Interval 100 (Codel_Target 5 (Codel_Builder ticks))"
  let ?xs = "[(10, 1), (60, 50), (115, 100)] :: (int \<times> int) list"
  obtain s0 where s0: "Codel_Build ticks ?b = Inr s0" "s0 = Codel_new ticks ticks_params"
    by (simp add: Codel_Build_def Codel_Interval_def Codel_Target_def Codel_Builder_def ticks_def ticks_params_def)
  obtain s where r: "codel_run ticks ?xs s0 = ([False, False, True], s)"
    by (simp add: s0(2) Codel_new_def ticks_params_def ShouldDrop_def OkToDrop_def codel_sojourn_def Let_def ticks_def)
  have i: "cfb_interval ?b = 100" by (simp add: Codel_Interval_def)
  obtain j where j: "j < 2" "time_plus ticks (fst (?xs ! j)) 100 \<le> 115"
    using codel_drops_sustained_overload [OF s0(1) r, of 2] i by auto
  then have "time_plus ticks ([10, 60, 115] ! j) 100 \<le> 115" by (cases j) (auto simp: less_Suc_eq numeral_eq_Suc)
  then show ?thesis using s0(1) r j(1) by blast
qed

subsection \<open>Single calls\<close>

lemma ShouldDrop_below:
  "codel_sojourn tm now enq < cf_target s \<Longrightarrow>
     ShouldDrop tm now enq s = (False, s\<lparr>cf_first_above_time := UnixEpoch tm, cf_dropping := False\<rparr>)"
  by (cases s) (simp add: ShouldDrop_def OkToDrop_def Let_def)

text \<open>
  The filter recovers at once: an item whose sojourn time is below the target is never
  dropped, whatever the state; the filter leaves drop mode and forgets that it was armed, and
  changes nothing else.
\<close>

lemma codel_recovers_below_target:
  assumes "codel_sojourn tm now enq < cf_target s"
  shows "ShouldDrop tm now enq s = (False, s\<lparr>cf_first_above_time := UnixEpoch tm, cf_dropping := False\<rparr>)"
  using assms by (rule ShouldDrop_below)

lemma codel_recovers_below_target_witness:
  "ShouldDrop ticks 103 100 ((Codel_new ticks ticks_params)\<lparr>cf_dropping := True, cf_first_above_time := 7\<rparr>)
     = (False, Codel_new ticks ticks_params)"
  using codel_recovers_below_target [of ticks 103 100
      "(Codel_new ticks ticks_params)\<lparr>cf_dropping := True, cf_first_above_time := 7\<rparr>"]
  by (simp add: codel_sojourn_def ticks_def Codel_new_def ticks_params_def)

lemma ShouldDrop_count:
  "ShouldDrop tm now enq s = (d, s') \<Longrightarrow> is_int64 (cf_drop_count s) \<Longrightarrow>
     cf_drop_count s' = wrap64 (cf_drop_count s + of_bool d)"
  by (auto simp: ShouldDrop_def OkToDrop_def Let_def split: if_splits)

lemma codel_run_count:
  assumes "codel_run tm xs s = (ds, s')" and "is_int64 (cf_drop_count s)"
  shows "cf_drop_count s' = wrap64 (cf_drop_count s + int (length (filter (\<lambda>d. d) ds)))"
  using assms
proof (induction xs arbitrary: s ds)
  case Nil
  then show ?case by simp
next
  case (Cons x xs)
  obtain now enq where x: "x = (now, enq)" by (cases x)
  obtain d s1 ds1 where r: "ShouldDrop tm now enq s = (d, s1)" "codel_run tm xs s1 = (ds1, s')" "ds = d # ds1"
    using Cons.prems(1) by (auto simp: x Let_def split: prod.splits)
  note c = ShouldDrop_count [OF r(1) Cons.prems(2)]
  have "cf_drop_count s' = wrap64 (cf_drop_count s1 + int (length (filter (\<lambda>d. d) ds1)))"
    using Cons.IH [OF r(2)] c by simp
  then show ?case using r(3) c by (simp add: algebra_simps)
qed

text \<open>
  The drop counter counts the drops: after any run of calls on a new filter it is the
  number of calls that said drop, modulo \<open>2 ^ 64\<close>.
\<close>

lemma codel_counts_drops:
  assumes "Codel_Build tm b = Inr s0" and "codel_run tm xs s0 = (ds, s)"
  shows "DropCount s = wrap64 (int (length (filter (\<lambda>d. d) ds)))"
  using codel_run_count [OF assms(2)] assms(1)
  by (auto simp: Codel_Build_def Codel_new_def DropCount_def is_int64_def split: if_splits)

theorem codel_counts_drops_witness:
  "\<exists>s0 s. Codel_Build ticks (Codel_Interval 100 (Codel_Target 5 (Codel_Builder ticks))) = Inr s0
    \<and> codel_run ticks [(10, 1), (115, 100)] s0 = ([False, True], s) \<and> DropCount s = 1"
proof -
  let ?b = "Codel_Interval 100 (Codel_Target 5 (Codel_Builder ticks))"
  obtain s0 where s0: "Codel_Build ticks ?b = Inr s0" "s0 = Codel_new ticks ticks_params"
    by (simp add: Codel_Build_def Codel_Interval_def Codel_Target_def Codel_Builder_def ticks_def ticks_params_def)
  obtain s where r: "codel_run ticks [(10, 1), (115, 100)] s0 = ([False, True], s)"
    by (simp add: s0(2) Codel_new_def ticks_params_def ShouldDrop_def OkToDrop_def codel_sojourn_def Let_def ticks_def)
  show ?thesis using codel_counts_drops [OF s0(1) r] s0(1) r by (auto simp: is_int64_def)
qed

lemma control_law_root:
  assumes "c \<noteq> (0 :: 32 word)"
  shows "\<exists>x. dsqrt (double_of_int (uint c)) = Fin x \<and> 1 \<le> x \<and> (c = 1 \<longrightarrow> x = 1)"
proof -
  have "uint c \<noteq> 0" using assms by (simp add: unsigned_eq_0_iff)
  moreover have "0 \<le> uint c" by simp
  ultimately have u: "1 \<le> uint c" by linarith
  have u2: "uint c < 2 ^ 32" using unsigned_less [of c] by simp
  have "c = 1 \<longrightarrow> sqrt_rnd (of_int (uint c)) = 1" using sqrt_rnd_bounds [OF u u2] by auto
  then show ?thesis using dsqrt_uint32 [OF u u2] sqrt_rnd_bounds(1) [OF u u2] by blast
qed

text \<open>
  The drop schedule: in drop mode an item is dropped only once the scheduled time has come;
  the next drop is then scheduled no earlier than that time and at most one interval after it,
  and the episode counter advances.
\<close>

lemma codel_schedule:
  assumes "absl_laws tm" and "ZeroDuration tm < cf_interval s" and "cf_dropping s"
    and "cf_count s + 1 \<noteq> 0" and "ShouldDrop tm now enq s = (True, s')"
  shows "DropNext s \<le> now \<and> DropEpisodeCount s' = DropEpisodeCount s + 1 \<and> IsDropping s'
    \<and> DropNext s \<le> DropNext s' \<and> DropNext s' \<le> time_plus tm (DropNext s) (cf_interval s)"
proof -
  obtain x where x: "dsqrt (double_of_int (uint (cf_count s + 1))) = Fin x" "1 \<le> x"
    using control_law_root [OF assms(4)] by blast
  let ?d = "dur_div tm (cf_interval s) (Fin x)"
  have d: "ZeroDuration tm \<le> ?d" "?d \<le> cf_interval s"
    using absl_laws.div_range [OF assms(1) _ x(2)] assms(2) by auto
  have s': "cf_drop_next s \<le> now \<and> cf_count s' = cf_count s + 1 \<and> cf_dropping s'
      \<and> cf_drop_next s' = time_plus tm (cf_drop_next s) ?d"
    using assms(3,5) x(1) by (auto simp: ShouldDrop_def OkToDrop_def ControlLaw_def Let_def split: if_splits)
  show ?thesis
    using s' absl_laws.plus_ge [OF assms(1) d(1)] absl_laws.plus_mono [OF assms(1) d(2)]
    by (simp add: DropNext_def DropEpisodeCount_def IsDropping_def)
qed

lemma codel_schedule_witness:
  "\<exists>s s'. ShouldDrop ticks 500 100 s = (True, s') \<and> IsDropping s \<and> DropNext s = 480
    \<and> 480 \<le> DropNext s' \<and> DropNext s' \<le> 580 \<and> DropEpisodeCount s' = 2"
proof -
  define s where "s = (Codel_new ticks ticks_params)\<lparr>cf_dropping := True, cf_first_above_time := 300,
    cf_drop_next := 480, cf_count := 1\<rparr>"
  have f: "ZeroDuration ticks < cf_interval s" "cf_dropping s" "cf_count s + 1 \<noteq> 0" "DropNext s = 480"
      "cf_interval s = 100" "DropEpisodeCount s = 1"
    by (simp_all add: s_def Codel_new_def ticks_params_def ticks_def DropNext_def DropEpisodeCount_def)
  obtain s' where d: "ShouldDrop ticks 500 100 s = (True, s')"
    by (simp add: s_def Codel_new_def ticks_params_def ShouldDrop_def OkToDrop_def codel_sojourn_def Let_def ticks_def)
  have "time_plus ticks 480 100 = 580" by (simp add: ticks_def)
  then show ?thesis
    using codel_schedule [OF ticks.absl_laws_axioms f(1-3) d] f d by (auto simp: IsDropping_def)
qed

text \<open>
  Entering drop mode: the first drop of an episode schedules the next one a full interval
  later and starts counting at one, unless an episode of more than two drops was under way less than
  sixteen intervals before, in which case counting resumes with the growth of that episode.
\<close>

lemma codel_enters_drop_mode:
  assumes "absl_laws tm" and "\<not> cf_dropping s" and "ShouldDrop tm now enq s = (True, s')"
  shows "IsDropping s' \<and> cf_lastcount s' = DropEpisodeCount s'
    \<and> (if 1 < cf_count s - cf_lastcount s \<and> time_minus tm now (DropNext s) < dur_times tm 16 (cf_interval s)
       then DropEpisodeCount s' = cf_count s - cf_lastcount s
         \<and> (ZeroDuration tm < cf_interval s \<longrightarrow> now \<le> DropNext s' \<and> DropNext s' \<le> time_plus tm now (cf_interval s))
       else DropEpisodeCount s' = 1 \<and> DropNext s' = time_plus tm now (cf_interval s))"
proof -
  let ?delta = "cf_count s - cf_lastcount s"
  have *: "cf_dropping s' \<and> cf_lastcount s' = cf_count s'
    \<and> cf_count s' = (if 1 < ?delta \<and> time_minus tm now (cf_drop_next s) < dur_times tm 16 (cf_interval s) then ?delta else 1)
    \<and> cf_drop_next s' = time_plus tm now (dur_div tm (cf_interval s) (dsqrt (double_of_int (uint (cf_count s')))))"
    using assms(2,3) by (auto simp: ShouldDrop_def OkToDrop_def ControlLaw_def Let_def split: if_splits)
  then have "cf_count s' \<noteq> 0" by (auto split: if_splits)
  then obtain x where x: "dsqrt (double_of_int (uint (cf_count s'))) = Fin x" "1 \<le> x" "cf_count s' = 1 \<longrightarrow> x = 1"
    using control_law_root by blast
  let ?d = "dur_div tm (cf_interval s) (Fin x)"
  have one: "cf_count s' = 1 \<longrightarrow> ?d = cf_interval s" using x(3) absl_laws.div_one [OF assms(1)] by auto
  have "ZeroDuration tm < cf_interval s \<longrightarrow> ZeroDuration tm \<le> ?d \<and> ?d \<le> cf_interval s"
    using absl_laws.div_range [OF assms(1) _ x(2)] by auto
  then have "ZeroDuration tm < cf_interval s \<longrightarrow>
      now \<le> time_plus tm now ?d \<and> time_plus tm now ?d \<le> time_plus tm now (cf_interval s)"
    using absl_laws.plus_ge [OF assms(1)] absl_laws.plus_mono [OF assms(1)] by auto
  then show ?thesis
    using * one x(1) by (auto simp: DropNext_def DropEpisodeCount_def IsDropping_def split: if_splits)
qed

theorem codel_enters_drop_mode_witness:
  "\<exists>s s'. ShouldDrop ticks 500 100 s = (True, s') \<and> \<not> IsDropping s \<and> IsDropping s' \<and> DropNext s' = 600
    \<and> DropEpisodeCount s' = 1"
proof -
  define s where "s = (Codel_new ticks ticks_params)\<lparr>cf_first_above_time := 300\<rparr>"
  have f: "\<not> cf_dropping s" "cf_interval s = 100" "cf_count s - cf_lastcount s = 0"
    by (simp_all add: s_def Codel_new_def ticks_params_def)
  obtain s' where d: "ShouldDrop ticks 500 100 s = (True, s')"
    by (simp add: s_def Codel_new_def ticks_params_def ShouldDrop_def OkToDrop_def codel_sojourn_def Let_def ticks_def)
  have "time_plus ticks 500 100 = 600" by (simp add: ticks_def)
  then show ?thesis
    using codel_enters_drop_mode [OF ticks.absl_laws_axioms f(1) d] f d by (auto simp: IsDropping_def)
qed

text \<open>The episode counter wraps: the drop after \<open>2 ^ 32 - 1\<close> schedules the next one by a division
  by zero.\<close>

lemma codel_episode_count_wraps:
  assumes "cf_count s = - 1" and "cf_dropping s" and "ShouldDrop tm now enq s = (True, s')"
  shows "DropEpisodeCount s' = 0 \<and> DropNext s' = time_plus tm (DropNext s) (dur_div tm (cf_interval s) (Fin 0))"
  using assms
  by (auto simp: ShouldDrop_def OkToDrop_def ControlLaw_def Let_def DropEpisodeCount_def DropNext_def is_int32_def
      split: if_splits)

end
