(* ===== verification/Quickstart.thy ===== *)
theory Quickstart
  imports Tracing Simple_Limiter Codel
begin

section \<open>Quickstart: the whole chain in one program\<close>

text \<open>
  \<^verbatim>\<open>examples/quickstart.cc\<close> wires the components as the README does: \<^verbatim>\<open>Gradient2Limit\<close> under
  \<^verbatim>\<open>WindowedLimit\<close> under \<^verbatim>\<open>SimpleLimiter\<close>, with a \<^verbatim>\<open>CodelFilter\<close> at the dequeue point, and runs a thousand
  requests one after the other. The program is modelled as it is written; what it reads from
  the outside, per request, is a \<open>reading\<close>: the two readings of the steady clock that the
  limiter makes, the two of the wall clock (the one the loop makes and the one inside
  \<^verbatim>\<open>ShouldDrop\<close>), and the spurious failures of the compare-and-swap. \<open>quick_main\<close> is the text the program
  prints, an error of a builder (which \<^verbatim>\<open>value()\<close> turns into termination) or undefined behaviour.
\<close>

subsection \<open>The program\<close>

record 't reading =
  rd_acquired :: int
  rd_enqueue :: 't
  rd_dequeue :: 't
  rd_completed :: int
  rd_fails :: "bool list"

type_synonym demo_limit = "(unit gradient2, sample_window) windowed"

record ('t, 'd) quick =
  qs_limiter :: "demo_limit abstract_limiter"
  qs_codel :: "('t, 'd) codel"
  qs_admitted :: int
  qs_rejected :: int
  qs_dropped :: int

definition demo_ops :: "bool list \<Rightarrow> (demo_limit abstract_limiter, unit) limiter_ops" where
  "demo_ops fails = Simple_ops (Windowed_ops SampleWindow_ops Gradient2_ops) fails"

definition demo_gradient2 :: "unit gradient2" where
  "demo_gradient2 = Gradient2_Build (Gradient2_Id ''demo'' (MaxConcurrency 200 (MinLimit 10 (InitialLimit 20 Gradient2_Builder))))"

definition demo_codel_builder :: "('t, 'd) absl_time \<Rightarrow> 'd codel_builder" where
  "demo_codel_builder tm =
     Codel_Id ''demo'' (Codel_Interval (Milliseconds tm 100) (Codel_Target (Milliseconds tm 5) (Codel_Builder tm)))"

text \<open>One iteration of the loop; the guard is destroyed at its end.\<close>

definition quick_request ::
  "('t::linorder, 'd::linorder) absl_time \<Rightarrow> 't reading \<Rightarrow> ('t, 'd) quick \<Rightarrow> ('t, 'd) quick res" where
  "quick_request tm r q =
     (let ops = demo_ops (rd_fails r) in
      bind_res (TryAcquire ops (rd_acquired r) ''demo'' (qs_limiter q)) (\<lambda>(slot, l).
      case slot of
        None \<Rightarrow> bind_res (chk32 (qs_rejected q + 1)) (\<lambda>n. Inr (q\<lparr>qs_limiter := l, qs_rejected := n\<rparr>))
      | Some slot \<Rightarrow>
        (case ShouldDrop tm (rd_dequeue r) (rd_enqueue r) (qs_codel q) of (should_drop, codel) \<Rightarrow>
         if should_drop then
           bind_res (SlotGuard_OnDropped ops (rd_completed r) slot l) (\<lambda>(slot, l, cs).
           bind_res (chk32 (qs_dropped q + 1)) (\<lambda>n.
           bind_res (SlotGuard_destroy ops (rd_completed r) slot l) (\<lambda>(l, cs).
           Inr (q\<lparr>qs_limiter := l, qs_codel := codel, qs_dropped := n\<rparr>))))
         else
           bind_res (SlotGuard_OnSuccess ops (rd_completed r) slot l) (\<lambda>(slot, l, cs).
           bind_res (chk32 (qs_admitted q + 1)) (\<lambda>n.
           bind_res (SlotGuard_destroy ops (rd_completed r) slot l) (\<lambda>(l, cs).
           Inr (q\<lparr>qs_limiter := l, qs_codel := codel, qs_admitted := n\<rparr>)))))))"

fun quick_loop ::
  "('t::linorder, 'd::linorder) absl_time \<Rightarrow> 't reading list \<Rightarrow> ('t, 'd) quick \<Rightarrow> ('t, 'd) quick res" where
  "quick_loop tm [] q = Inr q"
| "quick_loop tm (r # rs) q = bind_res (quick_request tm r q) (quick_loop tm rs)"

definition quick_report :: "('t, 'd) quick \<Rightarrow> string" where
  "quick_report q =
     ''admitted='' @ show_int (qs_admitted q) @ '' rejected='' @ show_int (qs_rejected q)
     @ '' dropped='' @ show_int (qs_dropped q) @ '' final_cap=''
     @ show_int (Limiter_GetLimit (Windowed_ops SampleWindow_ops Gradient2_ops) (qs_limiter q)) @ [CHR 0x0A]"

definition quick_main ::
  "('t::linorder, 'd::linorder) absl_time \<Rightarrow> (nat \<Rightarrow> 't reading) \<Rightarrow> status + string res" where
  "quick_main tm readings =
     (case Windowed_Build Windowed_Builder demo_gradient2 of
        Inl e \<Rightarrow> Inl e
      | Inr windowed \<Rightarrow>
        (case Simple_Build (Simple_Id ''demo'' (Simple_Limit (Some windowed) Simple_Builder)) of
           Inl e \<Rightarrow> Inl e
         | Inr limiter \<Rightarrow>
           (case Codel_Build tm (demo_codel_builder tm) of
              Inl e \<Rightarrow> Inl e
            | Inr codel \<Rightarrow>
              Inr (bind_res
                (quick_loop tm (map readings [0 ..< 1000])
                  \<lparr>qs_limiter = limiter, qs_codel = codel, qs_admitted = 0, qs_rejected = 0, qs_dropped = 0\<rparr>)
                (\<lambda>q. Inr (quick_report q))))))"

subsection \<open>One sample of a lone request\<close>

text \<open>
  With one request at a time every sample carries an in-flight count of one, below half the
  estimate of twenty: whatever the windows aggregate, the adaptive limit stays where it is.
\<close>

definition demo_limit_ok :: "demo_limit \<Rightarrow> nat \<Rightarrow> demo_limit \<Rightarrow> bool" where
  "demo_limit_ok cfg n w \<longleftrightarrow>
     (\<exists>a. win_rel dyn_ok dyn_holds dyn_track cfg average_of w a \<and> g2_inv (ws_delegate a)
        \<and> g2_estimated_limit (ws_delegate a) = Fin 20 \<and> m_limit (ws_delegate a) = 20
        \<and> (\<forall>(r, i, d) \<in> set (ws_pending a). i = 1) \<and> length (ws_pending a) \<le> n)"

lemma window_max_ones:
  assumes "\<forall>(r, i, d) \<in> set xs. i = 1"
  shows "window_max (xs @ [(r, 1, d)]) = 1"
proof -
  have "0 \<le> window_max xs \<and> window_max xs \<le> 1" using assms
    by (induction xs rule: rev_induct) auto
  then show ?thesis by simp
qed

lemma demo_spec_sample:
  assumes "g2_inv (ws_delegate a)" and "g2_estimated_limit (ws_delegate a) = Fin 20" and "m_limit (ws_delegate a) = 20"
    and "\<forall>(r, i, d) \<in> set (ws_pending a). i = 1"
  shows "\<exists>a' cs. spec_sample cfg tr Gradient2_ops t r 1 d a = Inr (a', cs) \<and> g2_inv (ws_delegate a')
    \<and> g2_estimated_limit (ws_delegate a') = Fin 20 \<and> m_limit (ws_delegate a') = 20
    \<and> (\<forall>(r, i, d) \<in> set (ws_pending a'). i = 1)"
proof -
  obtain l where "OnSample Gradient2_ops t (tr (ws_pending a @ [(r, 1, d)])) 1 (window_drop (ws_pending a @ [(r, 1, d)]))
      (ws_delegate a) = Inr (l, [])" "g2_inv l" "g2_estimated_limit l = Fin 20" "m_limit l = 20"
    using Gradient2_app_limited [OF assms(1,2), of 1 t "tr (ws_pending a @ [(r, 1, d)])" "window_drop (ws_pending a @ [(r, 1, d)])"]
      assms(2,3) by (auto simp: is_int32_def)
  then show ?thesis using assms window_max_ones [OF assms(4), of r d] by (auto simp: spec_sample_def Let_def)
qed

lemma demo_sample:
  assumes "demo_limit_ok cfg n w" and "wl_config_ok cfg" and "tame cfg (t, r, 1, d)" and "int n < INT_MAX"
  shows "\<exists>w' cs. OnSample (Windowed_ops SampleWindow_ops Gradient2_ops) t r 1 d w = Inr (w', cs) \<and> demo_limit_ok cfg (Suc n) w'"
proof -
  obtain a where a: "win_rel dyn_ok dyn_holds dyn_track cfg average_of w a" "g2_inv (ws_delegate a)"
      "g2_estimated_limit (ws_delegate a) = Fin 20" "m_limit (ws_delegate a) = 20"
      "\<forall>(r, i, d) \<in> set (ws_pending a). i = 1" "length (ws_pending a) \<le> n"
    using assms(1) by (auto simp: demo_limit_ok_def)
  obtain a' cs where a': "spec_sample cfg average_of Gradient2_ops t r 1 d a = Inr (a', cs)" "g2_inv (ws_delegate a')"
      "g2_estimated_limit (ws_delegate a') = Fin 20" "m_limit (ws_delegate a') = 20"
      "\<forall>(r, i, d) \<in> set (ws_pending a'). i = 1"
    using demo_spec_sample [OF a(2-5)] by blast
  have "int (length (ws_pending a)) < INT_MAX" using a(6) assms(4) by linarith
  then have "res_rel (win_rel dyn_ok dyn_holds dyn_track cfg average_of)
      (Windowed_OnSample SampleWindow_ops Gradient2_ops t r 1 d w) (Inr (a', cs))"
    using windowed_gradient2.refines_sample [OF a(1) assms(2,3)] a'(1) by simp
  then obtain w' where "Windowed_OnSample SampleWindow_ops Gradient2_ops t r 1 d w = Inr (w', cs)"
      "win_rel dyn_ok dyn_holds dyn_track cfg average_of w' a'"
    by (cases "Windowed_OnSample SampleWindow_ops Gradient2_ops t r 1 d w") auto
  moreover have "length (ws_pending a') \<le> Suc n"
    using windowed_gradient2.spec_sample_pending [OF a'(1)] a(6) by linarith
  ultimately show ?thesis using a'(2-5) by (auto simp: Windowed_ops_def demo_limit_ok_def)
qed

lemma demo_limit_cap: "demo_limit_ok cfg n w \<Longrightarrow> GetLimit (Windowed_ops SampleWindow_ops Gradient2_ops) w = 20"
  by (auto simp: demo_limit_ok_def win_rel_def Windowed_ops_def)

subsection \<open>The loop\<close>

text \<open>What a run has to read: steady clock readings that do not go back and stay within 64 bits
  together with the longest window, and a dequeue less than the target after the enqueue.\<close>

definition reading_ok :: "('t, 'd::linorder) absl_time \<Rightarrow> 't reading \<Rightarrow> bool" where
  "reading_ok tm r \<longleftrightarrow> 0 \<le> rd_acquired r \<and> rd_acquired r \<le> rd_completed r \<and> rd_completed r \<le> 2 ^ 61
     \<and> time_minus tm (rd_dequeue r) (rd_enqueue r) < Milliseconds tm 5"

definition demo_ok :: "('t, 'd) absl_time \<Rightarrow> demo_limit \<Rightarrow> nat \<Rightarrow> ('t, 'd) quick \<Rightarrow> bool" where
  "demo_ok tm cfg n q \<longleftrightarrow> demo_limit_ok cfg n (al_limit (qs_limiter q)) \<and> al_inflight (qs_limiter q) = 0
     \<and> al_bypass_predicate (qs_limiter q) = None \<and> cf_target (qs_codel q) = Milliseconds tm 5
     \<and> qs_admitted q = int n \<and> qs_rejected q = 0 \<and> qs_dropped q = 0"

lemma demo_completes:
  assumes "demo_limit_ok cfg n (al_limit l)" and "al_inflight l = 1" and "wl_config_ok cfg"
    and "tame cfg (t, t' - t, 1, False)" and "int n < INT_MAX"
  shows "\<exists>l' cs. SlotGuard_OnSuccess (demo_ops fails) t' (MakeSlot t 1 False (- 1)) l
      = Inr ((MakeSlot t 1 False (- 1))\<lparr>sg_completed := True\<rparr>, l', cs)
    \<and> demo_limit_ok cfg (Suc n) (al_limit l') \<and> al_inflight l' = 0 \<and> al_bypass_predicate l' = al_bypass_predicate l"
proof -
  obtain w cs where w: "OnSample (Windowed_ops SampleWindow_ops Gradient2_ops) t (t' - t) 1 False (al_limit l) = Inr (w, cs)"
      "demo_limit_ok cfg (Suc n) w"
    using demo_sample [OF assms(1,3,4,5)] by blast
  have "is_int64 (t' - t)" using assms(4) by (simp add: tame_def)
  then show ?thesis
    using w assms(2)
    by (simp add: SlotGuard_OnSuccess_def SlotGuard_Complete_def SlotGuard_notify_def demo_ops_def Simple_ops_def AbstractLimiter_ops_def
        AbstractLimiter_OnSlotComplete_def AbstractLimiter_OnReleasePartition_def MakeSlot_def count_outcome_def chk64_ok is_int32_def Let_def)
qed

lemma quick_request_admits:
  assumes "demo_ok tm cfg n q" and "wl_config_ok cfg" and "wl_max_window_time_ns cfg \<le> 2 ^ 61"
    and "reading_ok tm r" and "ZeroDuration tm < Milliseconds tm 5" and "int n < INT_MAX"
  shows "\<exists>q'. quick_request tm r q = Inr q' \<and> demo_ok tm cfg (Suc n) q'"
proof -
  let ?l = "(qs_limiter q)\<lparr>al_inflight := 1\<rparr>" and ?g = "MakeSlot (rd_acquired r) 1 False (- 1)"
  have q: "demo_limit_ok cfg n (al_limit (qs_limiter q))" "al_inflight (qs_limiter q) = 0"
      "al_bypass_predicate (qs_limiter q) = None" "cf_target (qs_codel q) = Milliseconds tm 5"
      "qs_admitted q = int n" "qs_rejected q = 0" "qs_dropped q = 0"
    using assms(1) by (simp_all add: demo_ok_def)
  have acq: "TryAcquire (demo_ops (rd_fails r)) (rd_acquired r) ''demo'' (qs_limiter q) = Inr (Some ?g, ?l)"
    using Simple_TryAcquire [OF q(3), of "Windowed_ops SampleWindow_ops Gradient2_ops"] q(2) demo_limit_cap [OF q(1)]
    by (simp add: demo_ops_def is_int32_def)
  have "codel_sojourn tm (rd_dequeue r) (rd_enqueue r) < cf_target (qs_codel q)"
    using assms(4,5) q(4) by (simp add: codel_sojourn_def reading_ok_def)
  note drop = ShouldDrop_below [OF this]
  have "tame cfg (rd_acquired r, rd_completed r - rd_acquired r, 1, False)"
    using assms(2,3,4) by (simp add: tame_def reading_ok_def is_int32_def is_int64_def wl_config_ok_def)
  with demo_completes [of cfg n ?l] q(1) assms(2,6) obtain l' cs where
    l': "SlotGuard_OnSuccess (demo_ops (rd_fails r)) (rd_completed r) ?g ?l = Inr (?g\<lparr>sg_completed := True\<rparr>, l', cs)"
      "demo_limit_ok cfg (Suc n) (al_limit l')" "al_inflight l' = 0" "al_bypass_predicate l' = None"
    using q(3) by fastforce
  have "is_int32 (int n + 1)" using assms(6) by (simp add: is_int32_def)
  then show ?thesis using acq drop l' q
    by (simp add: quick_request_def SlotGuard_destroy_def demo_ok_def chk32_ok)
qed

lemma quick_loop_admits:
  assumes "demo_ok tm cfg n q" and "wl_config_ok cfg" and "wl_max_window_time_ns cfg \<le> 2 ^ 61"
    and "ZeroDuration tm < Milliseconds tm 5" and "\<forall>r \<in> set rs. reading_ok tm r" and "int (n + length rs) \<le> INT_MAX"
  shows "\<exists>q'. quick_loop tm rs q = Inr q' \<and> demo_ok tm cfg (n + length rs) q'"
  using assms(1,5,6)
proof (induction rs arbitrary: n q)
  case Nil
  then show ?case by simp
next
  case (Cons r rs)
  obtain q' where "quick_request tm r q = Inr q'" "demo_ok tm cfg (Suc n) q'"
    using quick_request_admits [OF Cons.prems(1) assms(2,3) _ assms(4)] Cons.prems(2,3) by fastforce
  then show ?case using Cons.IH [of "Suc n" q'] Cons.prems(2,3) by simp
qed

lemma demo_starts:
  assumes "ZeroDuration tm < Milliseconds tm 5" and "ZeroDuration tm < Milliseconds tm 100"
  obtains windowed limiter codel where "Windowed_Build Windowed_Builder demo_gradient2 = Inr windowed"
    and "Simple_Build (Simple_Id ''demo'' (Simple_Limit (Some windowed) Simple_Builder)) = Inr limiter"
    and "Codel_Build tm (demo_codel_builder tm) = Inr codel"
    and "wl_config_ok windowed" and "wl_max_window_time_ns windowed \<le> 2 ^ 61"
    and "demo_ok tm windowed 0
      \<lparr>qs_limiter = limiter, qs_codel = codel, qs_admitted = 0, qs_rejected = 0, qs_dropped = 0\<rparr>"
proof -
  let ?b = "Gradient2_Id ''demo'' (MaxConcurrency 200 (MinLimit 10 (InitialLimit 20 Gradient2_Builder)))"
  obtain windowed where w: "Windowed_Build Windowed_Builder demo_gradient2 = Inr windowed"
      "wl_max_window_time_ns windowed = 1000000000"
    by (auto simp: Windowed_Build_def Windowed_Builder_def Windowed_new_def)
  have "gb_ok ?b"
    using Gradient2_Builder_ok
    by (simp add: gb_ok_def Gradient2_Id_def MaxConcurrency_def MinLimit_def InitialLimit_def is_int32_def)
  then have g: "g2_inv demo_gradient2" "g2_estimated_limit demo_gradient2 = Fin 20" "m_limit demo_gradient2 = 20"
    using Gradient2_Build_inv [of ?b]
    by (simp_all add: demo_gradient2_def Gradient2_Id_def MaxConcurrency_def MinLimit_def InitialLimit_def is_int32_def)
  have "win_rel dyn_ok dyn_holds dyn_track windowed average_of windowed \<lparr>ws_delegate = demo_gradient2, ws_pending = [], ws_due = 0\<rparr>"
    by (rule Windowed_Build_rel [OF w(1)]) (simp add: Windowed_Builder_def)
  then have "demo_limit_ok windowed 0 windowed"
    unfolding demo_limit_ok_def
    by (intro exI [of _ "\<lparr>ws_delegate = demo_gradient2, ws_pending = [], ws_due = 0\<rparr>"]) (simp add: g)
  moreover have "Codel_Build tm (demo_codel_builder tm) = Inr (Codel_new tm
      \<lparr>cp_target = Milliseconds tm 5, cp_interval = Milliseconds tm 100, cp_clock = AbslNow, cp_id = ''demo'',
       cp_meter_provider = False\<rparr>)"
    using assms
    by (simp add: Codel_Build_def demo_codel_builder_def Codel_Id_def Codel_Interval_def Codel_Target_def Codel_Builder_def not_le)
  moreover have "Simple_Build (Simple_Id ''demo'' (Simple_Limit (Some windowed) Simple_Builder))
      = Inr (AbstractLimiter_new windowed ''demo'' None False)"
    by (simp add: Simple_Build_def Simple_Id_def Simple_Limit_def Simple_Builder_def)
  ultimately show ?thesis
    using that [OF w(1)] w(2) Windowed_Build_ok(1) [OF w(1)]
    by (simp add: AbstractLimiter_new_def Codel_new_def demo_ok_def)
qed

lemma quick_prints:
  assumes "ZeroDuration tm < Milliseconds tm 5" and "ZeroDuration tm < Milliseconds tm 100"
    and "\<forall>i < 1000. reading_ok tm (readings i)"
  shows "quick_main tm readings = Inr (Inr (''admitted=1000 rejected=0 dropped=0 final_cap=20'' @ [CHR 0x0A]))"
proof -
  obtain windowed limiter codel where b: "Windowed_Build Windowed_Builder demo_gradient2 = Inr windowed"
    "Simple_Build (Simple_Id ''demo'' (Simple_Limit (Some windowed) Simple_Builder)) = Inr limiter"
    "Codel_Build tm (demo_codel_builder tm) = Inr codel"
    "wl_config_ok windowed" "wl_max_window_time_ns windowed \<le> 2 ^ 61"
    and q0: "demo_ok tm windowed 0
      \<lparr>qs_limiter = limiter, qs_codel = codel, qs_admitted = 0, qs_rejected = 0, qs_dropped = 0\<rparr>"
    by (rule demo_starts [OF assms(1,2)])
  have "\<forall>r \<in> set (map readings [0 ..< 1000]). reading_ok tm r" using assms(3) by auto
  then obtain q where q: "quick_loop tm (map readings [0 ..< 1000])
      \<lparr>qs_limiter = limiter, qs_codel = codel, qs_admitted = 0, qs_rejected = 0, qs_dropped = 0\<rparr> = Inr q"
      "demo_ok tm windowed 1000 q"
    using quick_loop_admits [OF q0 b(4,5) assms(1), of "map readings [0 ..< 1000]"] by auto
  then have "quick_report q = ''admitted=1000 rejected=0 dropped=0 final_cap=20'' @ [CHR 0x0A]"
    using demo_limit_cap [of windowed 1000 "al_limit (qs_limiter q)"]
    by (simp add: quick_report_def demo_ok_def Limiter_GetLimit_def show_int_def show_nat.simps digit_def)
  then show ?thesis using q(1) by (simp add: quick_main_def b)
qed

end
