(* ===== verification/Partitioned.thy ===== *)
theory Partitioned
  imports Limiter_Core Gradient2
begin

section \<open>Partitioned: named percentage quotas\<close>

text \<open>
  \<^verbatim>\<open>AbstractPartitionedLimiter\<close> (\<^verbatim>\<open>abstract_partitioned_limiter.h\<close>,
  \<^verbatim>\<open>abstract_partitioned_limiter.cc\<close>) with its \<^verbatim>\<open>Partition\<close> (\<^verbatim>\<open>partition.h\<close>): the builder and its
  validation, resolution of a context to a partition, the burst-into-idle gate, the release of
  a partition slot, the recomputation of quotas when the cap changes, the reject-delay budget
  and the rows its instruments emit.

  The limiter registers a callback with its limit: its identity is the argument \<open>self\<close>, and
  \<open>deliver\<close> runs it for each invocation the limit makes. Resolvers and the sleep function are
  code of the application. \<open>sleep_fn\<close> says which sleep function is installed, the default one
  (\<^verbatim>\<open>std::this_thread::sleep_for\<close>) or one of the application, and \<open>pl_slept\<close> keeps its calls
  with their arguments, in order. The error
  messages that contain a number are built by Abseil's \<^verbatim>\<open>StrCat\<close>, whose rendering of numbers
  is the argument \<open>StrCat\<close>. A percentage that is not a number passes the validation, and the
  conversion of the quota computed from it is undefined, so \<open>Partitioned_Build\<close> is a result.
\<close>

subsection \<open>State\<close>

record partition =
  pt_name :: string
  pt_percent :: double
  pt_reject_delay :: int
  pt_busy :: int
  pt_limit :: int

definition Partition_new :: "string \<Rightarrow> double \<Rightarrow> int \<Rightarrow> partition" where
  "Partition_new n p delay = \<lparr>pt_name = n, pt_percent = p, pt_reject_delay = delay, pt_busy = 0, pt_limit = 0\<rparr>"

datatype sleep_fn = DefaultSleepFn | SleepFn nat

record 'l partitioned = "'l abstract_limiter" +
  pl_partitions :: "partition list"
  pl_partition_index_by_name :: "string \<rightharpoonup> int"
  pl_partition_resolvers :: "(string \<Rightarrow> string option) list"
  pl_unknown_partition_index :: int
  pl_max_delayed_threads :: int
  pl_delayed_threads :: int
  pl_sleep_fn :: sleep_fn
  pl_slept :: "(sleep_fn \<times> int) list"

definition kUnknownPartitionName :: string where
  "kUnknownPartitionName = ''unknown''"

definition ComputePartitionLimit :: "int \<Rightarrow> double \<Rightarrow> int res" where
  "ComputePartitionLimit global_limit percent =
     bind_res (int_of_double (dceil (dmul (double_of_int global_limit) percent))) (\<lambda>computed. Inr (max 1 computed))"

fun recompute_from :: "int \<Rightarrow> partition list \<Rightarrow> partition list res" where
  "recompute_from new_global_limit [] = Inr []"
| "recompute_from new_global_limit (part # parts) =
     bind_res (ComputePartitionLimit new_global_limit (pt_percent part)) (\<lambda>l.
     bind_res (recompute_from new_global_limit parts) (\<lambda>parts'. Inr (part\<lparr>pt_limit := l\<rparr> # parts')))"

definition RecomputePartitionLimits :: "int \<Rightarrow> 'l partitioned \<Rightarrow> 'l partitioned res" where
  "RecomputePartitionLimits new_global_limit s =
     bind_res (recompute_from new_global_limit (pl_partitions s)) (\<lambda>parts. Inr (s\<lparr>pl_partitions := parts\<rparr>))"

text \<open>The invocations of change callbacks made by the limit, those of \<open>self\<close> run in order.\<close>

fun deliver :: "'cb \<Rightarrow> ('cb \<times> int) list \<Rightarrow> 'l partitioned \<Rightarrow> 'l partitioned res" where
  "deliver self [] s = Inr s"
| "deliver self ((cb, n) # cs) s =
     bind_res (if cb = self then RecomputePartitionLimits n s else Inr s) (deliver self cs)"

definition Partitioned_new ::
  "('l, 'cb) limit_ops \<Rightarrow> 'cb \<Rightarrow> 'l abstract_limiter \<Rightarrow> partition list \<Rightarrow> (string \<rightharpoonup> int) \<Rightarrow>
   (string \<Rightarrow> string option) list \<Rightarrow> int \<Rightarrow> int \<Rightarrow> sleep_fn \<Rightarrow> 'l partitioned res" where
  "Partitioned_new lops self params parts index_by_name resolvers unknown_index max_delayed_threads sleep_fn =
     (let s = abstract_limiter.extend params
            \<lparr>pl_partitions = parts, pl_partition_index_by_name = index_by_name,
             pl_partition_resolvers = resolvers, pl_unknown_partition_index = unknown_index,
             pl_max_delayed_threads = max_delayed_threads, pl_delayed_threads = 0,
             pl_sleep_fn = sleep_fn, pl_slept = []\<rparr>
      in bind_res (RecomputePartitionLimits (Limiter_GetLimit lops s) s) (\<lambda>s.
         Inr (RegisterLimitChangeCallback lops self s)))"

subsection \<open>Builder\<close>

record partition_spec =
  ps_name :: string
  ps_percent :: double
  ps_reject_delay :: int

record 'l partitioned_builder =
  pb_limit :: "'l option"
  pb_id :: string
  pb_bypass_predicate :: "(string \<Rightarrow> bool) option"
  pb_meter_provider :: bool
  pb_partition_specs :: "partition_spec list"
  pb_pending_reject_delays :: "(string \<times> int) list"
  pb_partition_resolvers :: "(string \<Rightarrow> string option) option list"
  pb_max_delayed_threads :: int
  pb_sleep_fn :: "sleep_fn option"

definition Partitioned_Builder :: "'l partitioned_builder" where
  "Partitioned_Builder =
     \<lparr>pb_limit = None, pb_id = [], pb_bypass_predicate = None, pb_meter_provider = False,
      pb_partition_specs = [], pb_pending_reject_delays = [], pb_partition_resolvers = [],
      pb_max_delayed_threads = 100, pb_sleep_fn = None\<rparr>"

definition Partitioned_Limit :: "'l option \<Rightarrow> 'l partitioned_builder \<Rightarrow> 'l partitioned_builder" where
  "Partitioned_Limit limit b = b\<lparr>pb_limit := limit\<rparr>"

definition Partitioned_Id :: "string \<Rightarrow> 'l partitioned_builder \<Rightarrow> 'l partitioned_builder" where
  "Partitioned_Id i b = b\<lparr>pb_id := i\<rparr>"

definition Partitioned_BypassPredicate ::
  "(string \<Rightarrow> bool) option \<Rightarrow> 'l partitioned_builder \<Rightarrow> 'l partitioned_builder" where
  "Partitioned_BypassPredicate p b = b\<lparr>pb_bypass_predicate := p\<rparr>"

definition Partitioned_MeterProvider :: "bool \<Rightarrow> 'l partitioned_builder \<Rightarrow> 'l partitioned_builder" where
  "Partitioned_MeterProvider provider b = b\<lparr>pb_meter_provider := provider\<rparr>"

text \<open>\<^verbatim>\<open>FindOrAddPartitionSpec\<close> returns a reference, through which \<^verbatim>\<open>Partition\<close> stores the
  percentage: the update is passed as a function.\<close>

fun FindOrAddPartitionSpec ::
  "string \<Rightarrow> (partition_spec \<Rightarrow> partition_spec) \<Rightarrow> partition_spec list \<Rightarrow> partition_spec list" where
  "FindOrAddPartitionSpec name f [] = [f \<lparr>ps_name = name, ps_percent = Fin 0, ps_reject_delay = 0\<rparr>]"
| "FindOrAddPartitionSpec name f (spec # specs) =
     (if ps_name spec = name then f spec # specs else spec # FindOrAddPartitionSpec name f specs)"

definition Builder_Partition :: "string \<Rightarrow> double \<Rightarrow> 'l partitioned_builder \<Rightarrow> 'l partitioned_builder" where
  "Builder_Partition name percent b =
     b\<lparr>pb_partition_specs := FindOrAddPartitionSpec name (ps_percent_update (\<lambda>_. percent)) (pb_partition_specs b)\<rparr>"

definition PartitionRejectDelay :: "string \<Rightarrow> int \<Rightarrow> 'l partitioned_builder \<Rightarrow> 'l partitioned_builder" where
  "PartitionRejectDelay name delay b =
     b\<lparr>pb_pending_reject_delays := pb_pending_reject_delays b @ [(name, delay)]\<rparr>"

definition PartitionResolver ::
  "(string \<Rightarrow> string option) option \<Rightarrow> 'l partitioned_builder \<Rightarrow> 'l partitioned_builder" where
  "PartitionResolver resolver b = b\<lparr>pb_partition_resolvers := pb_partition_resolvers b @ [resolver]\<rparr>"

definition MaxDelayedThreads :: "int \<Rightarrow> 'l partitioned_builder \<Rightarrow> 'l partitioned_builder" where
  "MaxDelayedThreads m b = b\<lparr>pb_max_delayed_threads := m\<rparr>"

definition SleepFor :: "sleep_fn option \<Rightarrow> 'l partitioned_builder \<Rightarrow> 'l partitioned_builder" where
  "SleepFor f b = b\<lparr>pb_sleep_fn := f\<rparr>"

datatype number = Double double | Size nat

fun check_specs :: "(number \<Rightarrow> string) \<Rightarrow> partition_spec list \<Rightarrow> status option" where
  "check_specs StrCat [] = None"
| "check_specs StrCat (spec # specs) =
     (if ps_name spec = [] then Some (InvalidArgument ''Partition name must not be empty'')
      else if ps_name spec = kUnknownPartitionName then
        Some (InvalidArgument (''Partition name '' @ [CHR 0x22] @ ''unknown'' @ [CHR 0x22] @
          '' is reserved for the synthetic fallback used when no resolver matches''))
      else if dless (ps_percent spec) (Fin 0) \<or> dless (Fin 1) (ps_percent spec) then
        Some (InvalidArgument (''Partition '' @ [CHR 0x22] @ ps_name spec @ [CHR 0x22] @
          '' percentage must be in [0, 1]; got '' @ StrCat (Double (ps_percent spec))))
      else check_specs StrCat specs)"

definition percent_sum :: "partition_spec list \<Rightarrow> double" where
  "percent_sum specs = foldl (\<lambda>sum spec. dadd sum (ps_percent spec)) (Fin 0) specs"

fun set_reject_delay :: "string \<Rightarrow> int \<Rightarrow> partition_spec list \<Rightarrow> partition_spec list option" where
  "set_reject_delay name delay [] = None"
| "set_reject_delay name delay (s # specs) =
     (if ps_name s = name then Some (s\<lparr>ps_reject_delay := delay\<rparr> # specs)
      else map_option ((#) s) (set_reject_delay name delay specs))"

fun resolve_delays :: "(string \<times> int) list \<Rightarrow> partition_spec list \<Rightarrow> status + partition_spec list" where
  "resolve_delays [] specs = Inr specs"
| "resolve_delays ((name, delay) # pending) specs =
     (case set_reject_delay name delay specs of
        None \<Rightarrow> Inl (InvalidArgument (''PartitionRejectDelay names undeclared partition '' @ [CHR 0x22] @
                  name @ [CHR 0x22]))
      | Some specs' \<Rightarrow> resolve_delays pending specs')"

fun check_resolvers ::
  "(number \<Rightarrow> string) \<Rightarrow> nat \<Rightarrow> (string \<Rightarrow> string option) option list \<Rightarrow> status + (string \<Rightarrow> string option) list" where
  "check_resolvers StrCat i [] = Inr []"
| "check_resolvers StrCat i (None # rs) =
     Inl (InvalidArgument (''PartitionResolver at index '' @ StrCat (Size i) @ '' is null''))"
| "check_resolvers StrCat i (Some r # rs) =
     bind_res (check_resolvers StrCat (Suc i) rs) (\<lambda>rs'. Inr (r # rs'))"

fun index_names :: "nat \<Rightarrow> partition_spec list \<Rightarrow> (string \<rightharpoonup> int) \<Rightarrow> (string \<rightharpoonup> int)" where
  "index_names i [] m = m"
| "index_names i (spec # specs) m = index_names (Suc i) specs (m(ps_name spec \<mapsto> int i))"

definition Partitioned_validate ::
  "(number \<Rightarrow> string) \<Rightarrow> 'l partitioned_builder \<Rightarrow>
   status + ('l \<times> partition_spec list \<times> (string \<Rightarrow> string option) list)" where
  "Partitioned_validate StrCat b =
     (case pb_limit b of
        None \<Rightarrow> Inl (InvalidArgument ''AbstractPartitionedLimiter requires Limit()'')
      | Some limit \<Rightarrow>
        if pb_partition_specs b = [] then
          Inl (InvalidArgument ''AbstractPartitionedLimiter requires at least one Partition()'')
        else if pb_partition_resolvers b = [] then
          Inl (InvalidArgument ''AbstractPartitionedLimiter requires at least one PartitionResolver()'')
        else if pb_max_delayed_threads b < 0 then
          Inl (InvalidArgument ''AbstractPartitionedLimiter MaxDelayedThreads must be non-negative'')
        else
          case check_specs StrCat (pb_partition_specs b) of
            Some e \<Rightarrow> Inl e
          | None \<Rightarrow>
            let sum = percent_sum (pb_partition_specs b) in
            if dless (dadd (Fin 1) (to_double (1 / 10 ^ 9))) sum then
              Inl (InvalidArgument (''Sum of partition percentages must be <= 1.0; got '' @ StrCat (Double sum)))
            else
              bind_res (resolve_delays (pb_pending_reject_delays b) (pb_partition_specs b)) (\<lambda>specs.
              bind_res (check_resolvers StrCat 0 (pb_partition_resolvers b)) (\<lambda>resolvers.
              Inr (limit, specs, resolvers))))"

definition Partitioned_Build ::
  "(number \<Rightarrow> string) \<Rightarrow> ('l, 'cb) limit_ops \<Rightarrow> 'cb \<Rightarrow> 'l partitioned_builder \<Rightarrow> (status + 'l partitioned) res" where
  "Partitioned_Build StrCat lops self b =
     (case Partitioned_validate StrCat b of
        Inl e \<Rightarrow> Inr (Inl e)
      | Inr (limit, specs, resolvers) \<Rightarrow>
        let parts = map (\<lambda>spec. Partition_new (ps_name spec) (ps_percent spec) (ps_reject_delay spec)) specs;
            unknown_index = int (length parts);
            names = (index_names 0 specs Map.empty)(kUnknownPartitionName \<mapsto> unknown_index);
            parts = parts @ [Partition_new kUnknownPartitionName (Fin 0) 0];
            sleep_fn = (case pb_sleep_fn b of None \<Rightarrow> DefaultSleepFn | Some f \<Rightarrow> f)
        in bind_res (Partitioned_new lops self
             (AbstractLimiter_new limit (pb_id b) (pb_bypass_predicate b) (pb_meter_provider b))
             parts names resolvers unknown_index (pb_max_delayed_threads b) sleep_fn) (\<lambda>s. Inr (Inr s)))"

subsection \<open>Operations\<close>

definition PartitionInflightCount :: "string \<Rightarrow> 'l partitioned \<Rightarrow> int res" where
  "PartitionInflightCount name s =
     (case pl_partition_index_by_name s name of
        None \<Rightarrow> Inr (- 1)
      | Some i \<Rightarrow> bind_res (load_at (pl_partitions s) i) (\<lambda>part. Inr (pt_busy part)))"

definition PartitionLimitFor :: "string \<Rightarrow> 'l partitioned \<Rightarrow> int res" where
  "PartitionLimitFor name s =
     (case pl_partition_index_by_name s name of
        None \<Rightarrow> Inr 0
      | Some i \<Rightarrow> bind_res (load_at (pl_partitions s) i) (\<lambda>part. Inr (pt_limit part)))"

definition DelayedThreadCount :: "'l partitioned \<Rightarrow> int" where
  "DelayedThreadCount s = pl_delayed_threads s"

fun resolve_with :: "(string \<Rightarrow> string option) list \<Rightarrow> (string \<rightharpoonup> int) \<Rightarrow> int \<Rightarrow> string \<Rightarrow> int" where
  "resolve_with [] names unknown context = unknown"
| "resolve_with (resolver # resolvers) names unknown context =
     (case resolver context of
        None \<Rightarrow> resolve_with resolvers names unknown context
      | Some name \<Rightarrow>
        (case names name of
           None \<Rightarrow> resolve_with resolvers names unknown context
         | Some i \<Rightarrow> i))"

definition ResolvePartition :: "string \<Rightarrow> 'l partitioned \<Rightarrow> int" where
  "ResolvePartition context s =
     resolve_with (pl_partition_resolvers s) (pl_partition_index_by_name s) (pl_unknown_partition_index s) context"

text \<open>The compare-and-swap loop that reserves a slot below a bound, run alone with spurious
  failures \<open>fails\<close>; \<open>None\<close> if there was no slot, otherwise the value stored.\<close>

function cas_below :: "bool list \<Rightarrow> int \<Rightarrow> int \<Rightarrow> int \<Rightarrow> int option res" where
  "cas_below fails bound current actual =
     (if bound \<le> current then Inr None
      else
        bind_res (chk32 (current + 1)) (\<lambda>next.
        if actual = current \<and> \<not> (fails \<noteq> [] \<and> hd fails) then Inr (Some next)
        else cas_below (tl fails) bound actual actual))"
  by auto
termination
  by (relation "measure (\<lambda>(fails, bound, current, actual). 2 * length fails + (if actual = current then 0 else 1))")
     (auto simp: neq_Nil_conv)

declare cas_below.simps [simp del]

definition MaybeBackoffDelay :: "bool list \<Rightarrow> partition \<Rightarrow> 'l partitioned \<Rightarrow> 'l partitioned res" where
  "MaybeBackoffDelay fails part s =
     (if pt_reject_delay part = 0 then Inr s
      else
        bind_res (cas_below fails (pl_max_delayed_threads s) (pl_delayed_threads s) (pl_delayed_threads s)) (\<lambda>slot.
        case slot of
          None \<Rightarrow> Inr s
        | Some n \<Rightarrow>
          let s = s\<lparr>pl_delayed_threads := n, pl_slept := pl_slept s @ [(pl_sleep_fn s, pt_reject_delay part)]\<rparr>
          in Inr (s\<lparr>pl_delayed_threads := wrap32 (pl_delayed_threads s - 1)\<rparr>)))"

definition Partitioned_DoAcquire ::
  "('l, 'cb) limit_ops \<Rightarrow> bool list \<Rightarrow> bool list \<Rightarrow> string \<Rightarrow> 'l partitioned \<Rightarrow>
   (acquire_result option \<times> 'l partitioned) res" where
  "Partitioned_DoAcquire lops fails backoff_fails context s =
     (let partition_index = ResolvePartition context s in
      bind_res (load_at (pl_partitions s) partition_index) (\<lambda>part.
      bind_res (if Limiter_GetLimit lops s \<le> al_inflight s
                then cas_below fails (pt_limit part) (pt_busy part) (pt_busy part)
                else Inr (Some (wrap32 (pt_busy part + 1)))) (\<lambda>admitted.
      case admitted of
        None \<Rightarrow> bind_res (MaybeBackoffDelay backoff_fails part s) (\<lambda>s. Inr (None, s))
      | Some busy \<Rightarrow>
        bind_res (store_at partition_index (part\<lparr>pt_busy := busy\<rparr>) (pl_partitions s)) (\<lambda>parts.
        let s = s\<lparr>pl_partitions := parts\<rparr> in
        bind_res (chk32 (al_inflight s + 1)) (\<lambda>post_inflight.
        Inr (Some \<lparr>ar_inflight_post = post_inflight, ar_partition_index = partition_index\<rparr>,
             s\<lparr>al_inflight := wrap32 (al_inflight s + 1)\<rparr>))))))"

definition Partitioned_OnReleasePartition :: "int \<Rightarrow> 'l partitioned \<Rightarrow> 'l partitioned res" where
  "Partitioned_OnReleasePartition partition_index s =
     bind_res (load_at (pl_partitions s) partition_index) (\<lambda>part.
     bind_res (store_at partition_index (part\<lparr>pt_busy := wrap32 (pt_busy part - 1)\<rparr>) (pl_partitions s)) (\<lambda>parts.
     Inr (s\<lparr>pl_partitions := parts\<rparr>)))"

definition Partitioned_OnSlotComplete ::
  "('l, 'cb) limit_ops \<Rightarrow> 'cb \<Rightarrow> completion_status \<Rightarrow> int \<Rightarrow> int \<Rightarrow> bool \<Rightarrow> int \<Rightarrow> int \<Rightarrow> 'l partitioned \<Rightarrow>
   ('l partitioned \<times> ('cb \<times> int) list) res" where
  "Partitioned_OnSlotComplete lops self st start inflight bypassed partition_index now s =
     bind_res (AbstractLimiter_OnSlotComplete lops Partitioned_OnReleasePartition st start inflight bypassed
       partition_index now s) (\<lambda>(s, cs). bind_res (deliver self cs s) (\<lambda>s. Inr (s, cs)))"

definition Partitioned_ops ::
  "('l, 'cb) limit_ops \<Rightarrow> 'cb \<Rightarrow> bool list \<Rightarrow> bool list \<Rightarrow> ('l partitioned, 'cb) limiter_ops" where
  "Partitioned_ops lops self fails backoff_fails =
     \<lparr>DoTryAcquire = AbstractLimiter_DoTryAcquire (Partitioned_DoAcquire lops fails backoff_fails),
      OnSlotComplete = Partitioned_OnSlotComplete lops self\<rparr>"

definition Partitioned_OnObserveInflight :: "'l partitioned \<Rightarrow> observation list" where
  "Partitioned_OnObserveInflight s =
     OnObserveInflight s @
     map (\<lambda>part. (pt_busy part, [(''id'', GetId s), (''partition'', pt_name part)])) (pl_partitions s)"

definition ObservePartitionLimit :: "'l partitioned \<Rightarrow> observation list" where
  "ObservePartitionLimit s =
     map (\<lambda>part. (pt_limit part, [(''id'', GetId s), (''partition'', pt_name part)])) (pl_partitions s)"

subsection \<open>Quotas\<close>

lemma quota_value:
  assumes "is_int32 L" and "0 \<le> p" and "p \<le> 1"
  shows "ComputePartitionLimit L (Fin p) = Inr (max 1 \<lceil>rnd (of_int L * p)\<rceil>)"
    and "\<lceil>rnd (of_int L * p)\<rceil> \<le> max 0 L" and "min 0 L \<le> \<lceil>rnd (of_int L * p)\<rceil>"
proof -
  let ?x = "of_int L * p :: rat"
  have x: "of_int (min 0 L) \<le> ?x" "?x \<le> of_int (max 0 L)"
    using assms(2,3) by (auto simp: min_def max_def mult_le_cancel_left1 mult_le_cancel_left2 zero_le_mult_iff mult_le_0_iff)
  have "\<bar>min 0 L\<bar> \<le> 2 ^ 53" "\<bar>max 0 L\<bar> \<le> 2 ^ 53" using assms(1) by (auto simp: is_int32_def)
  then have r: "of_int (min 0 L) \<le> rnd ?x" "rnd ?x \<le> of_int (max 0 L)"
    using b64.rd_between [OF x] by auto
  then show c: "\<lceil>rnd ?x\<rceil> \<le> max 0 L" "min 0 L \<le> \<lceil>rnd ?x\<rceil>"
    by (simp_all add: ceiling_le_iff le_ceiling_iff)
  have b: "of_int (max 0 L) \<le> (of_int INT_MAX :: rat)" "of_int INT_MIN \<le> (of_int (min 0 L) :: rat)"
    using assms(1) by (simp_all only: of_int_le_iff) (auto simp: is_int32_def)
  then have "\<bar>?x\<bar> \<le> 2 ^ 64" using x by simp
  then have "dmul (double_of_int L) (Fin p) = Fin (rnd ?x)" using assms(1) by (simp add: to_double_small)
  moreover have "is_int32 \<lceil>rnd ?x\<rceil>" using c assms(1) unfolding is_int32_def by linarith
  ultimately show "ComputePartitionLimit L (Fin p) = Inr (max 1 \<lceil>rnd ?x\<rceil>)"
    by (simp add: ComputePartitionLimit_def)
qed

subsection \<open>The gate\<close>

lemma cas_below_alone:
  assumes "is_int32 bound" and "is_int32 c"
  shows "cas_below fails bound c c = (if c < bound then Inr (Some (c + 1)) else Inr None)"
proof (induction fails)
  case Nil
  then show ?case using assms by (subst cas_below.simps) (auto simp: chk32_ok is_int32_def)
next
  case (Cons f fails)
  then show ?case using assms by (subst cas_below.simps) (auto simp: chk32_ok is_int32_def)
qed

lemma cas_below_stores:
  assumes "cas_below fails bound c actual = Inr r"
  shows "case r of None \<Rightarrow> True | Some n \<Rightarrow> n = actual + 1 \<and> actual < bound \<and> is_int32 (actual + 1)"
  using assms
proof (induction fails bound c actual rule: cas_below.induct)
  case (1 fails bound current actual)
  show ?case
    using "1.prems" "1.IH" by (subst (asm) cas_below.simps) (auto simp: bind_res_Inr split: if_splits)
qed

lemma cas_below_full: "cas_below fails bound c c = Inr None \<Longrightarrow> bound \<le> c"
proof (induction fails)
  case Nil
  then show ?case by (subst (asm) cas_below.simps) (auto simp: bind_res_Inr split: if_splits)
next
  case (Cons f fails)
  then show ?case by (subst (asm) cas_below.simps) (auto simp: bind_res_Inr split: if_splits)
qed

lemma MaybeBackoffDelay_effect:
  assumes "MaybeBackoffDelay fails part s = Inr s'"
  shows "\<exists>d sl. s' = s\<lparr>pl_slept := sl, pl_delayed_threads := d\<rparr>"
proof -
  have "s' = s \<or> (\<exists>n sl. s' = s\<lparr>pl_slept := sl, pl_delayed_threads := n\<rparr>)"
    using assms by (auto simp: MaybeBackoffDelay_def bind_res_Inr Let_def split: if_splits option.splits)
  moreover have "s = s\<lparr>pl_slept := pl_slept s, pl_delayed_threads := pl_delayed_threads s\<rparr>" by simp
  ultimately show ?thesis by metis
qed

text \<open>What an admission does, and on which grounds it happened.\<close>

lemma Partitioned_admits:
  assumes "Partitioned_DoAcquire lops fails bf context s = Inr (Some r, s')"
  obtains i part where "i < length (pl_partitions s)" and "part = pl_partitions s ! i"
    and "ar_partition_index r = int i" and "ar_inflight_post r = al_inflight s + 1" and "is_int32 (al_inflight s + 1)"
    and "al_inflight s < Limiter_GetLimit lops s \<or> pt_busy part < pt_limit part"
    and "s' = s\<lparr>al_inflight := al_inflight s + 1,
            pl_partitions := (pl_partitions s)[i := part\<lparr>pt_busy := wrap32 (pt_busy part + 1)\<rparr>]\<rparr>"
proof -
  let ?i = "ResolvePartition context s"
  obtain part busy parts where p: "load_at (pl_partitions s) ?i = Inr part"
    "(if Limiter_GetLimit lops s \<le> al_inflight s
       then cas_below fails (pt_limit part) (pt_busy part) (pt_busy part)
       else Inr (Some (wrap32 (pt_busy part + 1)))) = Inr (Some busy)"
    "store_at ?i (part\<lparr>pt_busy := busy\<rparr>) (pl_partitions s) = Inr parts"
    and r: "is_int32 (al_inflight s + 1)" "r = \<lparr>ar_inflight_post = al_inflight s + 1, ar_partition_index = ?i\<rparr>"
      "s' = s\<lparr>pl_partitions := parts, al_inflight := al_inflight s + 1\<rparr>"
    using assms unfolding Partitioned_DoAcquire_def Let_def
    by (auto simp: bind_res_Inr split: option.splits split del: if_split)
  have i: "0 \<le> ?i" "?i < int (length (pl_partitions s))" "part = pl_partitions s ! nat ?i"
    using p(1) by (auto simp: load_at_def split: if_splits)
  have b: "busy = wrap32 (pt_busy part + 1) \<and> (al_inflight s < Limiter_GetLimit lops s \<or> pt_busy part < pt_limit part)"
    using p(2) cas_below_stores [of fails "pt_limit part" "pt_busy part" "pt_busy part" "Some busy"]
    by (auto split: if_splits)
  have "parts = (pl_partitions s)[nat ?i := part\<lparr>pt_busy := wrap32 (pt_busy part + 1)\<rparr>]"
    using p(3) b by (auto simp: store_at_def split: if_splits)
  then show ?thesis using that [of "nat ?i" part] i r b by simp
qed

lemma Partitioned_rejects:
  assumes "Partitioned_DoAcquire lops fails bf context s = Inr (None, s')"
  shows "\<exists>d sl. s' = s\<lparr>pl_slept := sl, pl_delayed_threads := d\<rparr>"
  using assms unfolding Partitioned_DoAcquire_def Let_def
  by (auto simp: bind_res_Inr split: option.splits split del: if_split dest: MaybeBackoffDelay_effect)

text \<open>On which grounds a rejection happened, and what it did.\<close>

lemma Partitioned_turns_away:
  assumes "Partitioned_DoAcquire lops fails bf context s = Inr (None, s')"
    and "load_at (pl_partitions s) (ResolvePartition context s) = Inr part"
  shows "Limiter_GetLimit lops s \<le> al_inflight s" and "pt_limit part \<le> pt_busy part"
    and "MaybeBackoffDelay bf part s = Inr s'"
proof -
  have *: "(if Limiter_GetLimit lops s \<le> al_inflight s
       then cas_below fails (pt_limit part) (pt_busy part) (pt_busy part)
       else Inr (Some (wrap32 (pt_busy part + 1)))) = Inr None \<and> MaybeBackoffDelay bf part s = Inr s'"
    using assms unfolding Partitioned_DoAcquire_def Let_def
    by (auto simp: bind_res_Inr split: option.splits split del: if_split)
  then show "Limiter_GetLimit lops s \<le> al_inflight s" "MaybeBackoffDelay bf part s = Inr s'"
    by (auto split: if_splits)
  with * show "pt_limit part \<le> pt_busy part" using cas_below_full by simp
qed

lemma Partitioned_releases:
  assumes "Partitioned_OnReleasePartition j s = Inr s'"
  obtains i part where "i < length (pl_partitions s)" and "j = int i" and "part = pl_partitions s ! i"
    and "s' = s\<lparr>pl_partitions := (pl_partitions s)[i := part\<lparr>pt_busy := wrap32 (pt_busy part - 1)\<rparr>]\<rparr>"
  using assms
  by (auto simp: Partitioned_OnReleasePartition_def bind_res_Inr load_at_def store_at_def split: if_splits
      intro!: that [of "nat j"])

interpretation partitioned: admission_gate lops "Partitioned_DoAcquire lops fails bf" Partitioned_OnReleasePartition
  for lops fails bf
proof unfold_locales
  fix ctx and s s' :: "'a partitioned" and r res i
  show "al_inflight s' = wrap32 (al_inflight s + 1) \<and> ar_inflight_post r = al_inflight s + 1"
    if "Partitioned_DoAcquire lops fails bf ctx s = Inr (Some r, s')"
    using that by (auto elim!: Partitioned_admits)
  show "al_inflight s' = al_inflight s" if "Partitioned_DoAcquire lops fails bf ctx s = Inr (None, s')"
    using Partitioned_rejects [OF that] by auto
  show "al_outcome_counts s' = al_outcome_counts s" if "Partitioned_DoAcquire lops fails bf ctx s = Inr (res, s')"
    using that Partitioned_rejects [of lops fails bf ctx s s'] by (cases res) (auto elim!: Partitioned_admits)
  show "al_inflight s' = al_inflight s" "al_outcome_counts s' = al_outcome_counts s"
    if "Partitioned_OnReleasePartition i s = Inr s'"
    using that by (auto elim!: Partitioned_releases)
qed

subsection \<open>Callbacks only touch the quotas\<close>

definition quota_change :: "'l partitioned \<Rightarrow> 'l partitioned \<Rightarrow> bool" where
  "quota_change s s' \<longleftrightarrow> (\<exists>parts. s' = s\<lparr>pl_partitions := parts\<rparr>
     \<and> map pt_busy parts = map pt_busy (pl_partitions s) \<and> map pt_percent parts = map pt_percent (pl_partitions s))"

lemma recompute_from_keeps:
  "recompute_from n ps = Inr ps' \<Longrightarrow> map pt_busy ps' = map pt_busy ps \<and> map pt_percent ps' = map pt_percent ps"
  by (induction ps arbitrary: ps') (auto simp: bind_res_Inr)

lemma Recompute_quota_change: "RecomputePartitionLimits n s = Inr s' \<Longrightarrow> quota_change s s'"
  using recompute_from_keeps by (fastforce simp: RecomputePartitionLimits_def bind_res_Inr quota_change_def)

lemma quota_change_refl: "quota_change s s"
  unfolding quota_change_def by (rule exI [of _ "pl_partitions s"]) simp

lemma quota_change_trans: "quota_change s s' \<Longrightarrow> quota_change s' s'' \<Longrightarrow> quota_change s s''"
  unfolding quota_change_def by auto

lemma deliver_quota_change: "deliver self cs s = Inr s' \<Longrightarrow> quota_change s s'"
proof (induction self cs s arbitrary: s' rule: deliver.induct)
  case (1 self s)
  then show ?case by (simp add: quota_change_refl)
next
  case (2 self cb n cs s)
  obtain s1 where s1: "(if cb = self then RecomputePartitionLimits n s else Inr s) = Inr s1" "deliver self cs s1 = Inr s'"
    using "2.prems" by (auto simp: bind_res_Inr split del: if_split)
  have "quota_change s s1" using s1(1) Recompute_quota_change quota_change_refl by (auto split: if_splits)
  then show ?case using "2.IH" [OF s1(2)] quota_change_trans by blast
qed

lemma quota_change_fields:
  assumes "quota_change s s'"
  shows "al_inflight s' = al_inflight s" and "al_outcome_counts s' = al_outcome_counts s"
    and "map pt_busy (pl_partitions s') = map pt_busy (pl_partitions s)"
    and "length (pl_partitions s') = length (pl_partitions s)"
  using assms by (auto simp: quota_change_def dest: map_eq_imp_length_eq)

subsection \<open>Slots and guards\<close>

definition in_partition :: "slot_guard multiset \<Rightarrow> nat \<Rightarrow> int" where
  "in_partition M i = int (size (filter_mset (\<lambda>g. sg_partition_index g = int i) M))"

lemma in_partition_simps [simp]:
  "in_partition {#} i = 0"
  "in_partition (add_mset g M) i = in_partition M i + of_bool (sg_partition_index g = int i)"
  by (simp_all add: in_partition_def)

lemma in_partition_bounds: "0 \<le> in_partition M i" "in_partition M i \<le> int (size M)"
  by (simp_all add: in_partition_def size_filter_mset_lesseq)

lemma sum_in_partition:
  assumes "\<forall>g \<in># M. \<exists>i < n. sg_partition_index g = int i"
  shows "sum_list (map (in_partition M) [0 ..< n]) = int (size M)"
  using assms
proof (induction M)
  case empty
  then show ?case by (simp add: sum_list_triv)
next
  case (add g M)
  obtain i where i: "i < n" "sg_partition_index g = int i" using add.prems by auto
  have "(\<Sum>j \<leftarrow> [0 ..< n]. of_bool (sg_partition_index g = int j)) = (1 :: int)"
    using i by (simp add: sum_list_distinct_conv_sum_set sum.delta of_bool_def)
  then show ?case using add by (simp add: sum_list_addf add.commute)
qed

text \<open>Every partition's counter is the number of live guards admitted to it, and the global
  counter is the number of all live guards.\<close>

definition slots_inv :: "'l partitioned \<Rightarrow> slot_guard multiset \<Rightarrow> bool" where
  "slots_inv s M \<longleftrightarrow>
     map pt_busy (pl_partitions s) = map (in_partition M) [0 ..< length (pl_partitions s)]
     \<and> (\<forall>g \<in># M. \<exists>i < length (pl_partitions s). sg_partition_index g = int i)
     \<and> al_inflight s = int (size M) \<and> is_int32 (al_inflight s)"

lemma slots_inv_busy:
  "slots_inv s M \<Longrightarrow> i < length (pl_partitions s) \<Longrightarrow> pt_busy (pl_partitions s ! i) = in_partition M i"
  unfolding slots_inv_def by (metis add.left_neutral length_map map_nth nth_map nth_upt)

lemma slots_inv_cong:
  assumes "slots_inv s M" and "map pt_busy (pl_partitions s') = map pt_busy (pl_partitions s)"
    and "al_inflight s' = al_inflight s"
  shows "slots_inv s' M"
proof -
  have "length (pl_partitions s') = length (pl_partitions s)" using assms(2) by (rule map_eq_imp_length_eq)
  then show ?thesis using assms by (auto simp: slots_inv_def)
qed

lemma slots_inv_admit:
  assumes inv: "slots_inv s M" and i: "i < length (pl_partitions s)" and "is_int32 (al_inflight s + 1)"
    and g: "sg_partition_index g = int i"
  shows "slots_inv (s\<lparr>al_inflight := al_inflight s + 1, pl_partitions := (pl_partitions s)[i :=
      (pl_partitions s ! i)\<lparr>pt_busy := wrap32 (pt_busy (pl_partitions s ! i) + 1)\<rparr>]\<rparr>) (add_mset g M)"
proof -
  have b: "pt_busy (pl_partitions s ! i) = in_partition M i" by (rule slots_inv_busy [OF inv i])
  have "is_int32 (in_partition M i + 1)"
    using in_partition_bounds [of M i] inv assms(3) by (auto simp: slots_inv_def is_int32_def)
  then have w: "wrap32 (pt_busy (pl_partitions s ! i) + 1) = in_partition M i + 1" using b by simp
  have "map pt_busy ((pl_partitions s)[i := (pl_partitions s ! i)\<lparr>pt_busy := in_partition M i + 1\<rparr>])
      = map (in_partition (add_mset g M)) [0 ..< length (pl_partitions s)]"
    by (rule nth_equalityI) (use slots_inv_busy [OF inv] g i in \<open>auto simp: nth_list_update\<close>)
  then show ?thesis using inv g i assms(3) unfolding w by (auto simp: slots_inv_def)
qed

lemma slots_inv_release:
  assumes inv: "slots_inv s (add_mset g M)" and i: "i < length (pl_partitions s)" and g: "sg_partition_index g = int i"
    and "al_inflight s' = wrap32 (al_inflight s - 1)"
    and "map pt_busy (pl_partitions s') = (map pt_busy (pl_partitions s))[i := wrap32 (pt_busy (pl_partitions s ! i) - 1)]"
  shows "slots_inv s' M"
proof -
  have b: "pt_busy (pl_partitions s ! i) = in_partition M i + 1" using slots_inv_busy [OF inv i] g by simp
  have "is_int32 (in_partition M i)" "is_int32 (int (size M))"
    using in_partition_bounds [of M i] inv by (auto simp: slots_inv_def is_int32_def)
  then have w: "wrap32 (pt_busy (pl_partitions s ! i) - 1) = in_partition M i" "al_inflight s' = int (size M)"
    using b inv assms(4) by (auto simp: slots_inv_def)
  have l: "length (pl_partitions s') = length (pl_partitions s)" using assms(5) by (metis length_list_update length_map)
  have "map pt_busy (pl_partitions s') = map (in_partition M) [0 ..< length (pl_partitions s')]"
    unfolding assms(5) l w(1)
    by (rule nth_equalityI) (use slots_inv_busy [OF inv] g i in \<open>auto simp: nth_list_update\<close>)
  then show ?thesis using inv w(2) \<open>is_int32 (int (size M))\<close> by (auto simp: slots_inv_def l)
qed

lemma Partitioned_complete_effect:
  assumes "Partitioned_OnSlotComplete lops self st t k False j now s = Inr (s', cs)"
  obtains i where "i < length (pl_partitions s)" and "j = int i" and "al_inflight s' = wrap32 (al_inflight s - 1)"
    and "map pt_busy (pl_partitions s') = (map pt_busy (pl_partitions s))[i := wrap32 (pt_busy (pl_partitions s ! i) - 1)]"
proof -
  let ?s = "s\<lparr>al_inflight := wrap32 (al_inflight s - 1)\<rparr>"
  obtain s2 where d: "AbstractLimiter_OnSlotComplete lops Partitioned_OnReleasePartition st t k False j now s = Inr (s2, cs)"
      "deliver self cs s2 = Inr s'"
    using assms by (auto simp: Partitioned_OnSlotComplete_def bind_res_Inr)
  from d(1) obtain s1 where r: "Partitioned_OnReleasePartition j ?s = Inr s1"
    and s2: "al_inflight s2 = al_inflight s1" "pl_partitions s2 = pl_partitions s1"
    by (auto simp: AbstractLimiter_OnSlotComplete_def Let_def bind_res_Inr count_outcome_def split: if_splits)
  note q = quota_change_fields [OF deliver_quota_change [OF d(2)]]
  from r show ?thesis
  proof (cases rule: Partitioned_releases)
    case (1 i part)
    then show ?thesis using that [of i] q s2 by (simp add: map_update)
  qed
qed

lemma slots_inv_admitted:
  assumes J: "slots_inv s M" and t: "AbstractLimiter_DoTryAcquire (Partitioned_DoAcquire lops fails bf) now ctx s = Inr (Some g, s')"
  shows "slots_inv s' (if live g then add_mset g M else M)"
proof (cases "case al_bypass_predicate s of None \<Rightarrow> False | Some p \<Rightarrow> p ctx")
  case True
  then show ?thesis using t J
    by (auto simp: AbstractLimiter_DoTryAcquire_def MakeSlot_def live_def count_outcome_def slots_inv_def)
next
  case False
  then obtain r where r: "Partitioned_DoAcquire lops fails bf ctx s = Inr (Some r, s')"
      "g = MakeSlot now (ar_inflight_post r) False (ar_partition_index r)"
    using t by (auto simp: AbstractLimiter_DoTryAcquire_def bind_res_Inr split: option.splits)
  from r(1) show ?thesis
    by (cases rule: Partitioned_admits) (use slots_inv_admit [OF J] r(2) in \<open>simp add: MakeSlot_def live_def\<close>)
qed

lemma try_rejected:
  assumes "AbstractLimiter_DoTryAcquire (Partitioned_DoAcquire lops fails bf) now ctx s = Inr (None, s')"
  obtains s1 where "Partitioned_DoAcquire lops fails bf ctx s = Inr (None, s1)" and "s' = count_outcome Status_kRejected s1"
  using assms by (auto simp: AbstractLimiter_DoTryAcquire_def bind_res_Inr split: if_splits option.splits)

lemma slots_inv_rejected:
  assumes "slots_inv s M" and "AbstractLimiter_DoTryAcquire (Partitioned_DoAcquire lops fails bf) now ctx s = Inr (None, s')"
  shows "slots_inv s' M"
  using assms(2)
proof (rule try_rejected)
  fix s1
  assume "Partitioned_DoAcquire lops fails bf ctx s = Inr (None, s1)" "s' = count_outcome Status_kRejected s1"
  then show ?thesis using assms(1) Partitioned_rejects by (fastforce simp: slots_inv_def count_outcome_def)
qed

lemma Partitioned_complete_balanced:
  assumes "balanced n k s" and "Partitioned_OnSlotComplete lops self st t i False j now s = Inr (s', cs)"
  shows "balanced n (k - 1) s'"
proof -
  obtain s2 where s2: "AbstractLimiter_OnSlotComplete lops Partitioned_OnReleasePartition st t i False j now s = Inr (s2, cs)"
      "deliver self cs s2 = Inr s'"
    using assms(2) by (auto simp: Partitioned_OnSlotComplete_def bind_res_Inr)
  have "balanced n (k - 1) s2" using partitioned.complete_balanced [OF assms(1) s2(1)] by simp
  then show ?thesis using quota_change_fields [OF deliver_quota_change [OF s2(2)]] by (simp add: balanced_def)
qed

lemma bypassed_notify:
  "sg_bypassed g \<Longrightarrow> SlotGuard_notify (Partitioned_ops lops self fails bf) st now g s = Inr (s, [])"
  by (simp add: SlotGuard_notify_def Partitioned_ops_def Partitioned_OnSlotComplete_def AbstractLimiter_OnSlotComplete_def)

lemma live_notify:
  "live g \<Longrightarrow> SlotGuard_notify (Partitioned_ops lops self fails bf) st now g s
     = Partitioned_OnSlotComplete lops self st (sg_start_time_ns g) (sg_inflight_at_acquire g) False (sg_partition_index g) now s"
  by (simp add: SlotGuard_notify_def Partitioned_ops_def live_def)

interpretation partition_slots: guard_invariant "Partitioned_ops lops self fails bf"
  "\<lambda>n s M. slots_inv s M \<and> balanced (int n) (int (size M)) s" for lops self fails bf
proof unfold_locales
  fix n and s s' :: "'a partitioned" and M :: "slot_guard multiset" and now ctx and g :: slot_guard and st cs
  assume inv: "slots_inv s M \<and> balanced (int n) (int (size M)) s"
  show "slots_inv s' (if live g then add_mset g M else M) \<and> balanced (int (Suc n)) (int (size (if live g then add_mset g M else M))) s'"
    if "DoTryAcquire (Partitioned_ops lops self fails bf) now ctx s = Inr (Some g, s')"
    using that inv slots_inv_admitted [of s M lops fails bf now ctx g s']
      partitioned.try_balanced [of "int n" "int (size M)" s lops fails bf now ctx "Some g" s']
    by (cases "live g") (simp_all add: Partitioned_ops_def add.commute)
  show "slots_inv s' M \<and> balanced (int (Suc n)) (int (size M)) s'"
    if "DoTryAcquire (Partitioned_ops lops self fails bf) now ctx s = Inr (None, s')"
    using that inv slots_inv_rejected [of s M lops fails bf now ctx s']
      partitioned.try_balanced [of "int n" "int (size M)" s lops fails bf now ctx None s']
    by (simp add: Partitioned_ops_def add.commute)
  show "slots_inv s' M \<and> balanced (int n) (int (size M)) s'"
    if "sg_bypassed g" "SlotGuard_notify (Partitioned_ops lops self fails bf) st now g s = Inr (s', cs)"
    using inv that by (simp add: bypassed_notify)
next
  fix n and s s' :: "'a partitioned" and M :: "slot_guard multiset" and g st now cs
  assume inv: "slots_inv s (add_mset g M) \<and> balanced (int n) (int (size (add_mset g M))) s" and "live g"
    and "SlotGuard_notify (Partitioned_ops lops self fails bf) st now g s = Inr (s', cs)"
  then have c: "Partitioned_OnSlotComplete lops self st (sg_start_time_ns g) (sg_inflight_at_acquire g) False
      (sg_partition_index g) now s = Inr (s', cs)" by (simp add: live_notify)
  have "balanced (int n) (int (size M)) s'" using Partitioned_complete_balanced [OF _ c, of "int n"] inv by fastforce
  moreover have "slots_inv s' M"
    using c by (rule Partitioned_complete_effect) (use inv in \<open>auto intro: slots_inv_release\<close>)
  ultimately show "slots_inv s' M \<and> balanced (int n) (int (size M)) s'" by blast
qed

subsection \<open>A new limiter\<close>

lemma Partitioned_Build_state:
  assumes "Partitioned_Build StrCat lops self b = Inr (Inr s0)"
  obtains limit parts where "pb_limit b = Some limit" and "parts \<noteq> []" and "\<forall>p \<in> set parts. pt_busy p = 0"
    and "recompute_from (GetLimit lops limit) parts = Inr (pl_partitions s0)"
    and "al_limit s0 = NotifyOnChange lops self limit" and "al_inflight s0 = 0"
    and "al_outcome_counts s0 = replicate 5 0"
proof -
  obtain limit specs resolvers where v: "Partitioned_validate StrCat b = Inr (limit, specs, resolvers)"
    using assms by (auto simp: Partitioned_Build_def split: sum.splits)
  define parts where "parts = map (\<lambda>spec. Partition_new (ps_name spec) (ps_percent spec) (ps_reject_delay spec)) specs
    @ [Partition_new kUnknownPartitionName (Fin 0) 0]"
  have p: "parts \<noteq> []" "\<forall>p \<in> set parts. pt_busy p = 0" by (auto simp: parts_def Partition_new_def)
  have l: "pb_limit b = Some limit"
    using v by (auto simp: Partitioned_validate_def bind_res_Inr Let_def split: option.splits if_splits)
  have "recompute_from (GetLimit lops limit) parts = Inr (pl_partitions s0)
      \<and> al_limit s0 = NotifyOnChange lops self limit \<and> al_inflight s0 = 0 \<and> al_outcome_counts s0 = replicate 5 0"
    using assms v
    by (auto simp: Partitioned_Build_def Partitioned_new_def RecomputePartitionLimits_def Let_def bind_res_Inr
        Limiter_GetLimit_def RegisterLimitChangeCallback_def AbstractLimiter_new_def abstract_limiter.defs parts_def)
  then show ?thesis using that l p by blast
qed

lemma Partitioned_Build_inv:
  assumes "Partitioned_Build StrCat lops self b = Inr (Inr s0)"
  shows "slots_inv s0 {#} \<and> balanced (int 0) (int (size {#})) s0"
  using assms
proof (rule Partitioned_Build_state)
  fix limit parts
  assume p: "\<forall>p \<in> set parts. pt_busy p = 0" "recompute_from (GetLimit lops limit) parts = Inr (pl_partitions s0)"
    and z: "al_inflight s0 = 0" "al_outcome_counts s0 = replicate 5 0"
  have "map pt_busy (pl_partitions s0) = map (\<lambda>p. 0) parts"
    using recompute_from_keeps [OF p(2)] p(1) by auto
  moreover have "length (pl_partitions s0) = length parts"
    using recompute_from_keeps [OF p(2)] by (metis length_map)
  moreover have "map (\<lambda>p. 0) parts = map (in_partition {#}) [0 ..< length parts]" by (rule nth_equalityI) simp_all
  ultimately show ?thesis using z by (simp add: slots_inv_def balanced_def is_int32_def sum_list_replicate)
qed

subsection \<open>Quotas follow the cap\<close>

definition quotas_match :: "int \<Rightarrow> partition list \<Rightarrow> bool" where
  "quotas_match n ps \<longleftrightarrow> list_all (\<lambda>p. ComputePartitionLimit n (pt_percent p) = Inr (pt_limit p)) ps"

lemma recompute_from_match: "recompute_from n ps = Inr ps' \<Longrightarrow> quotas_match n ps'"
  by (induction ps arbitrary: ps') (auto simp: bind_res_Inr quotas_match_def)

lemma deliver_same_value:
  assumes "deliver self (map (\<lambda>c. (c, n)) cs) s = Inr s'" and "self \<in> set cs \<or> quotas_match n (pl_partitions s)"
  shows "quotas_match n (pl_partitions s')"
  using assms
proof (induction cs arbitrary: s)
  case Nil
  then show ?case by simp
next
  case (Cons c cs)
  obtain s1 where s1: "(if c = self then RecomputePartitionLimits n s else Inr s) = Inr s1"
      "deliver self (map (\<lambda>c. (c, n)) cs) s1 = Inr s'"
    using Cons.prems(1) by (auto simp: bind_res_Inr split del: if_split)
  have "self \<in> set cs \<or> quotas_match n (pl_partitions s1)"
    using s1(1) Cons.prems(2) recompute_from_match
    by (cases "c = self") (auto simp: RecomputePartitionLimits_def bind_res_Inr)
  then show ?case by (rule Cons.IH [OF s1(2)])
qed

lemma quotas_match_update:
  "quotas_match n ps \<Longrightarrow> i < length ps \<Longrightarrow> quotas_match n (ps[i := (ps ! i)\<lparr>pt_busy := b\<rparr>])"
  unfolding quotas_match_def by (auto simp: list_all_length nth_list_update)

locale partition_quotas = limit_contract lops inv listeners
  for lops :: "('l, 'cb) limit_ops" and inv listeners +
  fixes self :: 'cb and fails bf :: "bool list"
begin

definition quotas_inv :: "'l partitioned \<Rightarrow> bool" where
  "quotas_inv s \<longleftrightarrow> inv (al_limit s) \<and> self \<in> set (listeners (al_limit s))
     \<and> quotas_match (GetLimit lops (al_limit s)) (pl_partitions s)"

lemma try_quotas:
  assumes "quotas_inv s" and "AbstractLimiter_DoTryAcquire (Partitioned_DoAcquire lops fails bf) now ctx s = Inr (res, s')"
  shows "quotas_inv s'"
proof (cases "case al_bypass_predicate s of None \<Rightarrow> False | Some p \<Rightarrow> p ctx")
  case True
  then show ?thesis using assms by (auto simp: AbstractLimiter_DoTryAcquire_def count_outcome_def quotas_inv_def)
next
  case False
  then obtain r s1 where r: "Partitioned_DoAcquire lops fails bf ctx s = Inr (r, s1)"
      "s' = s1 \<or> s' = count_outcome Status_kRejected s1"
    using assms(2) by (auto simp: AbstractLimiter_DoTryAcquire_def bind_res_Inr split: option.splits)
  have "quotas_inv s1"
  proof (cases r)
    case None
    then show ?thesis using Partitioned_rejects r(1) assms(1) by (fastforce simp: quotas_inv_def)
  next
    case (Some a)
    from r(1) [unfolded Some] show ?thesis
      by (rule Partitioned_admits) (use assms(1) in \<open>auto simp: quotas_inv_def intro: quotas_match_update\<close>)
  qed
  then show ?thesis using r(2) by (auto simp: quotas_inv_def count_outcome_def)
qed

lemma complete_quotas:
  assumes "quotas_inv s" and "Partitioned_OnSlotComplete lops self st t k False j now s = Inr (s', cs)"
  shows "quotas_inv s'"
proof -
  obtain s2 where d: "AbstractLimiter_OnSlotComplete lops Partitioned_OnReleasePartition st t k False j now s = Inr (s2, cs)"
      "deliver self cs s2 = Inr s'"
    using assms(2) by (auto simp: Partitioned_OnSlotComplete_def bind_res_Inr)
  from d(1) obtain s1 where r: "Partitioned_OnReleasePartition j (s\<lparr>al_inflight := wrap32 (al_inflight s - 1)\<rparr>) = Inr s1"
    and s2: "pl_partitions s2 = pl_partitions s1"
      "al_limit s2 = al_limit s1 \<and> cs = [] \<or> (\<exists>t r i d. OnSample lops t r i d (al_limit s1) = Inr (al_limit s2, cs))"
    by (auto simp: AbstractLimiter_OnSlotComplete_def Let_def bind_res_Inr count_outcome_def split: if_splits) blast+
  have q: "al_limit s1 = al_limit s" "quotas_match (GetLimit lops (al_limit s)) (pl_partitions s1)"
    using r by (auto elim!: Partitioned_releases intro!: quotas_match_update) (use assms(1) in \<open>auto simp: quotas_inv_def\<close>)
  have l: "inv (al_limit s2)" "listeners (al_limit s2) = listeners (al_limit s)"
      "cs = change_calls (GetLimit lops (al_limit s)) (GetLimit lops (al_limit s2)) (listeners (al_limit s))"
    using maybe_sampled [OF _ s2(2)] q(1) assms(1) by (simp_all add: quotas_inv_def)
  have "al_limit s' = al_limit s2" using deliver_quota_change [OF d(2)] by (auto simp: quota_change_def)
  moreover have "quotas_match (GetLimit lops (al_limit s2)) (pl_partitions s')"
  proof (cases "GetLimit lops (al_limit s2) = GetLimit lops (al_limit s)")
    case True
    then have "s' = s2" using l(3) d(2) by (simp add: change_calls_def)
    then show ?thesis using True q(2) s2(1) by simp
  next
    case False
    then have "cs = map (\<lambda>c. (c, GetLimit lops (al_limit s2))) (listeners (al_limit s))"
      using l(3) by (simp add: change_calls_def)
    then show ?thesis
      using deliver_same_value [of self _ "listeners (al_limit s)" s2 s'] d(2) assms(1) by (simp add: quotas_inv_def)
  qed
  ultimately show ?thesis using l(1,2) assms(1) by (simp add: quotas_inv_def)
qed

end

sublocale partition_quotas \<subseteq> quotas: guard_invariant "Partitioned_ops lops self fails bf" "\<lambda>n s M. quotas_inv s"
  by unfold_locales
     (auto simp: Partitioned_ops_def SlotGuard_notify_def live_def intro: try_quotas complete_quotas
       simp: Partitioned_OnSlotComplete_def AbstractLimiter_OnSlotComplete_def)

interpretation fixed_quotas: partition_quotas FixedLimit_ops "\<lambda>s. True" m_listeners self fails bf for self fails bf
  by unfold_locales

interpretation settable_quotas: partition_quotas SettableLimit_ops "\<lambda>s. True" m_listeners self fails bf for self fails bf
  by unfold_locales

interpretation gradient2_quotas: partition_quotas Gradient2_ops g2_inv m_listeners self fails bf for self fails bf
  by unfold_locales

subsection \<open>The overshoot of burst-into-idle\<close>

text \<open>How far the partitions are above their quotas, together.\<close>

definition excess :: "partition list \<Rightarrow> int" where
  "excess ps = sum_list (map (\<lambda>p. max 0 (pt_busy p - pt_limit p)) ps)"

lemma excess_update:
  "i < length ps \<Longrightarrow> excess (ps[i := p]) = excess ps - max 0 (pt_busy (ps ! i) - pt_limit (ps ! i))
     + max 0 (pt_busy p - pt_limit p)"
  by (simp add: excess_def map_update sum_list_update_int)

lemma excess_le_busy:
  "\<forall>p \<in> set ps. 0 \<le> pt_busy p \<and> 0 \<le> pt_limit p \<Longrightarrow> excess ps \<le> sum_list (map pt_busy ps)"
  unfolding excess_def by (rule sum_list_mono) auto

lemma busy_le_excess: "sum_list (map pt_busy ps) \<le> sum_list (map pt_limit ps) + excess ps"
  unfolding excess_def sum_list_addf [symmetric] by (rule sum_list_mono) auto

lemma fixed_OnSample: "OnSample FixedLimit_ops t r i d l = Inr (l, [])"
  by (simp add: FixedLimit_ops_def FixedLimit_Update_def limen_simps)

lemma slots_inv_sum:
  assumes "slots_inv s M"
  shows "sum_list (map pt_busy (pl_partitions s)) = al_inflight s" and "\<forall>p \<in> set (pl_partitions s). 0 \<le> pt_busy p"
proof -
  show "sum_list (map pt_busy (pl_partitions s)) = al_inflight s"
    using assms sum_in_partition unfolding slots_inv_def by metis
  show "\<forall>p \<in> set (pl_partitions s). 0 \<le> pt_busy p"
    using slots_inv_busy [OF assms] in_partition_bounds(1) by (auto simp: in_set_conv_nth)
qed

definition overshoot_inv :: "int \<Rightarrow> int list \<Rightarrow> 'cb abstract_limit partitioned \<Rightarrow> bool" where
  "overshoot_inv L ls s \<longleftrightarrow> GetLimit FixedLimit_ops (al_limit s) = L \<and> map pt_limit (pl_partitions s) = ls
     \<and> (\<forall>l \<in> set ls. 0 \<le> l) \<and> excess (pl_partitions s) \<le> max 0 L"

lemma overshoot_admit:
  assumes "overshoot_inv L ls s" and "slots_inv s M"
    and "Partitioned_DoAcquire FixedLimit_ops fails bf ctx s = Inr (Some r, s')" and "slots_inv s' M'"
  shows "overshoot_inv L ls s'"
  using assms(3)
proof (rule Partitioned_admits)
  fix i part
  assume i: "i < length (pl_partitions s)" "part = pl_partitions s ! i"
    and room: "al_inflight s < Limiter_GetLimit FixedLimit_ops s \<or> pt_busy part < pt_limit part"
    and post: "is_int32 (al_inflight s + 1)"
    and s': "s' = s\<lparr>al_inflight := al_inflight s + 1,
      pl_partitions := (pl_partitions s)[i := part\<lparr>pt_busy := wrap32 (pt_busy part + 1)\<rparr>]\<rparr>"
  have ls: "map pt_limit (pl_partitions s') = map pt_limit (pl_partitions s)"
    using i s' by (simp add: map_update list_update_same_conv)
  have lim: "\<forall>p \<in> set (pl_partitions s'). 0 \<le> pt_limit p"
    using assms(1) ls unfolding overshoot_inv_def by (metis in_set_conv_nth length_map nth_map)
  have b: "pt_busy part \<le> al_inflight s" "0 \<le> pt_busy part"
    using slots_inv_busy [OF assms(2) i(1)] in_partition_bounds [of M i] i(2) assms(2) by (auto simp: slots_inv_def)
  then have w: "wrap32 (pt_busy part + 1) = pt_busy part + 1" using post by (simp add: is_int32_def)
  have "excess (pl_partitions s') \<le> max 0 L"
  proof (cases "al_inflight s < L")
    case True
    have "excess (pl_partitions s') \<le> al_inflight s'"
      using excess_le_busy [of "pl_partitions s'"] slots_inv_sum [OF assms(4)] lim by simp
    then show ?thesis using True s' by simp
  next
    case False
    then have "pt_busy part < pt_limit part" using room assms(1) by (simp add: overshoot_inv_def Limiter_GetLimit_def)
    then have "excess (pl_partitions s') = excess (pl_partitions s)" using s' i w by (simp add: excess_update)
    then show ?thesis using assms(1) by (simp add: overshoot_inv_def)
  qed
  then show ?thesis using assms(1) ls s' by (simp add: overshoot_inv_def)
qed

lemma overshoot_complete:
  assumes "overshoot_inv L ls s" and "slots_inv s M"
    and "Partitioned_OnSlotComplete FixedLimit_ops self st t k False j now s = Inr (s', cs)"
  shows "overshoot_inv L ls s'"
proof -
  have "\<exists>s1. Partitioned_OnReleasePartition j (s\<lparr>al_inflight := wrap32 (al_inflight s - 1)\<rparr>) = Inr s1
      \<and> pl_partitions s' = pl_partitions s1 \<and> al_limit s' = al_limit s1"
    using assms(3)
    by (auto simp: Partitioned_OnSlotComplete_def AbstractLimiter_OnSlotComplete_def Let_def bind_res_Inr
        count_outcome_def fixed_OnSample split: if_splits)
  then obtain i where i: "i < length (pl_partitions s)" "al_limit s' = al_limit s"
      "pl_partitions s' = (pl_partitions s)[i := (pl_partitions s ! i)\<lparr>pt_busy := wrap32 (pt_busy (pl_partitions s ! i) - 1)\<rparr>]"
    by (auto elim!: Partitioned_releases)
  let ?p = "pl_partitions s ! i"
  have b: "0 \<le> pt_busy ?p" "pt_busy ?p \<le> al_inflight s" "is_int32 (al_inflight s)"
    using slots_inv_busy [OF assms(2) i(1)] in_partition_bounds [of M i] assms(2) by (auto simp: slots_inv_def)
  then have w: "wrap32 (pt_busy ?p - 1) = pt_busy ?p - 1" by (simp add: is_int32_def)
  have "excess (pl_partitions s') \<le> excess (pl_partitions s)" using i w by (simp add: excess_update)
  moreover have "map pt_limit (pl_partitions s') = map pt_limit (pl_partitions s)"
    using i by (simp add: map_update list_update_same_conv)
  ultimately show ?thesis using assms(1) i(2) by (simp add: overshoot_inv_def)
qed

lemma overshoot_admitted:
  assumes "overshoot_inv L ls s" and "slots_inv s M"
    and t: "AbstractLimiter_DoTryAcquire (Partitioned_DoAcquire FixedLimit_ops fails bf) now ctx s = Inr (Some g, s')"
  shows "overshoot_inv L ls s'"
proof (cases "case al_bypass_predicate s of None \<Rightarrow> False | Some p \<Rightarrow> p ctx")
  case True
  then show ?thesis using t assms(1) by (auto simp: AbstractLimiter_DoTryAcquire_def count_outcome_def overshoot_inv_def)
next
  case False
  then obtain r where "Partitioned_DoAcquire FixedLimit_ops fails bf ctx s = Inr (Some r, s')"
    using t by (auto simp: AbstractLimiter_DoTryAcquire_def bind_res_Inr split: option.splits)
  then show ?thesis using overshoot_admit [OF assms(1,2)] slots_inv_admitted [OF assms(2) t] by blast
qed

lemma overshoot_rejected:
  assumes "overshoot_inv L ls s"
    and "AbstractLimiter_DoTryAcquire (Partitioned_DoAcquire FixedLimit_ops fails bf) now ctx s = Inr (None, s')"
  shows "overshoot_inv L ls s'"
  using assms(2)
proof (rule try_rejected)
  fix s1
  assume "Partitioned_DoAcquire FixedLimit_ops fails bf ctx s = Inr (None, s1)" "s' = count_outcome Status_kRejected s1"
  then show ?thesis using assms(1) Partitioned_rejects by (fastforce simp: overshoot_inv_def count_outcome_def)
qed

interpretation overshoot: guard_invariant "Partitioned_ops FixedLimit_ops self fails bf"
  "\<lambda>n s M. (slots_inv s M \<and> balanced (int n) (int (size M)) s) \<and> overshoot_inv L ls s" for self fails bf L ls
proof unfold_locales
  fix n and s s' :: "'a abstract_limit partitioned" and M now ctx and g :: slot_guard and st cs
  let ?ops = "Partitioned_ops FixedLimit_ops self fails bf"
  assume inv: "(slots_inv s M \<and> balanced (int n) (int (size M)) s) \<and> overshoot_inv L ls s"
  show "(slots_inv s' (if live g then add_mset g M else M)
      \<and> balanced (int (Suc n)) (int (size (if live g then add_mset g M else M))) s') \<and> overshoot_inv L ls s'"
    if t: "DoTryAcquire ?ops now ctx s = Inr (Some g, s')"
    using conjI [OF partition_slots.admitted [OF conjunct1 [OF inv] t]] overshoot_admitted [of L ls s M fails bf now ctx g s'] t inv
    by (simp add: Partitioned_ops_def)
  show "(slots_inv s' M \<and> balanced (int (Suc n)) (int (size M)) s') \<and> overshoot_inv L ls s'"
    if t: "DoTryAcquire ?ops now ctx s = Inr (None, s')"
    using conjI [OF partition_slots.turned_away [OF conjunct1 [OF inv] t]] overshoot_rejected [of L ls s fails bf now ctx s'] t inv
    by (simp add: Partitioned_ops_def)
  show "(slots_inv s' M \<and> balanced (int n) (int (size M)) s') \<and> overshoot_inv L ls s'"
    if "sg_bypassed g" "SlotGuard_notify ?ops st now g s = Inr (s', cs)"
    using inv that by (simp add: bypassed_notify)
next
  fix n and s s' :: "'a abstract_limit partitioned" and M g st now cs
  assume inv: "(slots_inv s (add_mset g M) \<and> balanced (int n) (int (size (add_mset g M))) s) \<and> overshoot_inv L ls s"
    and g: "live g" and t: "SlotGuard_notify (Partitioned_ops FixedLimit_ops self fails bf) st now g s = Inr (s', cs)"
  have "overshoot_inv L ls s'" using overshoot_complete [of L ls s "add_mset g M"] inv t g by (auto simp: live_notify)
  then show "(slots_inv s' M \<and> balanced (int n) (int (size M)) s') \<and> overshoot_inv L ls s'"
    using partition_slots.finished [OF _ g t] inv by blast
qed

end
