(* ===== verification/Partitioned_Properties.thy ===== *)
theory Partitioned_Properties
  imports Partitioned
begin

section \<open>Properties of the partitioned limiter\<close>

text \<open>
  What the invariants of the partitioned limiter give: the decision of the gate, the resolution
  of a context to a partition, conservation of slots per partition, the bound on the overshoot
  of burst-into-idle, the value of a quota and its agreement with the cap over time, and which
  validated configurations can be built at all.
\<close>

subsection \<open>Validated configurations\<close>

lemma check_specs_percent:
  "check_specs StrCat specs = None \<Longrightarrow> spec \<in> set specs \<Longrightarrow>
     ps_percent spec = NaN \<or> (\<exists>p. ps_percent spec = Fin p \<and> 0 \<le> p \<and> p \<le> 1)"
proof (induction specs)
  case (Cons a specs)
  then show ?case by (cases "spec = a"; cases "ps_percent spec") (auto split: if_splits)
qed simp

lemma set_reject_delay_keeps:
  "set_reject_delay name delay specs = Some specs' \<Longrightarrow>
     map ps_name specs' = map ps_name specs \<and> map ps_percent specs' = map ps_percent specs"
  by (induction specs arbitrary: specs') (auto split: if_splits)

lemma resolve_delays_keeps:
  "resolve_delays pending specs = Inr specs' \<Longrightarrow>
     map ps_name specs' = map ps_name specs \<and> map ps_percent specs' = map ps_percent specs"
proof (induction pending specs rule: resolve_delays.induct)
  case (2 name delay pending specs)
  then show ?case using set_reject_delay_keeps by (fastforce split: option.splits)
qed simp

lemma validate_specs:
  assumes "Partitioned_validate StrCat b = Inr (limit, specs, resolvers)"
  shows "check_specs StrCat (pb_partition_specs b) = None"
    and "resolve_delays (pb_pending_reject_delays b) (pb_partition_specs b) = Inr specs"
    and "pb_limit b = Some limit"
  using assms by (auto simp: Partitioned_validate_def bind_res_Inr Let_def split: option.splits if_splits)

lemma validate_percent:
  assumes "Partitioned_validate StrCat b = Inr (limit, specs, resolvers)" and "spec \<in> set specs"
  shows "ps_percent spec = NaN \<or> (\<exists>p. ps_percent spec = Fin p \<and> 0 \<le> p \<and> p \<le> 1)"
proof -
  have "ps_percent spec \<in> set (map ps_percent (pb_partition_specs b))"
    using resolve_delays_keeps [OF validate_specs(2) [OF assms(1)]] assms(2) by (metis image_eqI set_map)
  then show ?thesis using check_specs_percent [OF validate_specs(1) [OF assms(1)]] by force
qed

lemma quota_defined:
  assumes "is_int32 L" and "p = NaN \<or> (\<exists>x. p = Fin x \<and> 0 \<le> x \<and> x \<le> 1)"
  shows "(\<exists>q. ComputePartitionLimit L p = Inr q) \<longleftrightarrow> p \<noteq> NaN"
proof (cases "p = NaN")
  case True
  have "dmul (double_of_int L) NaN = NaN" by (cases "double_of_int L") simp_all
  then show ?thesis using True by (simp add: ComputePartitionLimit_def)
next
  case False
  then show ?thesis using assms quota_value(1) by auto
qed

lemma recompute_defined:
  "(\<exists>ps'. recompute_from L ps = Inr ps') \<longleftrightarrow> (\<forall>p \<in> set ps. \<exists>q. ComputePartitionLimit L (pt_percent p) = Inr q)"
  by (induction ps) (auto simp: bind_res_Inr)

lemma Build_defined:
  assumes "Partitioned_validate StrCat b = Inr (limit, specs, resolvers)"
  shows "(\<exists>s. Partitioned_Build StrCat lops self b = Inr (Inr s)) \<longleftrightarrow>
    (\<exists>ps. recompute_from (GetLimit lops limit)
       (map (\<lambda>spec. Partition_new (ps_name spec) (ps_percent spec) (ps_reject_delay spec)) specs
         @ [Partition_new kUnknownPartitionName (Fin 0) 0]) = Inr ps)"
  using assms
  by (auto simp: Partitioned_Build_def Partitioned_new_def RecomputePartitionLimits_def Let_def bind_res_Inr
      Limiter_GetLimit_def AbstractLimiter_new_def abstract_limiter.defs)

text \<open>
  C39. A validated configuration builds a limiter exactly when no declared percentage is NaN.
  The range check of the builder, two comparisons that are false for NaN, lets such a percentage
  pass, and converting the quota computed from it to an integer is undefined behaviour.
\<close>

theorem partition_build_defined:
  assumes "Partitioned_validate StrCat b = Inr (limit, specs, resolvers)" and "is_int32 (GetLimit lops limit)"
  shows "(\<exists>s. Partitioned_Build StrCat lops self b = Inr (Inr s)) \<longleftrightarrow> (\<forall>spec \<in> set specs. ps_percent spec \<noteq> NaN)"
proof -
  have "(\<exists>q. ComputePartitionLimit (GetLimit lops limit) (ps_percent spec) = Inr q) \<longleftrightarrow> ps_percent spec \<noteq> NaN"
    if "spec \<in> set specs" for spec
    using quota_defined [OF assms(2) validate_percent [OF assms(1) that]] .
  moreover have "\<exists>q. ComputePartitionLimit (GetLimit lops limit) (Fin 0) = Inr q"
    using quota_defined [OF assms(2), of "Fin 0"] by simp
  ultimately show ?thesis
    unfolding Build_defined [OF assms(1)] recompute_defined by (auto simp: Partition_new_def)
qed

subsection \<open>An example configuration\<close>

text \<open>Half of a cap of four for the partition \<open>live\<close>; a context is its own partition name.\<close>

definition example_builder :: "double \<Rightarrow> 'l \<Rightarrow> 'l partitioned_builder" where
  "example_builder p limit = PartitionResolver (Some Some)
     (PartitionRejectDelay ''live'' 5 (Builder_Partition ''live'' p (Partitioned_Limit (Some limit) Partitioned_Builder)))"

definition example_names :: "string \<rightharpoonup> int" where
  "example_names = [''live'' \<mapsto> 0, kUnknownPartitionName \<mapsto> 1]"

lemma sum_tolerance:
  assumes "x \<le> 1"
  shows "\<not> dless (dadd (Fin 1) (to_double (1 / 10 ^ 9))) (Fin x)"
proof -
  have r: "0 \<le> rnd (1 / 10 ^ 9)" "rnd (1 / 10 ^ 9) \<le> 1"
    using rnd_mono [of 0 "1 / 10 ^ 9"] rnd_mono [of "1 / 10 ^ 9" 1] by simp_all
  have "to_double (1 / 10 ^ 9) = Fin (rnd (1 / 10 ^ 9))" by (rule to_double_small) simp
  moreover have "to_double (1 + rnd (1 / 10 ^ 9)) = Fin (rnd (1 + rnd (1 / 10 ^ 9)))"
    by (rule to_double_small) (use r in simp)
  moreover have "1 \<le> rnd (1 + rnd (1 / 10 ^ 9))" using rnd_mono [of 1 "1 + rnd (1 / 10 ^ 9)"] r by simp
  ultimately show ?thesis using assms by simp
qed

lemma example_validate:
  assumes "p = Fin (1/2) \<or> p = NaN"
  shows "Partitioned_validate StrCat (example_builder p limit) =
    Inr (limit, [\<lparr>ps_name = ''live'', ps_percent = p, ps_reject_delay = 5\<rparr>], [Some])"
  using assms sum_tolerance [of "1/2"]
  by (auto simp: Partitioned_validate_def example_builder_def PartitionResolver_def PartitionRejectDelay_def
      Builder_Partition_def Partitioned_Limit_def Partitioned_Builder_def kUnknownPartitionName_def percent_sum_def
      to_double_small)

theorem partition_build_defined_witness:
  "Partitioned_validate (\<lambda>_. ''n'') (example_builder NaN (FixedLimit_Of 4 :: nat abstract_limit))
     = Inr (FixedLimit_Of 4, [\<lparr>ps_name = ''live'', ps_percent = NaN, ps_reject_delay = 5\<rparr>], [Some])
   \<and> (\<nexists>s. Partitioned_Build (\<lambda>_. ''n'') FixedLimit_ops 0 (example_builder NaN (FixedLimit_Of 4 :: nat abstract_limit)) = Inr (Inr s))
   \<and> (\<exists>s. Partitioned_Build (\<lambda>_. ''n'') FixedLimit_ops 0 (example_builder (Fin (1/2)) (FixedLimit_Of 4 :: nat abstract_limit)) = Inr (Inr s))"
proof -
  have "is_int32 (GetLimit FixedLimit_ops (FixedLimit_Of 4 :: nat abstract_limit))"
    by (simp add: FixedLimit_ops_def FixedLimit_Of_def limen_simps is_int32_def)
  from partition_build_defined [OF example_validate this]
  show ?thesis by (simp add: example_validate)
qed

text \<open>The limiter that the example builds on a limit with cap four.\<close>

definition example_limiter :: "'l \<Rightarrow> 'l partitioned" where
  "example_limiter limit =
     abstract_limiter.extend (AbstractLimiter_new limit [] None False)
       \<lparr>pl_partitions =
          [\<lparr>pt_name = ''live'', pt_percent = Fin (1/2), pt_reject_delay = 5, pt_busy = 0, pt_limit = 2\<rparr>,
           \<lparr>pt_name = ''unknown'', pt_percent = Fin 0, pt_reject_delay = 0, pt_busy = 0, pt_limit = 1\<rparr>],
        pl_partition_index_by_name = example_names, pl_partition_resolvers = [Some],
        pl_unknown_partition_index = 1, pl_max_delayed_threads = 100, pl_delayed_threads = 0,
        pl_sleep_fn = DefaultSleepFn, pl_slept = []\<rparr>"

lemmas example_limiter_simps = example_limiter_def AbstractLimiter_new_def abstract_limiter.defs

lemma example_build:
  assumes "GetLimit lops limit = 4"
  shows "Partitioned_Build StrCat lops self (example_builder (Fin (1/2)) limit)
    = Inr (Inr (example_limiter (NotifyOnChange lops self limit)))"
proof -
  have q: "ComputePartitionLimit 4 (Fin (1/2)) = Inr 2" "ComputePartitionLimit 4 (Fin 0) = Inr 1"
    using quota_value(1) [of 4 "1/2"] quota_value(1) [of 4 0] by (simp_all add: is_int32_def)
  show ?thesis
    unfolding Partitioned_Build_def example_validate [OF disjI1 [OF refl]]
    by (simp add: Partitioned_new_def RecomputePartitionLimits_def Partition_new_def Limiter_GetLimit_def assms q
        RegisterLimitChangeCallback_def example_limiter_simps example_names_def
        example_builder_def PartitionResolver_def PartitionRejectDelay_def
        Builder_Partition_def Partitioned_Limit_def Partitioned_Builder_def kUnknownPartitionName_def Let_def)
qed

lemma example_fixed: "GetLimit FixedLimit_ops (FixedLimit_Of 4 :: nat abstract_limit) = 4"
  by (simp add: FixedLimit_ops_def FixedLimit_Of_def limen_simps)

abbreviation example_ops :: "(nat abstract_limit partitioned, nat) limiter_ops" where
  "example_ops \<equiv> Partitioned_ops FixedLimit_ops 0 [True] [False]"

abbreviation example_start :: "nat abstract_limit partitioned" where
  "example_start \<equiv> example_limiter (NotifyOnChange FixedLimit_ops 0 (FixedLimit_Of 4))"

subsection \<open>The gate\<close>

lemma MaybeBackoffDelay_decides:
  assumes "is_int32 (pl_max_delayed_threads s)" and "is_int32 (pl_delayed_threads s)"
  shows "MaybeBackoffDelay fails part s = Inr (s\<lparr>pl_slept := pl_slept s @
    (if pt_reject_delay part \<noteq> 0 \<and> pl_delayed_threads s < pl_max_delayed_threads s then [(pl_sleep_fn s, pt_reject_delay part)] else [])\<rparr>)"
  using assms cas_below_alone [OF assms] by (auto simp: MaybeBackoffDelay_def Let_def)

text \<open>
  C26. Burst into idle: whatever the spurious failures of the two exchange loops, a request is
  admitted exactly when the global count is below the cap or its partition is below its quota,
  and then both counters go up by one; otherwise it is rejected with both counters untouched,
  after one sleep of the partition's reject delay if that is not zero and the number of delayed
  threads is below its bound, which is given back after the sleep.
\<close>

theorem partition_gate_decides:
  assumes "load_at (pl_partitions s) (ResolvePartition ctx s) = Inr part"
    and "is_int32 (al_inflight s + 1)" and "is_int32 (pt_busy part + 1)" and "is_int32 (pt_busy part)"
    and "is_int32 (pt_limit part)" and "is_int32 (pl_max_delayed_threads s)" and "is_int32 (pl_delayed_threads s)"
  shows "Partitioned_DoAcquire lops fails backoff_fails ctx s =
    (if al_inflight s < Limiter_GetLimit lops s \<or> pt_busy part < pt_limit part
     then Inr (Some \<lparr>ar_inflight_post = al_inflight s + 1, ar_partition_index = ResolvePartition ctx s\<rparr>,
       s\<lparr>al_inflight := al_inflight s + 1, pl_partitions := (pl_partitions s)[nat (ResolvePartition ctx s) :=
           part\<lparr>pt_busy := pt_busy part + 1\<rparr>]\<rparr>)
     else Inr (None, s\<lparr>pl_slept := pl_slept s @
       (if pt_reject_delay part \<noteq> 0 \<and> pl_delayed_threads s < pl_max_delayed_threads s
        then [(pl_sleep_fn s, pt_reject_delay part)] else [])\<rparr>))"
proof -
  have "store_at (ResolvePartition ctx s) p (pl_partitions s) = Inr ((pl_partitions s)[nat (ResolvePartition ctx s) := p])"
    for p using assms(1) by (auto simp: load_at_def store_at_def split: if_splits)
  then show ?thesis
    using assms cas_below_alone [OF assms(5,4)] MaybeBackoffDelay_decides [OF assms(6,7)]
    by (simp add: Partitioned_DoAcquire_def Let_def chk32_ok)
qed

theorem partition_gate_decides_witness:
  "Partitioned_DoAcquire FixedLimit_ops [True] [] ''live'' (example_start\<lparr>al_inflight := 4\<rparr>)
     = Inr (Some \<lparr>ar_inflight_post = 5, ar_partition_index = 0\<rparr>, example_start\<lparr>al_inflight := 5,
         pl_partitions := (pl_partitions example_start)[0 := (pl_partitions example_start ! 0)\<lparr>pt_busy := 1\<rparr>]\<rparr>)"
  using partition_gate_decides [of "example_start\<lparr>al_inflight := 4\<rparr>" "''live''" "pl_partitions example_start ! 0"
      FixedLimit_ops "[True]" "[]"]
  by (simp add: example_limiter_simps load_at_def ResolvePartition_def example_names_def kUnknownPartitionName_def
      is_int32_def)

subsection \<open>Resolution\<close>

text \<open>The name a context stands for: the first one a resolver gives that is declared.\<close>

definition resolved_name :: "'l partitioned \<Rightarrow> string \<Rightarrow> string" where
  "resolved_name s ctx =
     (case filter (\<lambda>n. n \<in> set (map pt_name (pl_partitions s))) (List.map_filter (\<lambda>r. r ctx) (pl_partition_resolvers s)) of
        [] \<Rightarrow> kUnknownPartitionName
      | n # ns \<Rightarrow> n)"

lemma resolve_with_spec:
  "resolve_with rs names unknown ctx =
     (case filter (\<lambda>n. n \<in> dom names) (List.map_filter (\<lambda>r. r ctx) rs) of [] \<Rightarrow> unknown | n # ns \<Rightarrow> the (names n))"
  by (induction rs) (auto simp: List.map_filter_simps split: option.splits)

lemma index_names_sound:
  "(index_names i specs m) n = Some j \<Longrightarrow>
     (\<exists>k < length specs. j = int (i + k) \<and> ps_name (specs ! k) = n) \<or> m n = Some j"
proof (induction specs arbitrary: i m)
  case (Cons spec specs)
  have "index_names (Suc i) specs (m(ps_name spec \<mapsto> int i)) n = Some j" using Cons.prems by simp
  from Cons.IH [OF this] consider k where "k < length specs" "j = int (Suc i + k)" "ps_name (specs ! k) = n"
    | "(m(ps_name spec \<mapsto> int i)) n = Some j" by blast
  then show ?case
  proof cases
    case 1
    then show ?thesis by (intro disjI1 exI [of _ "Suc k"]) simp
  next
    case 2
    then show ?thesis by (cases "n = ps_name spec") auto
  qed
qed simp

lemma index_names_dom: "dom (index_names i specs m) = ps_name ` set specs \<union> dom m"
  by (induction specs arbitrary: i m) (auto simp del: fun_upd_apply)

text \<open>The index of names points at partitions of those names, and knows all of them.\<close>

definition index_ok :: "'l partitioned \<Rightarrow> bool" where
  "index_ok s \<longleftrightarrow> dom (pl_partition_index_by_name s) = set (map pt_name (pl_partitions s))
     \<and> (\<forall>n j. pl_partition_index_by_name s n = Some j \<longrightarrow>
          (\<exists>k < length (pl_partitions s). j = int k \<and> pt_name (pl_partitions s ! k) = n))
     \<and> pl_partition_index_by_name s kUnknownPartitionName = Some (pl_unknown_partition_index s)"

lemma recompute_from_names: "recompute_from n ps = Inr ps' \<Longrightarrow> map pt_name ps' = map pt_name ps"
  by (induction ps arbitrary: ps') (auto simp: bind_res_Inr)

lemma Build_index_ok:
  assumes "Partitioned_Build StrCat lops self b = Inr (Inr s)"
  shows "index_ok s"
proof -
  obtain limit specs resolvers where v: "Partitioned_validate StrCat b = Inr (limit, specs, resolvers)"
    using assms by (auto simp: Partitioned_Build_def split: sum.splits)
  let ?parts = "map (\<lambda>spec. Partition_new (ps_name spec) (ps_percent spec) (ps_reject_delay spec)) specs
    @ [Partition_new kUnknownPartitionName (Fin 0) 0]"
  let ?names = "(index_names 0 specs Map.empty)(kUnknownPartitionName \<mapsto> int (length specs))"
  have s: "recompute_from (GetLimit lops limit) ?parts = Inr (pl_partitions s)"
    "pl_partition_index_by_name s = ?names" "pl_unknown_partition_index s = int (length specs)"
    using assms v
    by (auto simp: Partitioned_Build_def Partitioned_new_def RecomputePartitionLimits_def Let_def bind_res_Inr
        Limiter_GetLimit_def RegisterLimitChangeCallback_def AbstractLimiter_new_def abstract_limiter.defs)
  have ns: "map pt_name (pl_partitions s) = map ps_name specs @ [kUnknownPartitionName]"
    using recompute_from_names [OF s(1)] by (simp add: Partition_new_def comp_def)
  then have len: "length (pl_partitions s) = Suc (length specs)" by (metis length_append_singleton length_map)
  have nth: "pt_name (pl_partitions s ! k) = (map ps_name specs @ [kUnknownPartitionName]) ! k"
    if "k < length (pl_partitions s)" for k using ns that by (metis nth_map)
  have "\<exists>k < length (pl_partitions s). j = int k \<and> pt_name (pl_partitions s ! k) = n" if "?names n = Some j" for n j
  proof (cases "n = kUnknownPartitionName")
    case True
    then show ?thesis using that nth [of "length specs"] len by (intro exI [of _ "length specs"]) (simp add: nth_append)
  next
    case False
    have "index_names 0 specs Map.empty n = Some j" using that False by simp
    then obtain k where "k < length specs" "j = int k" "ps_name (specs ! k) = n"
      using index_names_sound [of 0 specs Map.empty n j] by auto
    then show ?thesis using nth [of k] len by (intro exI [of _ k]) (simp add: nth_append)
  qed
  then show ?thesis using s(2,3) ns index_names_dom [of 0 specs Map.empty]
    by (auto simp: index_ok_def)
qed

lemma index_ok_resolves:
  assumes "index_ok s"
  obtains k where "k < length (pl_partitions s)" and "ResolvePartition ctx s = int k"
    and "pt_name (pl_partitions s ! k) = resolved_name s ctx"
proof -
  have d: "dom (pl_partition_index_by_name s) = set (map pt_name (pl_partitions s))"
    using assms by (simp add: index_ok_def)
  have "\<exists>j. pl_partition_index_by_name s (resolved_name s ctx) = Some j \<and> ResolvePartition ctx s = j"
  proof (cases "filter (\<lambda>n. n \<in> set (map pt_name (pl_partitions s))) (List.map_filter (\<lambda>r. r ctx) (pl_partition_resolvers s))")
    case Nil
    then show ?thesis using assms by (simp add: resolved_name_def ResolvePartition_def resolve_with_spec d index_ok_def)
  next
    case (Cons n ns)
    then have "n \<in> dom (pl_partition_index_by_name s)" unfolding d by (metis filter_eq_ConsD)
    then obtain j where "pl_partition_index_by_name s n = Some j" by blast
    then show ?thesis using Cons by (simp add: resolved_name_def ResolvePartition_def resolve_with_spec d)
  qed
  then show ?thesis using that assms unfolding index_ok_def by blast
qed

text \<open>What stays as built over any run: the names, the index, the resolvers.\<close>

definition same_routing :: "'l partitioned \<Rightarrow> 'l partitioned \<Rightarrow> bool" where
  "same_routing s0 s \<longleftrightarrow> map pt_name (pl_partitions s) = map pt_name (pl_partitions s0)
     \<and> pl_partition_index_by_name s = pl_partition_index_by_name s0
     \<and> pl_partition_resolvers s = pl_partition_resolvers s0
     \<and> pl_unknown_partition_index s = pl_unknown_partition_index s0"

lemma busy_keeps_names:
  "i < length ps \<Longrightarrow> map pt_name (ps[i := (ps ! i)\<lparr>pt_busy := b\<rparr>]) = map pt_name ps"
  by (rule nth_equalityI) (auto simp: nth_list_update)

lemma same_routing_admit:
  assumes "same_routing s0 s" and "Partitioned_DoAcquire lops fails bf ctx s = Inr (r, s')"
  shows "same_routing s0 s'"
proof (cases r)
  case None
  then show ?thesis using Partitioned_rejects assms by (fastforce simp: same_routing_def)
next
  case (Some a)
  from assms(2) [unfolded Some] show ?thesis
    by (rule Partitioned_admits) (use assms(1) in \<open>simp add: same_routing_def busy_keeps_names\<close>)
qed

lemma same_routing_deliver: "deliver self cs s = Inr s' \<Longrightarrow> same_routing s0 s \<Longrightarrow> same_routing s0 s'"
proof (induction self cs s rule: deliver.induct)
  case (2 self cb n cs s)
  then obtain s1 where s1: "(if cb = self then RecomputePartitionLimits n s else Inr s) = Inr s1" "deliver self cs s1 = Inr s'"
    by (auto simp: bind_res_Inr split del: if_split)
  have "same_routing s0 s1"
    using s1(1) "2.prems"(2) recompute_from_names
    by (auto simp: RecomputePartitionLimits_def bind_res_Inr same_routing_def split: if_splits)
  then show ?case using "2.IH" [OF s1(2)] by simp
qed simp

lemma same_routing_complete:
  assumes "same_routing s0 s" and "Partitioned_OnSlotComplete lops self st t k byp j now s = Inr (s', cs)"
  shows "same_routing s0 s'"
proof -
  obtain s2 where d: "AbstractLimiter_OnSlotComplete lops Partitioned_OnReleasePartition st t k byp j now s = Inr (s2, cs)"
      "deliver self cs s2 = Inr s'"
    using assms(2) by (auto simp: Partitioned_OnSlotComplete_def bind_res_Inr)
  have "same_routing s0 s2"
  proof (cases byp)
    case False
    then obtain s1 where "Partitioned_OnReleasePartition j (s\<lparr>al_inflight := wrap32 (al_inflight s - 1)\<rparr>) = Inr s1"
      "same_routing s0 s1 \<Longrightarrow> same_routing s0 s2"
      using d(1) by (auto simp: AbstractLimiter_OnSlotComplete_def Let_def bind_res_Inr count_outcome_def same_routing_def
          split: if_splits)
    then show ?thesis
      using assms(1) by (auto elim!: Partitioned_releases simp: same_routing_def busy_keeps_names)
  qed (use assms(1) d(1) in \<open>simp add: AbstractLimiter_OnSlotComplete_def\<close>)
  then show ?thesis using same_routing_deliver [OF d(2)] by blast
qed

lemma same_routing_try:
  assumes "same_routing s0 s" and "DoTryAcquire (Partitioned_ops lops self fails bf) now ctx s = Inr (g, s')"
  shows "same_routing s0 s'"
proof (cases "case al_bypass_predicate s of None \<Rightarrow> False | Some p \<Rightarrow> p ctx")
  case True
  then show ?thesis using assms
    by (auto simp: Partitioned_ops_def AbstractLimiter_DoTryAcquire_def count_outcome_def same_routing_def)
next
  case False
  then obtain r s1 where r: "Partitioned_DoAcquire lops fails bf ctx s = Inr (r, s1)"
      "s' = s1 \<or> s' = count_outcome Status_kRejected s1"
    using assms(2) by (auto simp: Partitioned_ops_def AbstractLimiter_DoTryAcquire_def bind_res_Inr split: option.splits)
  then show ?thesis using same_routing_admit [OF assms(1) r(1)] by (auto simp: same_routing_def count_outcome_def)
qed

interpretation routing: guard_invariant "Partitioned_ops lops self fails bf" "\<lambda>n s M. same_routing s0 s"
  for lops self fails bf s0
  by unfold_locales
     (auto simp: SlotGuard_notify_def Partitioned_ops_def intro: same_routing_complete
       same_routing_try [unfolded Partitioned_ops_def, simplified])

lemma same_routing_index:
  assumes "same_routing s0 s" and "index_ok s0"
  shows "index_ok s"
proof -
  have n: "map pt_name (pl_partitions s) = map pt_name (pl_partitions s0)" using assms(1) by (simp add: same_routing_def)
  then have "length (pl_partitions s) = length (pl_partitions s0)" by (metis length_map)
  moreover have "pt_name (pl_partitions s ! k) = pt_name (pl_partitions s0 ! k)" if "k < length (pl_partitions s0)" for k
    using n that by (metis length_map nth_map)
  ultimately show ?thesis using assms n unfolding same_routing_def index_ok_def by metis
qed

text \<open>
  Resolution: at any point of any run, the partition a context is charged to exists, and its
  name is the first name some resolver, in order, gives for the context and that is declared;
  if there is none, it is the synthetic partition \<open>unknown\<close>.
\<close>

lemma partition_resolution:
  assumes "Partitioned_Build StrCat lops self b = Inr (Inr s0)"
    and "world_reach (Partitioned_ops lops self fails bf) s0 w"
  shows "\<exists>part. load_at (pl_partitions (w_limiter w)) (ResolvePartition ctx (w_limiter w)) = Inr part
    \<and> pt_name part = resolved_name (w_limiter w) ctx"
proof -
  have "same_routing s0 (w_limiter w)"
    using routing.reach_invariant [OF assms(2), of s0] by (simp add: same_routing_def)
  then have "index_ok (w_limiter w)" using same_routing_index Build_index_ok [OF assms(1)] by blast
  then show ?thesis by (rule index_ok_resolves [where ctx = ctx]) (auto simp: load_at_def)
qed

subsection \<open>Slots\<close>

text \<open>
  C13. Slots are conserved per partition: along every run of a program that acquires, completes,
  moves, assigns and destroys guards, the busy counter of each partition is the number of live
  guards admitted to it, and the global counter, the number of all live guards, is their sum.
\<close>

theorem partition_slots_conserved:
  assumes "Partitioned_Build StrCat lops self b = Inr (Inr s0)"
    and "world_reach (Partitioned_ops lops self fails bf) s0 w"
  shows "map pt_busy (pl_partitions (w_limiter w))
      = map (in_partition (live_guards (w_guards w))) [0 ..< length (pl_partitions (w_limiter w))]
    \<and> InflightCount (w_limiter w) = live_count (w_guards w)
    \<and> InflightCount (w_limiter w) = sum_list (map pt_busy (pl_partitions (w_limiter w)))"
proof -
  have s: "slots_inv (w_limiter w) (live_guards (w_guards w))"
    using partition_slots.reach_invariant [OF assms(2)] Partitioned_Build_inv [OF assms(1)] by blast
  then show ?thesis using slots_inv_sum(1) [OF s] by (simp add: slots_inv_def InflightCount_def live_count_size)
qed

text \<open>
  The overshoot of burst-into-idle when calls run one after the other: over a fixed limit, the number of requests in
  flight never exceeds the cap plus the sum of the quotas, the one of \<open>unknown\<close> included. What
  concurrent calls add to it is bounded in \<open>Partitioned_Overshoot\<close>.
\<close>

lemma partition_overshoot_bounded:
  assumes "Partitioned_Build StrCat FixedLimit_ops self b = Inr (Inr s0)"
    and "world_reach (Partitioned_ops FixedLimit_ops self fails bf) s0 w"
  shows "InflightCount (w_limiter w) \<le> max 0 (Limiter_GetLimit FixedLimit_ops s0) + sum_list (map pt_limit (pl_partitions s0))"
proof -
  let ?L = "Limiter_GetLimit FixedLimit_ops s0" and ?ls = "map pt_limit (pl_partitions s0)"
  obtain limit parts where p: "\<forall>p \<in> set parts. pt_busy p = 0"
      "recompute_from (GetLimit FixedLimit_ops limit) parts = Inr (pl_partitions s0)"
      "al_limit s0 = NotifyOnChange FixedLimit_ops self limit"
    by (rule Partitioned_Build_state [OF assms(1)]) blast
  have busy: "\<forall>q \<in> set (pl_partitions s0). pt_busy q = 0"
    using recompute_from_keeps [OF p(2)] p(1) by (metis (no_types, lifting) image_iff set_map)
  have lim: "\<forall>q \<in> set (pl_partitions s0). 0 \<le> pt_limit q"
    using recompute_from_match [OF p(2)]
    by (auto simp: quotas_match_def list_all_iff ComputePartitionLimit_def bind_res_Inr)
  have "excess (pl_partitions s0) \<le> sum_list (map pt_busy (pl_partitions s0))" by (rule excess_le_busy) (use busy lim in auto)
  also have "\<dots> = 0" using busy by (metis (no_types, lifting) map_eq_conv sum_list_0)
  finally have "overshoot_inv ?L ?ls s0" using lim by (simp add: overshoot_inv_def Limiter_GetLimit_def)
  then have J: "slots_inv (w_limiter w) (live_guards (w_guards w))" "overshoot_inv ?L ?ls (w_limiter w)"
    using overshoot.reach_invariant [OF assms(2), of ?L ?ls] Partitioned_Build_inv [OF assms(1)] by auto
  show ?thesis
    using busy_le_excess [of "pl_partitions (w_limiter w)"] slots_inv_sum(1) [OF J(1)] J(2)
    by (simp add: overshoot_inv_def InflightCount_def)
qed

subsection \<open>Quotas\<close>

text \<open>
  The quota of a partition is at least one, at most the cap (or one), and within rounding
  the least integer at or above the declared share of the cap.
\<close>

lemma partition_quota_bounds:
  assumes "is_int32 L" and "0 \<le> p" and "p \<le> 1"
  shows "\<exists>q. ComputePartitionLimit L (Fin p) = Inr q \<and> 1 \<le> q \<and> q \<le> max 1 L
    \<and> of_int L * p - 1 / 2 ^ 20 \<le> of_int q \<and> of_int q \<le> max 1 (of_int L * p + 1 + 1 / 2 ^ 20)"
proof -
  let ?x = "of_int L * p :: rat"
  have "\<bar>?x\<bar> \<le> \<bar>of_int L\<bar>" using assms(2,3) by (simp add: abs_mult mult_left_le)
  moreover have "\<bar>of_int L :: rat\<bar> \<le> 2 ^ 31"
    using assms(1) unfolding is_int32_def by simp linarith
  ultimately have "\<bar>rnd ?x - ?x\<bar> \<le> 1 / 2 ^ 20" using rnd_abs_error [of ?x] by simp
  then have e: "?x - 1 / 2 ^ 20 \<le> rnd ?x" "rnd ?x \<le> ?x + 1 / 2 ^ 20" by linarith+
  define c where "c = \<lceil>rnd ?x\<rceil>"
  have c: "rnd ?x \<le> of_int c" "of_int c < rnd ?x + 1" unfolding c_def by linarith+
  have q: "of_int (max 1 c) = max 1 (of_int c :: rat)" by (simp add: of_int_max)
  show ?thesis
  proof (intro exI conjI)
    show "ComputePartitionLimit L (Fin p) = Inr (max 1 c)" using quota_value(1) [OF assms] by (simp add: c_def)
    show "max 1 c \<le> max 1 L" using quota_value(2) [OF assms] by (auto simp: c_def)
    show "of_int L * p - 1 / 2 ^ 20 \<le> of_int (max 1 c)" unfolding q using e(1) c(1) by linarith
    show "of_int (max 1 c) \<le> max 1 (of_int L * p + 1 + 1 / 2 ^ 20)" unfolding q using e(2) c(2) by linarith
  qed simp
qed

theorem partition_quota_bounds_witness:
  "ComputePartitionLimit 10 (Fin (1/4)) = Inr 3"
proof -
  obtain q where "ComputePartitionLimit 10 (Fin (1/4)) = Inr q"
    "(10 * (1/4) - 1 / 2 ^ 20 :: rat) \<le> of_int q" "of_int q \<le> max 1 (10 * (1/4) + 1 + 1 / 2 ^ 20 :: rat)"
    using partition_quota_bounds [of 10 "1/4"] by (auto simp: is_int32_def)
  moreover have "of_int q < (4 :: rat)" "2 < (of_int q :: rat)" using calculation by auto
  then have "q = 3" by linarith
  ultimately show ?thesis by simp
qed

text \<open>
  C33. Quotas follow the cap: over an adaptive limit, at every point of every run each partition's
  quota is the one computed from the current cap, since every change of the cap is announced to
  the limiter's callback.
\<close>

theorem partition_quotas_track:
  assumes "Partitioned_Build StrCat Gradient2_ops self b = Inr (Inr s0)"
    and "pb_limit b = Some (Gradient2_Build gb)" and "gb_ok gb"
    and "world_reach (Partitioned_ops Gradient2_ops self fails bf) s0 w"
  shows "\<forall>part \<in> set (pl_partitions (w_limiter w)).
    ComputePartitionLimit (Limiter_GetLimit Gradient2_ops (w_limiter w)) (pt_percent part) = Inr (pt_limit part)"
proof -
  obtain limit parts where p: "pb_limit b = Some limit" "recompute_from (GetLimit Gradient2_ops limit) parts = Inr (pl_partitions s0)"
      "al_limit s0 = NotifyOnChange Gradient2_ops self limit"
    by (rule Partitioned_Build_state [OF assms(1)]) blast
  have "limit = Gradient2_Build gb" using p(1) assms(2) by simp
  then have "g2_inv limit" using assms(3) by (simp add: Gradient2_Build_inv)
  then have "gradient2_quotas.quotas_inv self s0"
    using gradient2.notify_inv [of limit self] gradient2.notify_listeners [of self limit]
      gradient2.notify_limit [of self limit] recompute_from_match [OF p(2)] p(3)
    by (simp add: gradient2_quotas.quotas_inv_def)
  then have "gradient2_quotas.quotas_inv self (w_limiter w)"
    using gradient2_quotas.quotas.reach_invariant [OF assms(4)] by blast
  then show ?thesis
    by (simp add: gradient2_quotas.quotas_inv_def quotas_match_def list_all_iff Limiter_GetLimit_def)
qed

subsection \<open>Witnesses on the example\<close>

definition example_slot :: slot_guard where
  "example_slot = MakeSlot 7 1 False 0"

definition example_one :: "nat abstract_limit partitioned" where
  "example_one = example_start\<lparr>al_inflight := 1,
     pl_partitions := (pl_partitions example_start)[0 := (pl_partitions example_start ! 0)\<lparr>pt_busy := 1\<rparr>]\<rparr>"

lemma example_acquires: "DoTryAcquire example_ops 7 ''live'' example_start = Inr (Some example_slot, example_one)"
  by (simp add: Partitioned_ops_def AbstractLimiter_DoTryAcquire_def Partitioned_DoAcquire_def example_limiter_simps
      load_at_def store_at_def ResolvePartition_def example_names_def kUnknownPartitionName_def is_int32_def chk32_ok
      Limiter_GetLimit_def FixedLimit_ops_def FixedLimit_Of_def limen_simps example_one_def example_slot_def Let_def)

lemma example_run:
  "world_reach example_ops example_start \<lparr>w_limiter = example_one, w_guards = [example_slot], w_calls = 1\<rparr>"
  using world_step.acquired [of example_ops 7 "''live''" "\<lparr>w_limiter = example_start, w_guards = [], w_calls = 0\<rparr>",
      simplified, OF example_acquires]
  by (simp add: world_reach_def r_into_rtranclp)

lemmas example_built = example_build [OF example_fixed, of "\<lambda>_. ''n''" 0]

lemma partition_resolution_witness:
  "world_reach example_ops example_start \<lparr>w_limiter = example_one, w_guards = [example_slot], w_calls = 1\<rparr>
    \<and> (\<exists>part. load_at (pl_partitions example_one) (ResolvePartition ''batch'' example_one) = Inr part
         \<and> pt_name part = ''unknown'')"
proof -
  have "resolved_name example_one ''batch'' = ''unknown''"
    by (simp add: resolved_name_def example_one_def example_limiter_simps List.map_filter_simps kUnknownPartitionName_def)
  then show ?thesis using partition_resolution [OF example_built example_run, of "''batch''"] example_run by simp
qed

theorem partition_slots_conserved_witness:
  "world_reach example_ops example_start \<lparr>w_limiter = example_one, w_guards = [example_slot], w_calls = 1\<rparr>
    \<and> map pt_busy (pl_partitions example_one) = [1, 0] \<and> InflightCount example_one = 1"
proof -
  have "length (pl_partitions example_one) = 2" by (simp add: example_one_def example_limiter_simps)
  moreover have "live_guards [example_slot] = {#example_slot#}"
    by (simp add: live_guards_def example_slot_def live_def MakeSlot_def)
  moreover have "[0 ..< 2] = [0, 1 :: nat]" by (simp add: numeral_eq_Suc)
  ultimately show ?thesis
    using partition_slots_conserved [OF example_built example_run] example_run
    by (simp add: live_count_size example_slot_def MakeSlot_def)
qed

lemma partition_overshoot_bounded_witness:
  "world_reach example_ops example_start \<lparr>w_limiter = example_one, w_guards = [example_slot], w_calls = 1\<rparr>
    \<and> InflightCount example_one \<le> 4 + (2 + 1)"
  using partition_overshoot_bounded [OF example_built example_run] example_run
  by (simp add: example_limiter_simps Limiter_GetLimit_def FixedLimit_ops_def FixedLimit_Of_def limen_simps)

theorem partition_quotas_track_witness:
  "\<exists>s0. Partitioned_Build (\<lambda>_. ''n'') Gradient2_ops 0
      (example_builder (Fin (1/2)) (Gradient2_Build (gb_initial_limit_update (\<lambda>_. 4) Gradient2_Builder) :: nat gradient2)) = Inr (Inr s0)
    \<and> (\<forall>part \<in> set (pl_partitions s0). ComputePartitionLimit 4 (pt_percent part) = Inr (pt_limit part))"
proof -
  define gb where "gb = gb_initial_limit_update (\<lambda>_. 4) Gradient2_Builder"
  let ?l = "Gradient2_Build gb :: nat gradient2"
  have g: "GetLimit Gradient2_ops ?l = 4" "gb_ok gb"
    using Gradient2_Builder_ok by (simp_all add: gb_def gb_ok_def is_int32_def)
  let ?s = "example_limiter (NotifyOnChange Gradient2_ops 0 ?l)"
  have b: "Partitioned_Build (\<lambda>_. ''n'') Gradient2_ops 0 (example_builder (Fin (1/2)) ?l) = Inr (Inr ?s)"
    by (rule example_build) (rule g)
  have "pb_limit (example_builder (Fin (1/2)) ?l) = Some ?l"
    by (simp add: example_builder_def PartitionResolver_def PartitionRejectDelay_def Builder_Partition_def Partitioned_Limit_def)
  from partition_quotas_track [OF b this g(2), of "[]" "[]" "\<lparr>w_limiter = ?s, w_guards = [], w_calls = 0\<rparr>"]
  have "\<forall>part \<in> set (pl_partitions ?s). ComputePartitionLimit (Limiter_GetLimit Gradient2_ops ?s) (pt_percent part) = Inr (pt_limit part)"
    by (simp add: world_reach_def)
  moreover have "Limiter_GetLimit Gradient2_ops ?s = 4"
    using g(1) gradient2.notify_limit [of 0 ?l] by (simp add: Limiter_GetLimit_def example_limiter_simps)
  ultimately show ?thesis using b unfolding gb_def [symmetric] by (intro exI [of _ ?s]) simp
qed

end
