(* ===== verification/Telemetry.thy ===== *)
theory Telemetry
  imports Gradient2 Codel Simple_Limiter Partitioned_Properties
begin

section \<open>Telemetry: instruments, views and what a collection reports\<close>

text \<open>
  The instruments the components register when they are built with a meter provider
  (\<^verbatim>\<open>RegisterObservableInstruments\<close> of \<^verbatim>\<open>abstract_limiter.cc\<close> and \<^verbatim>\<open>codel_filter.cc\<close>,
  \<^verbatim>\<open>RegisterPartitionInstruments\<close> of \<^verbatim>\<open>abstract_partitioned_limiter.cc\<close>, the views and histograms of
  \<^verbatim>\<open>gradient2_limit.cc\<close>). A registration is data: the arguments of the calls of OpenTelemetry,
  in order. OpenTelemetry runs the callback of an observable instrument when it collects;
  \<open>collect\<close> is that, for the state of the limiter at that moment. What the SDK does with rows and
  recorded values afterwards is not modelled.
\<close>

subsection \<open>Registrations\<close>

datatype instrument_type = Int64ObservableGauge | Int64ObservableUpDownCounter | Int64ObservableCounter | DoubleHistogram

record 's instrument =
  in_meter :: string
  in_type :: instrument_type
  in_name :: string
  in_description :: string
  in_unit :: string
  in_callback :: "'s \<Rightarrow> observation list"

record histogram_view =
  hv_meter :: string
  hv_name :: string
  hv_description :: string
  hv_unit :: string
  hv_boundaries :: "double list"

definition kMeterName :: string where
  "kMeterName = ''limen''"

definition RegisterObservableInstruments ::
  "('l, 'cb) limit_ops \<Rightarrow> (('l, 'z) abstract_limiter_scheme \<Rightarrow> observation list) \<Rightarrow> ('l, 'z) abstract_limiter_scheme \<Rightarrow>
   ('l, 'z) abstract_limiter_scheme instrument list" where
  "RegisterObservableInstruments lops observe_inflight s =
     (if \<not> al_meter_provider s then []
      else
        [\<lparr>in_meter = kMeterName, in_type = Int64ObservableGauge, in_name = ''limen.limit'',
          in_description = ''Current concurrency cap.'', in_unit = ''1'', in_callback = ObserveLimit lops\<rparr>,
         \<lparr>in_meter = kMeterName, in_type = Int64ObservableUpDownCounter, in_name = ''limen.inflight'',
          in_description = ''Requests currently in progress.'', in_unit = ''1'', in_callback = observe_inflight\<rparr>,
         \<lparr>in_meter = kMeterName, in_type = Int64ObservableCounter, in_name = ''limen.call'',
          in_description = ''Cumulative outcomes of admission decisions.'', in_unit = ''1'', in_callback = ObserveCall\<rparr>])"

definition RegisterPartitionInstruments :: "'l partitioned \<Rightarrow> 'l partitioned instrument list" where
  "RegisterPartitionInstruments s =
     (if \<not> GetMeterProvider s then []
      else
        [\<lparr>in_meter = kMeterName, in_type = Int64ObservableGauge, in_name = ''limen.limit.partition'',
          in_description = ''Per-partition concurrency cap.'', in_unit = ''1'', in_callback = ObservePartitionLimit\<rparr>])"

definition Codel_RegisterObservableInstruments :: "('t, 'd) codel \<Rightarrow> ('t, 'd) codel instrument list" where
  "Codel_RegisterObservableInstruments s =
     (if \<not> cf_meter_provider s then []
      else
        [\<lparr>in_meter = kMeterName, in_type = Int64ObservableCounter, in_name = ''limen.codel.drops'',
          in_description = ''Cumulative count of items the CoDel filter has dropped.'', in_unit = ''1'',
          in_callback = ObserveDrops\<rparr>,
         \<lparr>in_meter = kMeterName, in_type = Int64ObservableUpDownCounter, in_name = ''limen.codel.dropping'',
          in_description = ''Whether the CoDel filter is currently in drop mode (0 or 1).'', in_unit = ''1'',
          in_callback = ObserveDropping\<rparr>])"

definition Codel_MeterProvider :: "bool \<Rightarrow> 'd codel_builder \<Rightarrow> 'd codel_builder" where
  "Codel_MeterProvider p b = b\<lparr>cfb_meter_provider := p\<rparr>"

definition Gradient2_MeterProvider :: "bool \<Rightarrow> gradient2_builder \<Rightarrow> gradient2_builder" where
  "Gradient2_MeterProvider p b = b\<lparr>gb_meter_provider := p\<rparr>"

definition LatencyBucketsNs :: "double list" where
  "LatencyBucketsNs = map Fin [1000, 10000, 100000, 1000000, 10000000, 100000000, 1000000000, 10000000000]"

definition QueueSizeBuckets :: "double list" where
  "QueueSizeBuckets = map Fin [1, 4, 10, 50, 100, 500, 1000]"

definition RegisterHistogramView :: "string \<Rightarrow> string \<Rightarrow> string \<Rightarrow> double list \<Rightarrow> histogram_view" where
  "RegisterHistogramView instrument_name description unit boundaries =
     \<lparr>hv_meter = kMeterName, hv_name = instrument_name, hv_description = description, hv_unit = unit, hv_boundaries = boundaries\<rparr>"

text \<open>The views and, after them, the histograms a limit registers; a histogram has no callback.\<close>

definition Gradient2_RegisterHistograms :: "gradient2_builder \<Rightarrow> histogram_view list \<times> unit instrument list" where
  "Gradient2_RegisterHistograms b =
     (if \<not> gb_meter_provider b then ([], [])
      else
        ([RegisterHistogramView ''limen.min_rtt'' ''Long-term baseline RTT, per window.'' ''ns'' LatencyBucketsNs,
          RegisterHistogramView ''limen.min_window_rtt'' ''Short-window RTT measurement, per window.'' ''ns'' LatencyBucketsNs,
          RegisterHistogramView ''limen.queue_size''
            ''Algorithm queue-size term (additive-increase amount), per window.'' ''1'' QueueSizeBuckets],
         [\<lparr>in_meter = kMeterName, in_type = DoubleHistogram, in_name = ''limen.min_rtt'',
           in_description = ''Long-term baseline RTT, per window.'', in_unit = ''ns'', in_callback = (\<lambda>_. [])\<rparr>,
          \<lparr>in_meter = kMeterName, in_type = DoubleHistogram, in_name = ''limen.min_window_rtt'',
           in_description = ''Short-window RTT measurement, per window.'', in_unit = ''ns'', in_callback = (\<lambda>_. [])\<rparr>,
          \<lparr>in_meter = kMeterName, in_type = DoubleHistogram, in_name = ''limen.queue_size'',
           in_description = ''Algorithm queue-size term (additive-increase amount), per window.'', in_unit = ''1'',
           in_callback = (\<lambda>_. [])\<rparr>]))"

text \<open>What a collection reports: the rows of every observable instrument, by its name.\<close>

definition collect :: "'s instrument list \<Rightarrow> 's \<Rightarrow> (string \<times> observation list) list" where
  "collect is s = map (\<lambda>i. (in_name i, in_callback i s)) is"

definition Simple_instruments ::
  "('l, 'cb) limit_ops \<Rightarrow> 'l abstract_limiter \<Rightarrow> 'l abstract_limiter instrument list" where
  "Simple_instruments lops s = RegisterObservableInstruments lops OnObserveInflight s"

definition Partitioned_instruments :: "('l, 'cb) limit_ops \<Rightarrow> 'l partitioned \<Rightarrow> 'l partitioned instrument list" where
  "Partitioned_instruments lops s =
     RegisterObservableInstruments lops Partitioned_OnObserveInflight s @ RegisterPartitionInstruments s"

subsection \<open>Limiters\<close>

lemma ObserveCall_rows:
  assumes "length (al_outcome_counts s) = 5"
  shows "map fst (ObserveCall s) = al_outcome_counts s"
    and "map snd (ObserveCall s) = map (\<lambda>l. [(''id'', al_id s), (''status'', l)]) kStatusLabels"
proof -
  have "map (\<lambda>i. al_outcome_counts s ! i) [0 ..< length (al_outcome_counts s)] = al_outcome_counts s" by (rule map_nth)
  then show "map fst (ObserveCall s) = al_outcome_counts s" using assms by (simp add: ObserveCall_def comp_def)
  have "length kStatusLabels = 5" by (simp add: kStatusLabels_def)
  then have l: "map (\<lambda>i. kStatusLabels ! i) [0 ..< 5] = kStatusLabels" using map_nth [of kStatusLabels] by simp
  have "map snd (ObserveCall s) = map (\<lambda>l. [(''id'', al_id s), (''status'', l)]) (map (\<lambda>i. kStatusLabels ! i) [0 ..< 5])"
    by (simp add: ObserveCall_def)
  then show "map snd (ObserveCall s) = map (\<lambda>l. [(''id'', al_id s), (''status'', l)]) kStatusLabels" unfolding l .
qed

text \<open>
  C32. What is reported adds up: a simple limiter built with a meter provider registers three
  instruments, and a collection at any point of any run reports the current cap, the number of
  live guards, and one row per outcome, labelled in the order of the labels, whose sum together
  with the live guards is the number of calls of \<^verbatim>\<open>TryAcquire\<close> modulo \<open>2 ^ 64\<close>.
\<close>

theorem telemetry_accounts:
  assumes "Simple_Build b = Inr s0" and "sb_meter_provider b" and "world_reach (Simple_ops lops fails) s0 w"
    and "live_count (w_guards w) \<le> INT_MAX"
  shows "\<exists>calls. collect (Simple_instruments lops s0) (w_limiter w) =
      [(''limen.limit'', [(Limiter_GetLimit lops (w_limiter w), [(''id'', al_id (w_limiter w))])]),
       (''limen.inflight'', [(live_count (w_guards w), [(''id'', al_id (w_limiter w))])]),
       (''limen.call'', calls)]
    \<and> map snd calls = map (\<lambda>l. [(''id'', al_id (w_limiter w)), (''status'', l)]) kStatusLabels
    \<and> 18446744073709551616 dvd (sum_list (map fst calls) + live_count (w_guards w) - int (w_calls w))"
proof -
  have m: "al_meter_provider s0"
    using assms(1,2) by (auto simp: Simple_Build_def AbstractLimiter_new_def split: option.splits)
  have "balanced 0 0 s0" using assms(1) by (rule Simple_Build_balanced)
  then have b: "balanced (int (w_calls w)) (live_count (w_guards w)) (w_limiter w)"
    using simple.books.reach_invariant [of lops fails s0 w] assms(3) by (simp add: Simple_ops_def live_count_size)
  have "is_int32 (live_count (w_guards w))" using assms(4) by (simp add: live_count_def is_int32_def)
  then have i: "al_inflight (w_limiter w) = live_count (w_guards w)" by (rule balanced_inflight [OF b])
  have "length (al_outcome_counts (w_limiter w)) = 5" using b by (simp add: balanced_def)
  note r = ObserveCall_rows [OF this]
  have "collect (Simple_instruments lops s0) (w_limiter w) =
      [(''limen.limit'', [(Limiter_GetLimit lops (w_limiter w), [(''id'', al_id (w_limiter w))])]),
       (''limen.inflight'', [(live_count (w_guards w), [(''id'', al_id (w_limiter w))])]),
       (''limen.call'', ObserveCall (w_limiter w))]"
    using m i by (simp add: collect_def Simple_instruments_def RegisterObservableInstruments_def ObserveLimit_def
        OnObserveInflight_def Limiter_GetLimit_def)
  moreover have "18446744073709551616 dvd (sum_list (map fst (ObserveCall (w_limiter w))) + live_count (w_guards w) - int (w_calls w))"
    using b r(1) by (simp add: balanced_def algebra_simps)
  ultimately show ?thesis using r(2) by blast
qed

text \<open>The rows of a partitioned limiter: after the global row of \<open>limen.inflight\<close> come rows per
  partition whose sum it is.\<close>

lemma partition_rows_add_up:
  assumes "Partitioned_Build StrCat lops self b = Inr (Inr s0)"
    and "world_reach (Partitioned_ops lops self fails bf) s0 w"
  shows "\<exists>rows. Partitioned_OnObserveInflight (w_limiter w) = (live_count (w_guards w), [(''id'', al_id (w_limiter w))]) # rows
    \<and> sum_list (map fst rows) = live_count (w_guards w) \<and> length rows = length (ObservePartitionLimit (w_limiter w))"
proof -
  have s: "slots_inv (w_limiter w) (live_guards (w_guards w))"
    using partition_slots.reach_invariant [OF assms(2)] Partitioned_Build_inv [OF assms(1)] by blast
  then have i: "al_inflight (w_limiter w) = live_count (w_guards w)" by (simp add: slots_inv_def live_count_size)
  have t: "sum_list (map pt_busy (pl_partitions (w_limiter w))) = live_count (w_guards w)"
    using slots_inv_sum(1) [OF s] s by (simp add: slots_inv_def live_count_size)
  show ?thesis
    by (rule exI [of _ "map (\<lambda>part. (pt_busy part, [(''id'', al_id (w_limiter w)), (''partition'', pt_name part)])) (pl_partitions (w_limiter w))"])
       (simp add: Partitioned_OnObserveInflight_def OnObserveInflight_def ObservePartitionLimit_def i comp_def t)
qed

subsection \<open>Histograms\<close>

lemma buckets_increasing: "sorted_wrt dless LatencyBucketsNs" "sorted_wrt dless QueueSizeBuckets"
  by (simp_all add: LatencyBucketsNs_def QueueSizeBuckets_def)

lemma drift_recorded [simp]: "g2_recorded (Gradient2_drift l h s) = g2_recorded s" "g2_has_hist (Gradient2_drift l h s) = g2_has_hist s"
  by (simp_all add: Gradient2_drift_def)

text \<open>What is recorded goes to the three histograms, and only if there are any.\<close>

definition records_ok :: "'cb gradient2 \<Rightarrow> bool" where
  "records_ok s \<longleftrightarrow> fst ` set (g2_recorded s) \<subseteq> {''limen.min_rtt'', ''limen.min_window_rtt'', ''limen.queue_size''}
     \<and> (g2_recorded s \<noteq> [] \<longrightarrow> g2_has_hist s)"

lemma records_ok_Histograms: "records_ok s \<Longrightarrow> records_ok (RecordHistograms h l q (s\<lparr>g2_long_rtt := ea\<rparr>))"
  by (auto simp: records_ok_def RecordHistograms_def)

lemma has_hist_Histograms [simp]: "g2_has_hist (RecordHistograms h l q s) = g2_has_hist s"
  by (simp add: RecordHistograms_def)

lemma records_ok_frame [simp]:
  "records_ok (s\<lparr>g2_estimated_limit := e\<rparr>) = records_ok s" "records_ok (Gradient2_drift l h s) = records_ok s"
  by (simp_all add: records_ok_def)

lemma Gradient2_OnSample_records:
  assumes "OnSample Gradient2_ops t r i d s = Inr (s', cs)" and "records_ok s"
  shows "records_ok s' \<and> g2_has_hist s' = g2_has_hist s"
proof -
  obtain n u where u: "Gradient2_Update t r i d s = Inr (n, u)" "s' = u\<lparr>m_limit := n\<rparr>"
    using assms(1) by (auto simp: Gradient2_ops_def AbstractLimit_ops_def AbstractLimit_OnSample_def SetLimitLocked_eq bind_res_Inr)
  have h: "records_ok (RecordHistograms h l q (s\<lparr>g2_long_rtt := ea\<rparr>))" for h l q ea
    by (rule records_ok_Histograms [OF assms(2)])
  have "records_ok u \<and> g2_has_hist u = g2_has_hist s"
    using u(1) assms(2) by (auto simp: Gradient2_Update_def Let_def bind_res_Inr h split: if_splits)
  then show ?thesis using u(2) by (auto simp: records_ok_def)
qed

lemma Gradient2_feed_records:
  "feed Gradient2_ops xs s = Inr (s', cs) \<Longrightarrow> records_ok s \<Longrightarrow> records_ok s' \<and> g2_has_hist s' = g2_has_hist s"
proof (induction xs arbitrary: s cs)
  case Nil
  then show ?case by simp
next
  case (Cons x xs)
  obtain t r i d where x: "x = (t, r, i, d)" by (cases x)
  from Cons.prems(1) obtain s1 cs1 cs2 where
    s1: "OnSample Gradient2_ops t r i d s = Inr (s1, cs1)" "feed Gradient2_ops xs s1 = Inr (s', cs2)"
    by (auto simp: x bind_res_Inr)
  then show ?case using Gradient2_OnSample_records [OF s1(1) Cons.prems(2)] Cons.IH [OF s1(2)] by simp
qed

lemma gradient2_records_viewed:
  assumes "feed Gradient2_ops xs (Gradient2_Build b :: 'cb gradient2) = Inr (s, cs)" and "(n, v, i) \<in> set (g2_recorded s)"
  shows "\<exists>view \<in> set (fst (Gradient2_RegisterHistograms b)). \<exists>ins \<in> set (snd (Gradient2_RegisterHistograms b)).
    hv_name view = n \<and> in_name ins = n \<and> hv_unit view = in_unit ins \<and> sorted_wrt dless (hv_boundaries view)"
proof -
  have "records_ok (Gradient2_Build b :: 'cb gradient2)" "g2_has_hist (Gradient2_Build b :: 'cb gradient2) = gb_meter_provider b"
    by (simp_all add: records_ok_def Gradient2_Build_def)
  then have "records_ok s" "g2_has_hist s = gb_meter_provider b" using Gradient2_feed_records [OF assms(1)] by simp_all
  moreover have "n \<in> fst ` set (g2_recorded s)" "g2_recorded s \<noteq> []" using assms(2) by force+
  ultimately have n: "n = ''limen.min_rtt'' \<or> n = ''limen.min_window_rtt'' \<or> n = ''limen.queue_size''" and m: "gb_meter_provider b"
    unfolding records_ok_def by blast+
  show ?thesis using m n buckets_increasing
    by (elim disjE) (simp_all add: Gradient2_RegisterHistograms_def RegisterHistogramView_def)
qed

subsection \<open>A run that is observed\<close>

definition observed_limiter :: "nat abstract_limit abstract_limiter" where
  "observed_limiter = AbstractLimiter_new (FixedLimit_Of 1) ''api'' None True"

lemma observed_built:
  "Simple_Build (Simple_MeterProvider True (Simple_Id ''api'' (Simple_Limit (Some (FixedLimit_Of 1)) Simple_Builder))) = Inr observed_limiter"
  by (simp add: Simple_Build_def Simple_MeterProvider_def Simple_Id_def Simple_Limit_def Simple_Builder_def observed_limiter_def)

text \<open>One call admitted, the next rejected.\<close>

definition observed_world :: "nat abstract_limit abstract_limiter world" where
  "observed_world = \<lparr>w_limiter = count_outcome Status_kRejected (observed_limiter\<lparr>al_inflight := 1\<rparr>),
     w_guards = [MakeSlot 5 1 False (- 1)], w_calls = 2\<rparr>"

lemma observed_run: "world_reach (Simple_ops FixedLimit_ops []) observed_limiter observed_world"
proof -
  let ?ops = "Simple_ops FixedLimit_ops [] :: (nat abstract_limit abstract_limiter, nat) limiter_ops"
  let ?s1 = "observed_limiter\<lparr>al_inflight := 1\<rparr>" and ?g = "MakeSlot 5 1 False (- 1)"
  have f: "al_bypass_predicate observed_limiter = None" "al_inflight observed_limiter = 0"
      "GetLimit FixedLimit_ops (al_limit observed_limiter) = 1"
    by (simp_all add: observed_limiter_def AbstractLimiter_new_def FixedLimit_ops_def FixedLimit_Of_def limen_simps)
  have "DoTryAcquire ?ops 5 ''a'' observed_limiter = Inr (Some ?g, ?s1)"
    using Simple_TryAcquire [of observed_limiter FixedLimit_ops "[]" 5 "''a''"] f by (simp add: TryAcquire_def is_int32_def)
  then have 1: "world_step ?ops \<lparr>w_limiter = observed_limiter, w_guards = [], w_calls = 0\<rparr> \<lparr>w_limiter = ?s1, w_guards = [?g], w_calls = 1\<rparr>"
    using world_step.acquired [of ?ops 5 "''a''" "\<lparr>w_limiter = observed_limiter, w_guards = [], w_calls = 0\<rparr>"] by simp
  have "DoTryAcquire ?ops 6 ''b'' ?s1 = Inr (None, count_outcome Status_kRejected ?s1)"
    using Simple_TryAcquire [of ?s1 FixedLimit_ops "[]" 6 "''b''"] f by (simp add: TryAcquire_def is_int32_def)
  then have 2: "world_step ?ops \<lparr>w_limiter = ?s1, w_guards = [?g], w_calls = 1\<rparr> observed_world"
    using world_step.rejected [of ?ops 6 "''b''" "\<lparr>w_limiter = ?s1, w_guards = [?g], w_calls = 1\<rparr>"]
    by (simp add: observed_world_def numeral_2_eq_2)
  show ?thesis unfolding world_reach_def using 1 2 by (rule converse_rtranclp_into_rtranclp [OF _ r_into_rtranclp])
qed

theorem telemetry_accounts_witness:
  "\<exists>calls. collect (Simple_instruments FixedLimit_ops observed_limiter) (w_limiter observed_world) =
      [(''limen.limit'', [(1, [(''id'', ''api'')])]), (''limen.inflight'', [(1, [(''id'', ''api'')])]), (''limen.call'', calls)]
    \<and> map snd calls = map (\<lambda>l. [(''id'', ''api''), (''status'', l)]) kStatusLabels
    \<and> 18446744073709551616 dvd (sum_list (map fst calls) + 1 - 2)"
proof -
  have l: "live_count (w_guards observed_world) = 1" by (simp add: observed_world_def live_count_def live_def MakeSlot_def)
  have f: "al_id (w_limiter observed_world) = ''api''" "Limiter_GetLimit FixedLimit_ops (w_limiter observed_world) = 1"
      "w_calls observed_world = 2"
    by (simp_all add: observed_world_def observed_limiter_def AbstractLimiter_new_def count_outcome_def Limiter_GetLimit_def
        FixedLimit_ops_def FixedLimit_Of_def limen_simps)
  have "sb_meter_provider (Simple_MeterProvider True (Simple_Id ''api'' (Simple_Limit (Some (FixedLimit_Of 1 :: nat abstract_limit)) Simple_Builder)))"
    by (simp add: Simple_MeterProvider_def)
  from telemetry_accounts [OF observed_built this observed_run, unfolded l f] show ?thesis by simp
qed

end
