(* ===== verification/Waiting_Room.thy ===== *)
theory Waiting_Room
  imports Simple_Limiter Absl_Time
begin

section \<open>The waiting room: what the two blocking limiters share\<close>

text \<open>
  \<^verbatim>\<open>BlockingLimiter\<close> and \<^verbatim>\<open>LifoBlockingLimiter\<close> wrap a limiter and park a caller it rejects. Their
  members, their slot map and most of their critical sections are the same code; they are
  modelled here once, and the two classes (theories \<open>Blocking\<close> and \<open>Lifo_Blocking\<close>) extend the
  record and add what differs.

  A \<^verbatim>\<open>WaiterSlot\<close> lives on the stack of the call that waits. \<open>wt_waiters\<close> is that memory: entry
  \<open>i\<close> is the slot of call \<open>i\<close> while it exists, and a pointer in the queue is such an index, so a
  pointer to a slot that is gone is dereferenced as \<open>Dangling\<close>. \<^verbatim>\<open>active_slots_\<close> is a list of keys
  and guards. Every section under \<^verbatim>\<open>mu_\<close>, and every call of the delegate, is an operation of its
  own; \<open>room_step\<close> interleaves the operations of any number of calls.
\<close>

subsection \<open>Members\<close>

record waiter_slot =
  wtr_context :: string
  wtr_slot :: "slot_guard option"
  wtr_ready :: bool

definition WaiterSlot_new :: "string \<Rightarrow> waiter_slot" where
  "WaiterSlot_new context = \<lparr>wtr_context = context, wtr_slot = None, wtr_ready = False\<rparr>"

record 'd waiting =
  wt_delegate :: 'd
  wt_queue :: "nat list"
  wt_active_slots :: "(int \<times> slot_guard) list"
  wt_next_slot_id :: int
  wt_waiters :: "waiter_slot option list"

subsection \<open>Operations\<close>

text \<open>\<^verbatim>\<open>next_slot_id_.fetch_add(1)\<close>\<close>

definition wait_issue :: "('d, 'z) waiting_scheme \<Rightarrow> int \<times> ('d, 'z) waiting_scheme" where
  "wait_issue s = (wt_next_slot_id s, s\<lparr>wt_next_slot_id := wrap32 (wt_next_slot_id s + 1)\<rparr>)"

text \<open>\<^verbatim>\<open>active_slots_.emplace(id, std::move(guard))\<close>: an existing key is left alone, and then the
  guard is destroyed.\<close>

definition wait_emplace ::
  "('d, 'cb) limiter_ops \<Rightarrow> int \<Rightarrow> int \<Rightarrow> slot_guard \<Rightarrow> ('d, 'z) waiting_scheme \<Rightarrow>
   (('d, 'z) waiting_scheme \<times> ('cb \<times> int) list) res" where
  "wait_emplace dops now i g s =
     (if i \<in> fst ` set (wt_active_slots s) then
        bind_res (SlotGuard_destroy dops now g (wt_delegate s)) (\<lambda>(d, cs). Inr (s\<lparr>wt_delegate := d\<rparr>, cs))
      else Inr (s\<lparr>wt_active_slots := wt_active_slots s @ [(i, g)]\<rparr>, []))"

text \<open>The guard stored under an id, taken out of the map.\<close>

definition wait_take :: "int \<Rightarrow> ('d, 'z) waiting_scheme \<Rightarrow> slot_guard option \<times> ('d, 'z) waiting_scheme" where
  "wait_take i s =
     (case map_of (wt_active_slots s) i of
        None \<Rightarrow> (None, s)
      | Some inner \<Rightarrow> (Some inner, s\<lparr>wt_active_slots := filter (\<lambda>(j, g). j \<noteq> i) (wt_active_slots s)\<rparr>))"

text \<open>The completion status mirrored onto the inner guard, which is destroyed afterwards.\<close>

definition wait_mirror ::
  "('d, 'cb) limiter_ops \<Rightarrow> completion_status \<Rightarrow> int \<Rightarrow> slot_guard \<Rightarrow> ('d, 'z) waiting_scheme \<Rightarrow>
   (('d, 'z) waiting_scheme \<times> ('cb \<times> int) list) res" where
  "wait_mirror dops st now inner s =
     bind_res (case st of kSuccess \<Rightarrow> SlotGuard_OnSuccess dops now inner (wt_delegate s)
                 | kIgnored \<Rightarrow> SlotGuard_OnIgnore dops now inner (wt_delegate s)
                 | kDropped \<Rightarrow> SlotGuard_OnDropped dops now inner (wt_delegate s)) (\<lambda>(inner, d, cs).
     bind_res (SlotGuard_destroy dops now inner d) (\<lambda>(d, cs'). Inr (s\<lparr>wt_delegate := d\<rparr>, cs @ cs')))"

definition load_waiter :: "waiter_slot option list \<Rightarrow> nat \<Rightarrow> waiter_slot res" where
  "load_waiter ws i = (if i < length ws then case ws ! i of None \<Rightarrow> Inl Dangling | Some w \<Rightarrow> Inr w else Inl Dangling)"

text \<open>One round of \<^verbatim>\<open>Unblock\<close>: whether the head of the queue was served. A guard already in the
  waiter's slot would be replaced by the assignment.\<close>

definition wait_round ::
  "('d, 'cb) limiter_ops \<Rightarrow> int \<Rightarrow> ('d, 'z) waiting_scheme \<Rightarrow> (bool \<times> ('d, 'z) waiting_scheme) res" where
  "wait_round dops now s =
     (case wt_queue s of
        [] \<Rightarrow> Inr (False, s)
      | w # q \<Rightarrow>
        bind_res (load_waiter (wt_waiters s) w) (\<lambda>waiter.
        bind_res (TryAcquire dops now (wtr_context waiter) (wt_delegate s)) (\<lambda>(inner, d).
        case inner of
          None \<Rightarrow> Inr (False, s\<lparr>wt_delegate := d\<rparr>)
        | Some g \<Rightarrow>
          bind_res (case wtr_slot waiter of None \<Rightarrow> Inr (d, []) | Some old \<Rightarrow> SlotGuard_destroy dops now old d) (\<lambda>(d, cs).
          Inr (True, s\<lparr>wt_delegate := d, wt_queue := q,
            wt_waiters := (wt_waiters s)[w := Some (waiter\<lparr>wtr_slot := Some g, wtr_ready := True\<rparr>)]\<rparr>)))))"

lemma wait_round_shrinks: "wait_round dops now s = Inr (True, s') \<Longrightarrow> length (wt_queue s') < length (wt_queue s)"
  by (auto simp: wait_round_def bind_res_Inr split: list.splits option.splits)

text \<open>\<^verbatim>\<open>Unblock\<close> with nobody else running.\<close>

function wait_unblock ::
  "('d, 'cb) limiter_ops \<Rightarrow> int \<Rightarrow> ('d, 'z) waiting_scheme \<Rightarrow> ('d, 'z) waiting_scheme res" where
  "wait_unblock dops now s =
     (case wait_round dops now s of
        Inl e \<Rightarrow> Inl e
      | Inr (served, s') \<Rightarrow> if served then wait_unblock dops now s' else Inr s')"
  by auto
termination
  by (relation "measure (\<lambda>(dops, now, s). length (wt_queue s))") (auto intro: wait_round_shrinks)

declare wait_unblock.simps [simp del]

subsection \<open>Calls interleaved\<close>

text \<open>
  Where a call is. \<open>Outside\<close>: not in the limiter. \<open>Parking\<close>: rejected by the delegate, about to
  queue. \<open>Waiting\<close>: queued, with its deadline. \<open>Wrapping\<close>: a guard of the delegate in a local
  variable. \<open>Storing\<close>: with its id, about to store it. \<open>Returned\<close>: the outer guard with that id
  is with the application. \<open>Finishing\<close>: completed, the inner guard out of the map. \<open>Unblocking\<close>:
  about to lock for \<^verbatim>\<open>Unblock\<close>. \<open>Walking\<close>: inside \<^verbatim>\<open>Unblock\<close>.
\<close>

datatype 't caller =
  Outside | Parking string | Waiting 't | Wrapping slot_guard | Storing int slot_guard | Returned int
  | Finishing completion_status "slot_guard option" | Unblocking | Walking

text \<open>\<open>rm_mu\<close>: the call that holds \<^verbatim>\<open>mu_\<close> across several steps. \<open>rm_arrivals\<close> and \<open>rm_tickets\<close>
  number the queued calls in the order of their arrival, and \<open>rm_issued\<close> counts the ids given
  out; the program does not store them.\<close>

record ('s, 't) room =
  rm_state :: 's
  rm_callers :: "'t caller list"
  rm_mu :: "nat option"
  rm_arrivals :: nat
  rm_tickets :: "nat list"
  rm_issued :: nat

text \<open>The three places where the classes differ: how a call is queued (\<open>None\<close>: the backlog is
  full), how it is removed, and its deadline.\<close>

inductive room_step ::
  "(nat \<Rightarrow> ('d, 'z) waiting_scheme \<Rightarrow> nat list option) \<Rightarrow> (nat \<Rightarrow> nat list \<Rightarrow> nat list) \<Rightarrow>
   (('d, 'z) waiting_scheme \<Rightarrow> string \<Rightarrow> 't \<Rightarrow> 't) \<Rightarrow> ('d, 'cb) limiter_ops \<Rightarrow>
   (('d, 'z) waiting_scheme, 't::linorder) room \<Rightarrow> (('d, 'z) waiting_scheme, 't) room \<Rightarrow> bool"
  for park erase deadline dops where
  fast_admits: "i < length (rm_callers c) \<Longrightarrow> rm_callers c ! i = Outside \<Longrightarrow>
    TryAcquire dops now ctx (wt_delegate (rm_state c)) = Inr (Some g, d) \<Longrightarrow>
    room_step park erase deadline dops c
      (c\<lparr>rm_state := (rm_state c)\<lparr>wt_delegate := d\<rparr>, rm_callers := (rm_callers c)[i := Wrapping g]\<rparr>)"
| fast_rejects: "i < length (rm_callers c) \<Longrightarrow> rm_callers c ! i = Outside \<Longrightarrow>
    TryAcquire dops now ctx (wt_delegate (rm_state c)) = Inr (None, d) \<Longrightarrow>
    room_step park erase deadline dops c
      (c\<lparr>rm_state := (rm_state c)\<lparr>wt_delegate := d, wt_waiters := (wt_waiters (rm_state c))[i := Some (WaiterSlot_new ctx)]\<rparr>,
         rm_callers := (rm_callers c)[i := Parking ctx]\<rparr>)"
| parks: "i < length (rm_callers c) \<Longrightarrow> rm_callers c ! i = Parking ctx \<Longrightarrow> rm_mu c = None \<Longrightarrow>
    park i (rm_state c) = Some q \<Longrightarrow>
    room_step park erase deadline dops c
      (c\<lparr>rm_state := (rm_state c)\<lparr>wt_queue := q\<rparr>,
         rm_callers := (rm_callers c)[i := Waiting (deadline (rm_state c) ctx t)],
         rm_arrivals := Suc (rm_arrivals c), rm_tickets := (rm_tickets c)[i := rm_arrivals c]\<rparr>)"
| backlog_full: "i < length (rm_callers c) \<Longrightarrow> rm_callers c ! i = Parking ctx \<Longrightarrow> rm_mu c = None \<Longrightarrow>
    park i (rm_state c) = None \<Longrightarrow>
    room_step park erase deadline dops c
      (c\<lparr>rm_state := (rm_state c)\<lparr>wt_waiters := (wt_waiters (rm_state c))[i := None]\<rparr>,
         rm_callers := (rm_callers c)[i := Outside]\<rparr>)"
| collects: "i < length (rm_callers c) \<Longrightarrow> rm_callers c ! i = Waiting dl \<Longrightarrow> rm_mu c = None \<Longrightarrow>
    load_waiter (wt_waiters (rm_state c)) i = Inr w \<Longrightarrow> wtr_ready w \<or> dl \<le> t \<Longrightarrow> wtr_slot w = Some g \<Longrightarrow>
    room_step park erase deadline dops c
      (c\<lparr>rm_state := (rm_state c)\<lparr>wt_waiters := (wt_waiters (rm_state c))[i := None]\<rparr>,
         rm_callers := (rm_callers c)[i := Wrapping g]\<rparr>)"
| times_out: "i < length (rm_callers c) \<Longrightarrow> rm_callers c ! i = Waiting dl \<Longrightarrow> rm_mu c = None \<Longrightarrow>
    load_waiter (wt_waiters (rm_state c)) i = Inr w \<Longrightarrow> wtr_ready w \<or> dl \<le> t \<Longrightarrow> wtr_slot w = None \<Longrightarrow>
    room_step park erase deadline dops c
      (c\<lparr>rm_state := (rm_state c)\<lparr>wt_queue := erase i (wt_queue (rm_state c)),
           wt_waiters := (wt_waiters (rm_state c))[i := None]\<rparr>,
         rm_callers := (rm_callers c)[i := Outside]\<rparr>)"
| issues: "i < length (rm_callers c) \<Longrightarrow> rm_callers c ! i = Wrapping g \<Longrightarrow> wait_issue (rm_state c) = (k, s) \<Longrightarrow>
    room_step park erase deadline dops c
      (c\<lparr>rm_state := s, rm_callers := (rm_callers c)[i := Storing k g], rm_issued := Suc (rm_issued c)\<rparr>)"
| stores: "i < length (rm_callers c) \<Longrightarrow> rm_callers c ! i = Storing k g \<Longrightarrow> rm_mu c = None \<Longrightarrow>
    wait_emplace dops now k g (rm_state c) = Inr (s, cs) \<Longrightarrow>
    room_step park erase deadline dops c (c\<lparr>rm_state := s, rm_callers := (rm_callers c)[i := Returned k]\<rparr>)"
| takes: "i < length (rm_callers c) \<Longrightarrow> rm_callers c ! i = Returned k \<Longrightarrow> rm_mu c = None \<Longrightarrow>
    wait_take k (rm_state c) = (inner, s) \<Longrightarrow>
    room_step park erase deadline dops c (c\<lparr>rm_state := s, rm_callers := (rm_callers c)[i := Finishing st inner]\<rparr>)"
| mirrors: "i < length (rm_callers c) \<Longrightarrow> rm_callers c ! i = Finishing st (Some g) \<Longrightarrow>
    wait_mirror dops st now g (rm_state c) = Inr (s, cs) \<Longrightarrow>
    room_step park erase deadline dops c (c\<lparr>rm_state := s, rm_callers := (rm_callers c)[i := Unblocking]\<rparr>)"
| skips: "i < length (rm_callers c) \<Longrightarrow> rm_callers c ! i = Finishing st None \<Longrightarrow>
    room_step park erase deadline dops c (c\<lparr>rm_callers := (rm_callers c)[i := Unblocking]\<rparr>)"
| locks: "i < length (rm_callers c) \<Longrightarrow> rm_callers c ! i = Unblocking \<Longrightarrow> rm_mu c = None \<Longrightarrow>
    room_step park erase deadline dops c (c\<lparr>rm_callers := (rm_callers c)[i := Walking], rm_mu := Some i\<rparr>)"
| serves: "i < length (rm_callers c) \<Longrightarrow> rm_callers c ! i = Walking \<Longrightarrow>
    wait_round dops now (rm_state c) = Inr (True, s) \<Longrightarrow>
    room_step park erase deadline dops c (c\<lparr>rm_state := s\<rparr>)"
| unlocks: "i < length (rm_callers c) \<Longrightarrow> rm_callers c ! i = Walking \<Longrightarrow>
    wait_round dops now (rm_state c) = Inr (False, s) \<Longrightarrow>
    room_step park erase deadline dops c (c\<lparr>rm_state := s, rm_callers := (rm_callers c)[i := Outside], rm_mu := None\<rparr>)"

inductive_cases room_step_E: "room_step park erase deadline dops c c'"

text \<open>\<open>n\<close> calls of a limiter that has just been built.\<close>

definition room_init :: "nat \<Rightarrow> ('d, 'z) waiting_scheme \<Rightarrow> (('d, 'z) waiting_scheme, 't) room" where
  "room_init n s =
     \<lparr>rm_state = s\<lparr>wt_waiters := replicate n None\<rparr>, rm_callers = replicate n Outside, rm_mu = None, rm_arrivals = 0,
      rm_tickets = replicate n 0, rm_issued = 0\<rparr>"


subsection \<open>Who waits where\<close>

text \<open>A call, its waiter slot and whether it is queued fit together: only a call that parks or
  waits has a slot; a queued slot is empty and not signalled, and a call that waits and is not
  queued has been served.\<close>

fun slot_ok :: "'t caller \<Rightarrow> waiter_slot option \<Rightarrow> bool \<Rightarrow> bool" where
  "slot_ok (Parking ctx) w queued \<longleftrightarrow> w = Some (WaiterSlot_new ctx) \<and> \<not> queued"
| "slot_ok (Waiting dl) w queued \<longleftrightarrow>
     (\<exists>x. w = Some x \<and> (wtr_slot x = None) = queued \<and> wtr_ready x = (\<not> queued))"
| "slot_ok _ w queued \<longleftrightarrow> w = None \<and> \<not> queued"

definition all_slots :: "'t caller list \<Rightarrow> waiter_slot option list \<Rightarrow> nat set \<Rightarrow> bool" where
  "all_slots cs ws Q \<longleftrightarrow> length ws = length cs \<and> Q \<subseteq> {..<length cs}
     \<and> (\<forall>i < length cs. slot_ok (cs ! i) (ws ! i) (i \<in> Q))"

lemma all_slotsD: "all_slots cs ws Q \<Longrightarrow> i < length cs \<Longrightarrow> slot_ok (cs ! i) (ws ! i) (i \<in> Q)"
  by (simp add: all_slots_def)

lemma all_slots_update:
  assumes "all_slots cs ws Q" and "i < length cs" and "slot_ok x y (i \<in> Q')" and "Q' - {i} = Q - {i}"
  shows "all_slots (cs[i := x]) (ws[i := y]) Q'"
proof -
  have m: "j \<in> Q' \<longleftrightarrow> j \<in> Q" if "j \<noteq> i" for j using assms(4) that by blast
  then have "Q' \<subseteq> {..<length cs}" using assms(1,2) by (force simp: all_slots_def)
  then show ?thesis using assms(1-3) m by (auto simp: all_slots_def nth_list_update)
qed

text \<open>A step that leaves the waiter slots alone, or the call where it is.\<close>

lemma all_slots_caller:
  "all_slots cs ws Q \<Longrightarrow> i < length cs \<Longrightarrow> slot_ok x (ws ! i) (i \<in> Q) \<Longrightarrow> all_slots (cs[i := x]) ws Q"
  using all_slots_update [of cs ws Q i x "ws ! i" Q] by simp

lemma all_slots_waiter:
  "all_slots cs ws Q \<Longrightarrow> i < length cs \<Longrightarrow> slot_ok (cs ! i) y (i \<in> Q') \<Longrightarrow> Q' - {i} = Q - {i} \<Longrightarrow>
     all_slots cs (ws[i := y]) Q'"
  using all_slots_update [of cs ws Q i "cs ! i" y Q'] by simp

definition room_ok :: "(('d, 'z) waiting_scheme, 't) room \<Rightarrow> bool" where
  "room_ok c \<longleftrightarrow> all_slots (rm_callers c) (wt_waiters (rm_state c)) (set (wt_queue (rm_state c)))
     \<and> distinct (wt_queue (rm_state c)) \<and> distinct (map fst (wt_active_slots (rm_state c)))
     \<and> length (rm_tickets c) = length (rm_callers c)"

lemma wait_mirror_eq:
  "wait_mirror dops st now g s =
     bind_res (SlotGuard_Complete dops st now g (wt_delegate s)) (\<lambda>(g, d, cs). Inr (s\<lparr>wt_delegate := d\<rparr>, cs))"
proof -
  have "SlotGuard_destroy dops now g' d = Inr (d, [])" if "SlotGuard_Complete dops st now g e = Inr (g', d, cs)" for g' d e cs
    using that by (auto simp: SlotGuard_Complete_def SlotGuard_destroy_def bind_res_Inr split: if_splits)
  then show ?thesis
    by (cases st; cases "SlotGuard_Complete dops st now g (wt_delegate s)")
       (auto simp: wait_mirror_def SlotGuard_OnSuccess_def SlotGuard_OnIgnore_def SlotGuard_OnDropped_def)
qed

lemma load_waiter_Inr: "load_waiter ws i = Inr w \<longleftrightarrow> i < length ws \<and> ws ! i = Some w"
  by (auto simp: load_waiter_def split: option.splits)

lemma room_ok_init: "wt_queue s = [] \<Longrightarrow> wt_active_slots s = [] \<Longrightarrow> room_ok (room_init n s)"
  by (simp add: room_ok_def room_init_def all_slots_def)

lemma wait_round_stops:
  assumes "wait_round dops now s = Inr (False, s')"
  obtains "s' = s" and "wt_queue s = []"
  | w q x d where "wt_queue s = w # q" and "w < length (wt_waiters s)" and "wt_waiters s ! w = Some x"
    and "TryAcquire dops now (wtr_context x) (wt_delegate s) = Inr (None, d)" and "s' = s\<lparr>wt_delegate := d\<rparr>"
  using assms by (auto simp: wait_round_def bind_res_Inr load_waiter_Inr split: list.splits option.splits)

lemma queued_waiter:
  assumes "room_ok c" and "w \<in> set (wt_queue (rm_state c))"
  obtains dl x where "w < length (rm_callers c)" and "rm_callers c ! w = Waiting dl"
    and "wt_waiters (rm_state c) ! w = Some x" and "wtr_slot x = None" and "\<not> wtr_ready x"
proof -
  have a: "all_slots (rm_callers c) (wt_waiters (rm_state c)) (set (wt_queue (rm_state c)))"
    using assms(1) by (simp add: room_ok_def)
  then have w: "w < length (rm_callers c)" using assms(2) by (auto simp: all_slots_def)
  then show ?thesis using that all_slotsD [OF a w] assms(2) by (cases "rm_callers c ! w") auto
qed

lemma wait_round_serves:
  assumes "room_ok c" and "wait_round dops now (rm_state c) = Inr (True, s')"
  obtains w q dl x g d where "wt_queue (rm_state c) = w # q" and "w < length (rm_callers c)" and "rm_callers c ! w = Waiting dl"
    and "wt_waiters (rm_state c) ! w = Some x" and "wtr_slot x = None"
    and "TryAcquire dops now (wtr_context x) (wt_delegate (rm_state c)) = Inr (Some g, d)"
    and "s' = (rm_state c)\<lparr>wt_delegate := d, wt_queue := q,
           wt_waiters := (wt_waiters (rm_state c))[w := Some (x\<lparr>wtr_slot := Some g, wtr_ready := True\<rparr>)]\<rparr>"
proof -
  obtain w q where q: "wt_queue (rm_state c) = w # q" using assms(2) by (auto simp: wait_round_def split: list.splits)
  then have "w \<in> set (wt_queue (rm_state c))" by simp
  then obtain dl x where x: "w < length (rm_callers c)" "rm_callers c ! w = Waiting dl"
      "wt_waiters (rm_state c) ! w = Some x" "wtr_slot x = None"
    by (rule queued_waiter [OF assms(1)])
  then show ?thesis
    using that [OF q x] assms(2) q
    by (auto simp: wait_round_def bind_res_Inr load_waiter_Inr split: option.splits)
qed

subsection \<open>Who owns which guard of the delegate\<close>

fun caller_guards :: "'t caller \<Rightarrow> slot_guard multiset" where
  "caller_guards (Wrapping g) = {#g#}"
| "caller_guards (Storing k g) = {#g#}"
| "caller_guards (Finishing st (Some g)) = {#g#}"
| "caller_guards _ = {#}"

fun waiter_guards :: "waiter_slot option \<Rightarrow> slot_guard multiset" where
  "waiter_guards None = {#}"
| "waiter_guards (Some w) = (case wtr_slot w of None \<Rightarrow> {#} | Some g \<Rightarrow> {#g#})"

definition owned :: "(('d, 'z) waiting_scheme, 't) room \<Rightarrow> slot_guard multiset" where
  "owned c = sum_list (map caller_guards (rm_callers c)) + sum_list (map waiter_guards (wt_waiters (rm_state c)))
     + mset (map snd (wt_active_slots (rm_state c)))"

lemma msum_split:
  fixes f :: "'a \<Rightarrow> 'b multiset"
  assumes "i < length xs"
  obtains R where "sum_list (map f xs) = f (xs ! i) + R" and "\<And>y. sum_list (map f (xs[i := y])) = f y + R"
proof
  show "sum_list (map f xs) = f (xs ! i) + (sum_list (map f (take i xs)) + sum_list (map f (drop (Suc i) xs)))"
    using id_take_nth_drop [OF assms] by (metis (no_types, lifting) add.left_commute list.simps(9) map_append sum_list.Cons sum_list.append)
  show "sum_list (map f (xs[i := y])) = f y + (sum_list (map f (take i xs)) + sum_list (map f (drop (Suc i) xs)))" for y
    using assms by (simp add: upd_conv_take_nth_drop add.left_commute)
qed


subsection \<open>Every step keeps the room in order\<close>

text \<open>What the queue disciplines have in common.\<close>

locale queue_discipline =
  fixes park :: "nat \<Rightarrow> ('d, 'z) waiting_scheme \<Rightarrow> nat list option" and erase :: "nat \<Rightarrow> nat list \<Rightarrow> nat list"
  assumes park_adds: "park i s = Some q \<Longrightarrow> mset q = add_mset i (mset (wt_queue s))"
    and erase_removes: "mset (erase i q) = mset q - {#i#}"
begin

lemma park_set: "park i s = Some q \<Longrightarrow> set q = insert i (set (wt_queue s))"
  using park_adds mset_eq_setD by (metis list.simps(15) mset.simps(2))

lemma park_distinct: "park i s = Some q \<Longrightarrow> distinct (wt_queue s) \<Longrightarrow> i \<notin> set (wt_queue s) \<Longrightarrow> distinct q"
  using park_adds [of i s q] mset_eq_imp_distinct_iff [of q "i # wt_queue s"] by simp

lemma erase_perm: "mset (erase i q) = mset (remove1 i q)"
  by (simp add: erase_removes)

lemma erase_set: "distinct q \<Longrightarrow> set (erase i q) = set q - {i}"
  using mset_eq_setD [OF erase_perm] by (metis set_remove1_eq)

lemma erase_distinct: "distinct q \<Longrightarrow> distinct (erase i q)"
  using mset_eq_imp_distinct_iff [OF erase_perm] by (metis distinct_remove1)

lemma ok_parks:
  assumes "room_ok c" and "i < length (rm_callers c)" and "rm_callers c ! i = Parking ctx" and "park i (rm_state c) = Some q"
  shows "all_slots ((rm_callers c)[i := Waiting dl]) (wt_waiters (rm_state c)) (set q) \<and> distinct q"
proof -
  have a: "all_slots (rm_callers c) (wt_waiters (rm_state c)) (set (wt_queue (rm_state c)))" "distinct (wt_queue (rm_state c))"
    using assms(1) by (simp_all add: room_ok_def)
  have i: "wt_waiters (rm_state c) ! i = Some (WaiterSlot_new ctx)" "i \<notin> set (wt_queue (rm_state c))"
    using all_slotsD [OF a(1) assms(2)] assms(3) by auto
  have "all_slots ((rm_callers c)[i := Waiting dl]) ((wt_waiters (rm_state c))[i := Some (WaiterSlot_new ctx)]) (set q)"
    using i park_set [OF assms(4)] by (intro all_slots_update [OF a(1) assms(2)]) (auto simp: WaiterSlot_new_def)
  then show ?thesis using i(1) park_distinct [OF assms(4) a(2) i(2)] by (metis list_update_id)
qed

lemma ok_times_out:
  assumes "room_ok c" and "i < length (rm_callers c)"
  shows "all_slots ((rm_callers c)[i := Outside]) ((wt_waiters (rm_state c))[i := None]) (set (erase i (wt_queue (rm_state c))))
    \<and> distinct (erase i (wt_queue (rm_state c)))"
proof -
  have a: "all_slots (rm_callers c) (wt_waiters (rm_state c)) (set (wt_queue (rm_state c)))" "distinct (wt_queue (rm_state c))"
    using assms(1) by (simp_all add: room_ok_def)
  then show ?thesis using assms(2) erase_distinct by (intro conjI all_slots_update [OF a(1)]) (auto simp: erase_set)
qed

lemma ok_serves:
  assumes "room_ok c" and "wait_round dops now (rm_state c) = Inr (True, s)"
  shows "room_ok (c\<lparr>rm_state := s\<rparr>)"
proof -
  have a: "all_slots (rm_callers c) (wt_waiters (rm_state c)) (set (wt_queue (rm_state c)))" "distinct (wt_queue (rm_state c))"
    using assms(1) by (simp_all add: room_ok_def)
  from wait_round_serves [OF assms] obtain w q dl x g d where
    w: "wt_queue (rm_state c) = w # q" "w < length (rm_callers c)" "rm_callers c ! w = Waiting dl"
    and s: "s = (rm_state c)\<lparr>wt_delegate := d, wt_queue := q,
         wt_waiters := (wt_waiters (rm_state c))[w := Some (x\<lparr>wtr_slot := Some g, wtr_ready := True\<rparr>)]\<rparr>"
    by metis
  have "w \<notin> set q" using a(2) w(1) by simp
  then have "all_slots (rm_callers c) ((wt_waiters (rm_state c))[w := Some (x\<lparr>wtr_slot := Some g, wtr_ready := True\<rparr>)]) (set q)"
    using w by (intro all_slots_waiter [OF a(1) w(2)]) auto
  then show ?thesis using s w(1) assms(1) by (simp add: room_ok_def)
qed

lemma ok_moves:
  assumes "room_ok c" and "i < length (rm_callers c)" and "slot_ok (rm_callers c ! i) None False"
    and "slot_ok x None False" and "rm_callers c' = (rm_callers c)[i := x]" and "rm_tickets c' = rm_tickets c"
    and "wt_waiters (rm_state c') = wt_waiters (rm_state c)" and "wt_queue (rm_state c') = wt_queue (rm_state c)"
    and "distinct (map fst (wt_active_slots (rm_state c')))"
  shows "room_ok c'"
proof -
  have a: "all_slots (rm_callers c) (wt_waiters (rm_state c)) (set (wt_queue (rm_state c)))"
    using assms(1) by (simp add: room_ok_def)
  have "wt_waiters (rm_state c) ! i = None \<and> i \<notin> set (wt_queue (rm_state c))"
    using all_slotsD [OF a assms(2)] assms(3) by (cases "rm_callers c ! i") auto
  then show ?thesis using all_slots_caller [OF a assms(2), of x] assms(1,4-) by (simp add: room_ok_def)
qed

lemma step_ok:
  assumes "room_step park erase deadline dops c c'" and ok: "room_ok c"
  shows "room_ok c'"
proof -
  have a: "all_slots (rm_callers c) (wt_waiters (rm_state c)) (set (wt_queue (rm_state c)))"
    and dq: "distinct (wt_queue (rm_state c))" and dk: "distinct (map fst (wt_active_slots (rm_state c)))"
    and lt: "length (rm_tickets c) = length (rm_callers c)"
    using ok by (auto simp: room_ok_def)
  note here = all_slotsD [OF a] and moves = ok_moves [OF ok, where c' = c']
  note delegate = wait_issue_def wait_emplace_def wait_take_def wait_mirror_def
  from assms(1) show ?thesis
  proof cases
    case (fast_rejects i now ctx d)
    then show ?thesis using all_slots_update [OF a] here [of i] dq dk lt by (simp add: room_ok_def)
  next
    case (parks i ctx q t)
    then show ?thesis using ok_parks [OF ok parks(2,3,5)] dk lt by (simp add: room_ok_def)
  next
    case (backlog_full i ctx)
    then show ?thesis using all_slots_update [OF a] here [of i] dq dk lt by (simp add: room_ok_def)
  next
    case (collects i dl w t g)
    then have "i \<notin> set (wt_queue (rm_state c))" using here [of i] by (auto simp: load_waiter_Inr)
    then show ?thesis using collects all_slots_update [OF a] dq dk lt by (simp add: room_ok_def)
  next
    case (times_out i dl w t)
    then show ?thesis using ok_times_out [OF ok times_out(2)] dk lt by (simp add: room_ok_def)
  next
    case (serves i now s)
    then show ?thesis using ok_serves [OF ok serves(4)] by simp
  qed (use dk moves in \<open>auto simp: delegate bind_res_Inr distinct_map_filter elim!: wait_round_stops split: if_splits option.splits\<close>)
qed

lemma reach_ok: "(room_step park erase deadline dops)\<^sup>*\<^sup>* c c' \<Longrightarrow> room_ok c \<Longrightarrow> room_ok c'"
  by (induction rule: rtranclp_induct) (auto intro: step_ok)

end


subsection \<open>No guard of the delegate is lost\<close>

text \<open>What a step that changes one call, or one waiter slot, does to the guards owned.\<close>

lemma msum_update:
  fixes f :: "'a \<Rightarrow> 'b multiset"
  assumes "i < length xs"
  shows "sum_list (map f (xs[i := y])) + f (xs ! i) = sum_list (map f xs) + f y"
  by (rule msum_split [OF assms, of f]) (simp add: ac_simps)

lemma owned_caller:
  assumes "i < length (rm_callers c)" and "rm_callers c' = (rm_callers c)[i := x]"
    and "wt_waiters (rm_state c') = wt_waiters (rm_state c)"
  shows "owned c' + (caller_guards (rm_callers c ! i) + mset (map snd (wt_active_slots (rm_state c))))
    = owned c + (caller_guards x + mset (map snd (wt_active_slots (rm_state c'))))"
  using msum_update [OF assms(1), of caller_guards x] assms(2,3) by (simp add: owned_def)

lemma owned_both:
  assumes "i < length (rm_callers c)" and "i < length (wt_waiters (rm_state c))"
    and "rm_callers c' = (rm_callers c)[i := x]" and "wt_waiters (rm_state c') = (wt_waiters (rm_state c))[i := y]"
    and "wt_active_slots (rm_state c') = wt_active_slots (rm_state c)"
  shows "owned c' + (caller_guards (rm_callers c ! i) + waiter_guards (wt_waiters (rm_state c) ! i))
    = owned c + (caller_guards x + waiter_guards y)"
proof -
  have "owned c' + (caller_guards (rm_callers c ! i) + waiter_guards (wt_waiters (rm_state c) ! i))
      = (sum_list (map caller_guards ((rm_callers c)[i := x])) + caller_guards (rm_callers c ! i))
        + (sum_list (map waiter_guards ((wt_waiters (rm_state c))[i := y])) + waiter_guards (wt_waiters (rm_state c) ! i))
        + mset (map snd (wt_active_slots (rm_state c)))"
    using assms(3-5) by (simp add: owned_def ac_simps)
  then show ?thesis
    unfolding msum_update [OF assms(1)] msum_update [OF assms(2)] by (simp add: owned_def ac_simps)
qed

lemma take_mset:
  assumes "distinct (map fst xs)" and "map_of xs k = Some g"
  shows "mset (map snd xs) = add_mset g (mset (map snd (filter (\<lambda>(j, x). j \<noteq> k) xs)))"
  using assms
proof (induction xs)
  case (Cons p xs)
  obtain j x where p: "p = (j, x)" by fastforce
  show ?case
  proof (cases "j = k")
    case True
    have "filter (\<lambda>(j, x). j \<noteq> k) xs = xs" using Cons.prems(1) True p by (force simp: filter_id_conv)
    then show ?thesis using Cons.prems True p by simp
  qed (use Cons p in auto)
qed simp

text \<open>A delegate with an invariant over its live guards, wrapped by a limiter with some queue
  discipline: the invariant holds for the guards the room owns.\<close>

locale guarded_room = guard_invariant dops J + queue_discipline park erase
  for dops :: "('d, 'cb) limiter_ops" and J and park :: "nat \<Rightarrow> ('d, 'z) waiting_scheme \<Rightarrow> nat list option" and erase
begin

definition keeps :: "(('d, 'z) waiting_scheme, 't) room \<Rightarrow> bool" where
  "keeps c \<longleftrightarrow> (\<exists>n. J n (wt_delegate (rm_state c)) (filter_mset live (owned c)))"

lemma keeps_admitted:
  assumes "keeps c" and "TryAcquire dops now ctx (wt_delegate (rm_state c)) = Inr (Some g, d)"
    and "owned c' = add_mset g (owned c)" and "wt_delegate (rm_state c') = d"
  shows "keeps c'"
proof -
  obtain n where "J n (wt_delegate (rm_state c)) (filter_mset live (owned c))" using assms(1) by (auto simp: keeps_def)
  then have "J (Suc n) d (if live g then add_mset g (filter_mset live (owned c)) else filter_mset live (owned c))"
    using admitted assms(2) by (simp add: TryAcquire_def)
  then show ?thesis using assms(3,4) by (auto simp: keeps_def)
qed

lemma keeps_turned_away:
  assumes "keeps c" and "TryAcquire dops now ctx (wt_delegate (rm_state c)) = Inr (None, d)"
    and "owned c' = owned c" and "wt_delegate (rm_state c') = d"
  shows "keeps c'"
  using assms turned_away by (fastforce simp: keeps_def TryAcquire_def)

lemma keeps_same: "keeps c \<Longrightarrow> owned c' = owned c \<Longrightarrow> wt_delegate (rm_state c') = wt_delegate (rm_state c) \<Longrightarrow> keeps c'"
  by (simp add: keeps_def)

lemma keeps_dropped:
  assumes "keeps c" and "owned c = add_mset g (owned c')"
    and "(if sg_limiter g \<and> \<not> sg_completed g then SlotGuard_notify dops st now g (wt_delegate (rm_state c))
          else Inr (wt_delegate (rm_state c), [])) = Inr (wt_delegate (rm_state c'), cs)"
  shows "keeps c'"
  using assms drop_one by (metis keeps_def)

lemma mirror_drops:
  assumes "wait_mirror dops st now g s = Inr (s', cs)"
  shows "\<exists>d cs'. s' = s\<lparr>wt_delegate := d\<rparr> \<and> (if sg_limiter g \<and> \<not> sg_completed g then SlotGuard_notify dops st now g (wt_delegate s)
          else Inr (wt_delegate s, [])) = Inr (d, cs')"
  using assms Complete_drops [of st now g "wt_delegate s"] by (auto simp: wait_mirror_eq bind_res_Inr)

lemma keeps_stores:
  assumes "keeps c" and "i < length (rm_callers c)" and "rm_callers c ! i = Storing n g"
    and "wait_emplace dops now n g (rm_state c) = Inr (s, cs)" and c': "c' = c\<lparr>rm_state := s, rm_callers := (rm_callers c)[i := Returned n]\<rparr>"
  shows "keeps c'"
proof (cases "n \<in> fst ` set (wt_active_slots (rm_state c))")
  case True
  then obtain d where d: "s = (rm_state c)\<lparr>wt_delegate := d\<rparr>" "SlotGuard_destroy dops now g (wt_delegate (rm_state c)) = Inr (d, cs)"
    using assms(4) by (auto simp: wait_emplace_def bind_res_Inr)
  then have "owned c = add_mset g (owned c')" using assms(2,3) c' owned_caller [of i c c' "Returned n"] by simp
  then show ?thesis using keeps_dropped [OF assms(1), of g c'] d c' by (simp add: SlotGuard_destroy_def)
next
  case False
  then have "s = (rm_state c)\<lparr>wt_active_slots := wt_active_slots (rm_state c) @ [(n, g)]\<rparr>"
    using assms(4) by (simp add: wait_emplace_def)
  then show ?thesis using keeps_same [OF assms(1), of c'] assms(2,3) c' owned_caller [of i c c' "Returned n"] by simp
qed

lemma keeps_mirrors:
  assumes "keeps c" and "i < length (rm_callers c)" and "rm_callers c ! i = Finishing st (Some g)"
    and "wait_mirror dops st now g (rm_state c) = Inr (s, cs)" and c': "c' = c\<lparr>rm_state := s, rm_callers := (rm_callers c)[i := Unblocking]\<rparr>"
  shows "keeps c'"
proof -
  obtain d cs' where d: "s = (rm_state c)\<lparr>wt_delegate := d\<rparr>"
      "(if sg_limiter g \<and> \<not> sg_completed g then SlotGuard_notify dops st now g (wt_delegate (rm_state c))
        else Inr (wt_delegate (rm_state c), [])) = Inr (d, cs')"
    using mirror_drops [OF assms(4)] by blast
  then have "owned c = add_mset g (owned c')" using assms(2,3) c' owned_caller [of i c c' Unblocking] by simp
  then show ?thesis using keeps_dropped [OF assms(1), of g c'] d c' by simp
qed

lemma keeps_serves:
  assumes "keeps c" and "room_ok c" and "wait_round dops now (rm_state c) = Inr (True, s)"
  shows "keeps (c\<lparr>rm_state := s\<rparr>)"
proof -
  let ?c = "c\<lparr>rm_state := s\<rparr>"
  have len: "length (wt_waiters (rm_state c)) = length (rm_callers c)" using assms(2) by (simp add: room_ok_def all_slots_def)
  from wait_round_serves [OF assms(2,3)] obtain w q dl x g d where
    w: "w < length (rm_callers c)" "rm_callers c ! w = Waiting dl" "wt_waiters (rm_state c) ! w = Some x" "wtr_slot x = None"
    and t: "TryAcquire dops now (wtr_context x) (wt_delegate (rm_state c)) = Inr (Some g, d)"
    and s: "s = (rm_state c)\<lparr>wt_delegate := d, wt_queue := q,
         wt_waiters := (wt_waiters (rm_state c))[w := Some (x\<lparr>wtr_slot := Some g, wtr_ready := True\<rparr>)]\<rparr>"
    by metis
  have "rm_callers c = (rm_callers c)[w := Waiting dl]" using w(2) by (metis list_update_id)
  then show ?thesis using keeps_admitted [OF assms(1) t, of ?c] owned_both [of w c ?c "Waiting dl"] s w len by simp
qed

lemma keeps_unlocks:
  assumes "keeps c" and "i < length (rm_callers c)" and "rm_callers c ! i = Walking"
    and "wait_round dops now (rm_state c) = Inr (False, s)"
    and c': "c' = c\<lparr>rm_state := s, rm_callers := (rm_callers c)[i := Outside], rm_mu := None\<rparr>"
  shows "keeps c'"
  using assms(4)
proof (cases rule: wait_round_stops)
  case 1
  then show ?thesis using keeps_same [OF assms(1), of c'] owned_caller [of i c c' Outside] assms(2,3) c' by simp
next
  case (2 w q x d)
  then show ?thesis using keeps_turned_away [OF assms(1) 2(4), of c'] owned_caller [of i c c' Outside] assms(2,3) c' by simp
qed

lemma keeps_moves:
  assumes "keeps c" and "i < length (rm_callers c)" and "caller_guards x = caller_guards (rm_callers c ! i)"
    and "rm_callers c' = (rm_callers c)[i := x]" and "wt_waiters (rm_state c') = wt_waiters (rm_state c)"
    and "wt_active_slots (rm_state c') = wt_active_slots (rm_state c)" and "wt_delegate (rm_state c') = wt_delegate (rm_state c)"
  shows "keeps c'"
  using keeps_same [OF assms(1), of c'] owned_caller [OF assms(2,4,5)] assms(3,6,7) by simp

lemma step_keeps:
  assumes "room_step park erase deadline dops c c'" and ok: "room_ok c" and k: "keeps c"
  shows "keeps c'"
proof -
  have a: "all_slots (rm_callers c) (wt_waiters (rm_state c)) (set (wt_queue (rm_state c)))"
    and dk: "distinct (map fst (wt_active_slots (rm_state c)))" using ok by (auto simp: room_ok_def)
  have len: "length (wt_waiters (rm_state c)) = length (rm_callers c)" using a by (simp add: all_slots_def)
  note here = all_slotsD [OF a]
  from assms(1) show ?thesis
  proof cases
    case (fast_admits i now ctx g d)
    then show ?thesis using keeps_admitted [OF k fast_admits(4), of c'] owned_caller [of i c c' "Wrapping g"] by simp
  next
    case (fast_rejects i now ctx d)
    then show ?thesis using keeps_turned_away [OF k fast_rejects(4), of c'] here [of i] len
        owned_both [of i c c' "Parking ctx" "Some (WaiterSlot_new ctx)"] by (simp add: WaiterSlot_new_def)
  next
    case (backlog_full i ctx)
    then show ?thesis using keeps_same [OF k, of c'] here [of i] len owned_both [of i c c' Outside None]
      by (simp add: WaiterSlot_new_def)
  next
    case (collects i dl w t g)
    then show ?thesis using keeps_same [OF k, of c'] len owned_both [of i c c' "Wrapping g" None] by (simp add: load_waiter_Inr)
  next
    case (times_out i dl w t)
    then show ?thesis using keeps_same [OF k, of c'] len owned_both [of i c c' Outside None] by (simp add: load_waiter_Inr)
  next
    case (takes i n inner s st)
    then show ?thesis
      using keeps_same [OF k, of c'] owned_caller [of i c c' "Finishing st inner"] take_mset [OF dk, of n]
      by (cases inner) (auto simp: wait_take_def split: option.splits)
  next
    case (serves i now s)
    then show ?thesis using keeps_serves [OF k ok serves(4)] by simp
  next
    case (unlocks i now s)
    then show ?thesis using keeps_unlocks [OF k unlocks(2,3,4,1)] by simp
  qed (use keeps_stores [OF k] keeps_mirrors [OF k] keeps_moves [OF k, where c' = c'] in \<open>auto simp: wait_issue_def\<close>)
qed

lemma reach_keeps:
  assumes "(room_step park erase deadline dops)\<^sup>*\<^sup>* c c'" and "room_ok c" and "keeps c"
  shows "room_ok c' \<and> keeps c'"
  using assms by (induction rule: rtranclp_induct) (auto intro: step_ok step_keeps)

lemma init_keeps:
  assumes "J 0 (wt_delegate s) {#}" and "wt_active_slots s = []"
  shows "keeps (room_init n s :: (('d, 'z) waiting_scheme, 't) room)"
proof -
  have "sum_list (replicate n {#}) = ({#} :: slot_guard multiset)" by (induction n) auto
  then have "owned (room_init n s :: (('d, 'z) waiting_scheme, 't) room) = {#}"
    using assms(2) by (simp add: owned_def room_init_def)
  then show ?thesis using assms(1) by (auto simp: keeps_def room_init_def)
qed

end


subsection \<open>The order of service\<close>

definition in_order :: "(nat \<Rightarrow> nat \<Rightarrow> bool) \<Rightarrow> (('d, 'z) waiting_scheme, 't) room \<Rightarrow> bool" where
  "in_order R c \<longleftrightarrow> sorted_wrt (\<lambda>v w. R (rm_tickets c ! v) (rm_tickets c ! w)) (wt_queue (rm_state c))
     \<and> (\<forall>w \<in> set (wt_queue (rm_state c)). rm_tickets c ! w < rm_arrivals c)"

locale ordered_discipline = queue_discipline park erase
  for park :: "nat \<Rightarrow> ('d, 'z) waiting_scheme \<Rightarrow> nat list option" and erase +
  fixes R :: "nat \<Rightarrow> nat \<Rightarrow> bool"
  assumes park_orders: "park i s = Some q \<Longrightarrow> sorted_wrt (\<lambda>v w. R (f v) (f w)) (wt_queue s) \<Longrightarrow>
      \<forall>w \<in> set (wt_queue s). f w < f i \<Longrightarrow> sorted_wrt (\<lambda>v w. R (f v) (f w)) q"
    and erase_orders: "sorted_wrt P q \<Longrightarrow> sorted_wrt P (erase i q)"
begin

lemma park_in_order:
  assumes "in_order R c" and "room_ok c" and "i < length (rm_callers c)" and "rm_callers c ! i = Parking ctx"
    and "park i (rm_state c) = Some q" and "wt_queue (rm_state c') = q"
    and "rm_tickets c' = (rm_tickets c)[i := rm_arrivals c]" and "rm_arrivals c' = Suc (rm_arrivals c)"
  shows "in_order R c'"
proof -
  let ?Q = "wt_queue (rm_state c)" and ?f = "\<lambda>w. rm_tickets c' ! w"
  have i: "i \<notin> set ?Q" using assms(2-4) all_slotsD [of "rm_callers c" _ "set ?Q" i] by (auto simp: room_ok_def)
  have new: "?f i = rm_arrivals c" using assms(2,3,7) by (simp add: room_ok_def)
  have old: "?f w = rm_tickets c ! w" if "w \<in> set ?Q" for w using i that assms(7) by (metis nth_list_update_neq)
  have lt: "\<forall>w \<in> set ?Q. ?f w < ?f i" using assms(1) old new by (simp add: in_order_def)
  have "sorted_wrt (\<lambda>v w. R (rm_tickets c ! v) (rm_tickets c ! w)) ?Q" using assms(1) by (simp add: in_order_def)
  then have "sorted_wrt (\<lambda>v w. R (?f v) (?f w)) ?Q"
    by (rule sorted_wrt_mono_rel [rotated]) (use old in simp)
  then have "sorted_wrt (\<lambda>v w. R (?f v) (?f w)) q" by (rule park_orders [OF assms(5) _ lt])
  then show ?thesis using lt new park_set [OF assms(5)] assms(6,8) by (auto simp: in_order_def)
qed

lemma in_order_sub:
  assumes "in_order R c" and "rm_tickets c' = rm_tickets c" and "rm_arrivals c' = rm_arrivals c"
    and "sorted_wrt (\<lambda>v w. R (rm_tickets c ! v) (rm_tickets c ! w)) (wt_queue (rm_state c'))"
    and "set (wt_queue (rm_state c')) \<subseteq> set (wt_queue (rm_state c))"
  shows "in_order R c'"
  using assms by (auto simp: in_order_def)

lemma in_order_same:
  "in_order R c \<Longrightarrow> rm_tickets c' = rm_tickets c \<Longrightarrow> rm_arrivals c' = rm_arrivals c \<Longrightarrow>
     wt_queue (rm_state c') = wt_queue (rm_state c) \<Longrightarrow> in_order R c'"
  by (simp add: in_order_def)

lemma step_in_order:
  assumes "room_step park erase deadline dops c c'" and ok: "room_ok c" and o: "in_order R c"
  shows "in_order R c'"
  using assms(1)
proof cases
  case (parks i ctx q t)
  then show ?thesis using park_in_order [OF o ok parks(2,3,5), of c'] by simp
next
  case (times_out i dl w t)
  have "distinct (wt_queue (rm_state c))" using ok by (simp add: room_ok_def)
  then show ?thesis using in_order_sub [OF o, of c'] times_out(1) erase_orders erase_set o
    by (simp add: in_order_def)
next
  case (serves i now s)
  obtain w q where "wt_queue (rm_state c) = w # q" "wt_queue s = q"
    by (rule wait_round_serves [OF ok serves(4)]) simp
  then show ?thesis using in_order_sub [OF o, of c'] serves(1) o by (auto simp: in_order_def)
next
  case (unlocks i now s)
  from unlocks(4) have "wt_queue s = wt_queue (rm_state c)" by (cases rule: wait_round_stops) simp_all
  then show ?thesis using in_order_same [OF o, of c'] unlocks(1) by simp
next
  case (stores i k g now s cs)
  then have "wt_queue s = wt_queue (rm_state c)" by (auto simp: wait_emplace_def bind_res_Inr split: if_splits)
  then show ?thesis using in_order_same [OF o, of c'] stores(1) by simp
next
  case (takes i k inner s st)
  then have "wt_queue s = wt_queue (rm_state c)" by (auto simp: wait_take_def split: option.splits)
  then show ?thesis using in_order_same [OF o, of c'] takes(1) by simp
next
  case (mirrors i st g now s cs)
  then have "wt_queue s = wt_queue (rm_state c)" by (auto simp: wait_mirror_def bind_res_Inr)
  then show ?thesis using in_order_same [OF o, of c'] mirrors(1) by simp
qed (use in_order_same [OF o, of c'] in \<open>auto simp: wait_issue_def\<close>)

lemma reach_in_order:
  assumes "(room_step park erase deadline dops)\<^sup>*\<^sup>* c c'" and "room_ok c" and "in_order R c"
  shows "room_ok c' \<and> in_order R c'"
  using assms by (induction rule: rtranclp_induct) (auto intro: step_ok step_in_order)

text \<open>The call that a round serves waited without a slot, comes first, in the order of the discipline, among all
  calls that do, and is the only one whose slot the round changes.\<close>

lemma serves_first:
  assumes "(room_step park erase deadline dops)\<^sup>*\<^sup>* (room_init n s0) c" and "wt_queue s0 = []" and "wt_active_slots s0 = []"
    and "wait_round dops now (rm_state c) = Inr (True, s)"
  obtains w dl x g where "w < length (rm_callers c)" and "rm_callers c ! w = Waiting dl"
    and "wt_waiters (rm_state c) ! w = Some x" and "wtr_slot x = None"
    and "wt_waiters s = (wt_waiters (rm_state c))[w := Some (x\<lparr>wtr_slot := Some g, wtr_ready := True\<rparr>)]"
    and "\<And>v dl y. v < length (rm_callers c) \<Longrightarrow> v \<noteq> w \<Longrightarrow> rm_callers c ! v = Waiting dl \<Longrightarrow>
        wt_waiters (rm_state c) ! v = Some y \<Longrightarrow> wtr_slot y = None \<Longrightarrow> R (rm_tickets c ! w) (rm_tickets c ! v)"
proof -
  have "in_order R (room_init n s0)" using assms(2) by (simp add: in_order_def room_init_def)
  then have ok: "room_ok c" and o: "in_order R c"
    using reach_in_order [OF assms(1) room_ok_init [OF assms(2,3)]] by auto
  from wait_round_serves [OF ok assms(4)] obtain w q dl x g d where
    w: "wt_queue (rm_state c) = w # q" "w < length (rm_callers c)" "rm_callers c ! w = Waiting dl"
      "wt_waiters (rm_state c) ! w = Some x" "wtr_slot x = None"
    and s: "s = (rm_state c)\<lparr>wt_delegate := d, wt_queue := q,
           wt_waiters := (wt_waiters (rm_state c))[w := Some (x\<lparr>wtr_slot := Some g, wtr_ready := True\<rparr>)]\<rparr>"
    by metis
  have a: "all_slots (rm_callers c) (wt_waiters (rm_state c)) (set (w # q))" using ok w(1) by (simp add: room_ok_def)
  have "v \<in> set q" if "v < length (rm_callers c)" "v \<noteq> w" "rm_callers c ! v = Waiting dl"
      "wt_waiters (rm_state c) ! v = Some y" "wtr_slot y = None" for v dl y
    using all_slotsD [OF a that(1)] that by simp
  then show ?thesis using that [OF w(2-5), of g] w(1) s o by (auto simp: in_order_def)
qed

end

end
