(* ===== verification/Waiting_Service.thy ===== *)
theory Waiting_Service
  imports Waiting_Room
begin

section \<open>Service in the waiting room: ids and the walk of Unblock\<close>

text \<open>
  Two further facts about the code the blocking limiters share. As long as fewer than
  \<open>2 ^ 32\<close> ids have been given out, every outer guard finds the guard of the delegate that was
  stored for it. And \<^verbatim>\<open>Unblock\<close>, run alone over a simple limiter, serves exactly as many queued
  calls as there is headroom, in the order of the queue.
\<close>

subsection \<open>Ids\<close>

fun storing_id :: "'t caller \<Rightarrow> int multiset" where
  "storing_id (Storing k g) = {#k#}"
| "storing_id _ = {#}"

fun returned_id :: "'t caller \<Rightarrow> int multiset" where
  "returned_id (Returned k) = {#k#}"
| "returned_id _ = {#}"

definition storing_ids :: "(('d, 'z) waiting_scheme, 't) room \<Rightarrow> int multiset" where
  "storing_ids c = sum_list (map storing_id (rm_callers c))"

definition returned_ids :: "(('d, 'z) waiting_scheme, 't) room \<Rightarrow> int multiset" where
  "returned_ids c = sum_list (map returned_id (rm_callers c))"

text \<open>Of \<open>n\<close> ids given out, those in \<open>S\<close> are on their way into the map and those in \<open>Q\<close> are with the
  application: no two are equal, all were given out, and \<open>ks\<close>, the keys of the map, are those in
  \<open>Q\<close>; as long as the counter has not wrapped all the way round.\<close>

definition ids_fine :: "nat \<Rightarrow> int multiset \<Rightarrow> int multiset \<Rightarrow> int list \<Rightarrow> bool" where
  "ids_fine n S Q ks \<longleftrightarrow> n \<le> 2 ^ 32 \<longrightarrow>
     (\<forall>k. count (S + Q) k \<le> 1) \<and> (\<forall>k \<in># S + Q. \<exists>j < n. k = wrap32 (int j)) \<and> Q = mset ks"

definition ids_ok :: "(('d, 'z) waiting_scheme, 't) room \<Rightarrow> bool" where
  "ids_ok c \<longleftrightarrow> wt_next_slot_id (rm_state c) = wrap32 (int (rm_issued c))
     \<and> ids_fine (rm_issued c) (storing_ids c) (returned_ids c) (map fst (wt_active_slots (rm_state c)))"

lemma ids_update:
  assumes "i < length (rm_callers c)" and "rm_callers c' = (rm_callers c)[i := x]"
  shows "storing_ids c' + storing_id (rm_callers c ! i) = storing_ids c + storing_id x"
    and "returned_ids c' + returned_id (rm_callers c ! i) = returned_ids c + returned_id x"
  using msum_update [OF assms(1)] assms(2) by (simp_all add: storing_ids_def returned_ids_def)

lemma wrap32_inj:
  assumes "wrap32 (int a) = wrap32 (int b)" and "a \<le> b" and "b < a + 2 ^ 32"
  shows "a = b"
proof -
  have "(4294967296 :: int) dvd (wrap32 (int a) - int a) - (wrap32 (int b) - int b)"
    by (rule dvd_diff [OF wrap32_cong wrap32_cong])
  then have "(4294967296 :: int) dvd int b - int a" using assms(1) by simp
  then obtain m where m: "int b - int a = 4294967296 * m" by blast
  have "int b < int a + 4294967296" using assms(3) by simp
  then have "m < 1" "0 \<le> m" using m assms(2) by linarith+
  then have "m = 0" by simp
  then show ?thesis using m by simp
qed

lemma ids_fineD:
  assumes "ids_fine n S Q ks" and "n \<le> 2 ^ 32"
  shows "\<forall>k. count (S + Q) k \<le> 1" and "\<forall>k \<in># S + Q. \<exists>j < n. k = wrap32 (int j)" and "Q = mset ks"
  using assms unfolding ids_fine_def by blast+

lemma fine_issue:
  assumes "ids_fine n S Q ks"
  shows "ids_fine (Suc n) (add_mset (wrap32 (int n)) S) Q ks"
proof (cases "Suc n \<le> 2 ^ 32")
  case True
  then have f: "\<forall>k. count (S + Q) k \<le> 1" "\<forall>k \<in># S + Q. \<exists>j < n. k = wrap32 (int j)" "Q = mset ks"
    using ids_fineD [OF assms] by simp_all
  have "wrap32 (int n) \<notin># S + Q"
  proof
    assume "wrap32 (int n) \<in># S + Q"
    then obtain j where "j < n" "wrap32 (int j) = wrap32 (int n)" using f(2) by metis
    then show False using wrap32_inj [of j n] True by simp
  qed
  then have "count (add_mset (wrap32 (int n)) S + Q) k \<le> 1" for k
    using f(1) by (cases "k = wrap32 (int n)") (simp_all add: not_in_iff)
  moreover have "\<forall>k \<in># add_mset (wrap32 (int n)) S + Q. \<exists>j < Suc n. k = wrap32 (int j)"
    using f(2) by (auto intro: less_SucI)
  ultimately show ?thesis using f(3) by (simp add: ids_fine_def)
qed (simp add: ids_fine_def)

lemma fine_store:
  assumes "ids_fine n (add_mset k S) Q ks"
  shows "ids_fine n S (add_mset k Q) (if k \<in> set ks then ks else ks @ [k])"
proof (cases "n \<le> 2 ^ 32")
  case True
  then have f: "\<forall>j. count (add_mset k S + Q) j \<le> 1" "\<forall>j \<in># add_mset k S + Q. \<exists>i < n. j = wrap32 (int i)" "Q = mset ks"
    using ids_fineD [OF assms] by blast+
  have "count Q k = 0" using f(1) [rule_format, of k] by simp
  then have "k \<notin> set ks" using f(3) by (simp add: not_in_iff [symmetric])
  then show ?thesis using f by (simp add: ids_fine_def)
qed (simp add: ids_fine_def)

lemma fine_take:
  assumes "ids_fine n S (add_mset k Q) ks" and "distinct ks"
  shows "ids_fine n S Q (filter (\<lambda>j. j \<noteq> k) ks)" and "n \<le> 2 ^ 32 \<Longrightarrow> k \<in> set ks"
proof -
  have f: "\<forall>j. count (S + add_mset k Q) j \<le> 1" "\<forall>j \<in># S + add_mset k Q. \<exists>i < n. j = wrap32 (int i)" "add_mset k Q = mset ks"
    if "n \<le> 2 ^ 32" using ids_fineD [OF assms(1) that] by blast+
  show k: "k \<in> set ks" if "n \<le> 2 ^ 32" using f(3) [OF that] by (metis set_mset_mset union_single_eq_member)
  have "filter (\<lambda>j. j \<noteq> k) ks = remove1 k ks"
    using assms(2) by (induction ks) (auto simp: filter_id_conv)
  then have "mset (filter (\<lambda>j. j \<noteq> k) ks) = mset ks - {#k#}" by (metis mset_remove1)
  then have q: "mset (filter (\<lambda>j. j \<noteq> k) ks) = Q" if "n \<le> 2 ^ 32"
    unfolding f(3) [OF that, symmetric] by (metis add_mset_remove_trivial)
  show "ids_fine n S Q (filter (\<lambda>j. j \<noteq> k) ks)"
    unfolding ids_fine_def
  proof (intro impI conjI)
    assume n: "n \<le> 2 ^ 32"
    have "count (S + Q) j \<le> count (S + add_mset k Q) j" for j by simp
    then show "\<forall>j. count (S + Q) j \<le> 1" using f(1) [OF n] order_trans by blast
    show "\<forall>j \<in># S + Q. \<exists>i < n. j = wrap32 (int i)" using f(2) [OF n] by (simp add: ball_Un)
    show "Q = mset (filter (\<lambda>j. j \<noteq> k) ks)" using q [OF n] by simp
  qed
qed

lemma keys_filter: "map fst (filter (\<lambda>(j, g). j \<noteq> k) xs) = filter (\<lambda>j. j \<noteq> k) (map fst xs)"
  by (induction xs) auto

lemma keys_absent: "map_of xs k = None \<Longrightarrow> filter (\<lambda>j. j \<noteq> k) (map fst xs) = map fst xs"
  by (induction xs) (auto split: if_splits)

lemma ids_ok_init:
  assumes "wt_active_slots s = []" and "wt_next_slot_id s = 0"
  shows "ids_ok (room_init n s :: (('d, 'z) waiting_scheme, 't) room)"
proof -
  let ?c = "room_init n s :: (('d, 'z) waiting_scheme, 't) room"
  have "sum_list (replicate n {#}) = ({#} :: int multiset)" by (induction n) auto
  then have "storing_ids ?c = {#}" "returned_ids ?c = {#}"
    by (simp_all add: storing_ids_def returned_ids_def room_init_def)
  then show ?thesis using assms by (simp add: ids_ok_def ids_fine_def) (simp add: room_init_def is_int32_def)
qed

context queue_discipline
begin

lemma ids_same:
  assumes "ids_ok c" and "i < length (rm_callers c)" and "rm_callers c' = (rm_callers c)[i := x]"
    and "storing_id (rm_callers c ! i) = storing_id x" and "returned_id (rm_callers c ! i) = returned_id x"
    and "rm_issued c' = rm_issued c" and "wt_next_slot_id (rm_state c') = wt_next_slot_id (rm_state c)"
    and "wt_active_slots (rm_state c') = wt_active_slots (rm_state c)"
  shows "ids_ok c'"
  using assms(1,4-8) ids_update [OF assms(2,3)] by (simp add: ids_ok_def)

lemma ids_issues:
  assumes "ids_ok c" and "i < length (rm_callers c)" and "rm_callers c ! i = Wrapping g" and "wait_issue (rm_state c) = (k, s)"
    and c': "c' = c\<lparr>rm_state := s, rm_callers := (rm_callers c)[i := Storing k g], rm_issued := Suc (rm_issued c)\<rparr>"
  shows "ids_ok c'"
proof -
  have "storing_ids c' = add_mset k (storing_ids c)" "returned_ids c' = returned_ids c"
    using ids_update [OF assms(2), of c' "Storing k g"] c' assms(3) by simp_all
  moreover have "k = wrap32 (int (rm_issued c))" "wt_next_slot_id s = wrap32 (int (rm_issued c) + 1)"
      "wt_active_slots s = wt_active_slots (rm_state c)"
    using assms(1,4) by (auto simp: wait_issue_def ids_ok_def)
  ultimately show ?thesis using c' assms(1) fine_issue by (simp add: ids_ok_def add.commute)
qed

lemma ids_stores:
  assumes "ids_ok c" and "i < length (rm_callers c)" and "rm_callers c ! i = Storing k g"
    and "wait_emplace dops now k g (rm_state c) = Inr (s, cs)"
    and c': "c' = c\<lparr>rm_state := s, rm_callers := (rm_callers c)[i := Returned k]\<rparr>"
  shows "ids_ok c'"
proof -
  have f: "ids_fine (rm_issued c) (storing_ids c) (returned_ids c) (map fst (wt_active_slots (rm_state c)))"
    "wt_next_slot_id (rm_state c) = wrap32 (int (rm_issued c))" using assms(1) by (auto simp: ids_ok_def)
  have q: "storing_ids c = add_mset k (storing_ids c')" "returned_ids c' = add_mset k (returned_ids c)"
    using ids_update [OF assms(2), of c' "Returned k"] c' assms(3) by simp_all
  have "map fst (wt_active_slots s) = (if k \<in> set (map fst (wt_active_slots (rm_state c)))
      then map fst (wt_active_slots (rm_state c)) else map fst (wt_active_slots (rm_state c)) @ [k])
      \<and> wt_next_slot_id s = wt_next_slot_id (rm_state c)"
    using assms(4) by (auto simp: wait_emplace_def bind_res_Inr split: if_splits)
  then show ?thesis using c' fine_store [OF f(1) [unfolded q(1)]] q(2) f(2) by (simp add: ids_ok_def)
qed

lemma ids_takes:
  assumes "ids_ok c" and "room_ok c" and "i < length (rm_callers c)" and "rm_callers c ! i = Returned k"
    and "wait_take k (rm_state c) = (inner, s)"
    and c': "c' = c\<lparr>rm_state := s, rm_callers := (rm_callers c)[i := Finishing st inner]\<rparr>"
  shows "ids_ok c'"
proof -
  have f: "ids_fine (rm_issued c) (storing_ids c) (returned_ids c) (map fst (wt_active_slots (rm_state c)))"
    "wt_next_slot_id (rm_state c) = wrap32 (int (rm_issued c))" using assms(1) by (auto simp: ids_ok_def)
  have dk: "distinct (map fst (wt_active_slots (rm_state c)))" using assms(2) by (simp add: room_ok_def)
  have q: "storing_ids c' = storing_ids c" "returned_ids c = add_mset k (returned_ids c')"
    using ids_update [OF assms(3), of c' "Finishing st inner"] c' assms(4) by simp_all
  have "map fst (wt_active_slots s) = filter (\<lambda>j. j \<noteq> k) (map fst (wt_active_slots (rm_state c)))
      \<and> wt_next_slot_id s = wt_next_slot_id (rm_state c)"
    using assms(5) keys_absent [of "wt_active_slots (rm_state c)" k]
    by (auto simp: wait_take_def keys_filter split: option.splits)
  then show ?thesis using c' fine_take(1) [OF f(1) [unfolded q(2)] dk] q(1) f(2) by (simp add: ids_ok_def)
qed

lemma step_ids:
  assumes "room_step park erase deadline dops c c'" and ok: "room_ok c" and ids: "ids_ok c"
  shows "ids_ok c'"
  using assms(1)
proof cases
  case (issues i g k s)
  then show ?thesis using ids_issues [OF ids issues(2-4,1)] by simp
next
  case (stores i k g now s cs)
  then show ?thesis using ids_stores [OF ids stores(2,3,5,1)] by simp
next
  case (takes i k inner s st)
  then show ?thesis using ids_takes [OF ids ok takes(2,3,5,1)] by simp
next
  case (serves i now s)
  have "wt_next_slot_id s = wt_next_slot_id (rm_state c) \<and> wt_active_slots s = wt_active_slots (rm_state c)"
    by (rule wait_round_serves [OF ok serves(4)]) simp
  then show ?thesis using ids serves(1) by (simp add: ids_ok_def storing_ids_def returned_ids_def)
next
  case (unlocks i now s)
  have "wt_next_slot_id s = wt_next_slot_id (rm_state c) \<and> wt_active_slots s = wt_active_slots (rm_state c)"
    using unlocks(4) by (cases rule: wait_round_stops) simp_all
  then show ?thesis using ids_same [OF ids, of i c' Outside] unlocks(1-3) by simp
next
  case (mirrors i st g now s cs)
  then have "wt_next_slot_id s = wt_next_slot_id (rm_state c) \<and> wt_active_slots s = wt_active_slots (rm_state c)"
    by (auto simp: wait_mirror_def bind_res_Inr)
  then show ?thesis using ids_same [OF ids, of i c' Unblocking] mirrors(1-3) by simp
qed (rule ids_same [OF ids], assumption, (simp; fail), simp_all)+

lemma reach_ids:
  assumes "(room_step park erase deadline dops)\<^sup>*\<^sup>* c c'" and "room_ok c" and "ids_ok c"
  shows "room_ok c' \<and> ids_ok c'"
  using assms by (induction rule: rtranclp_induct) (auto intro: step_ok step_ids)

text \<open>An outer guard finds its inner guard, and no other outer guard has its id.\<close>

lemma returned_found:
  assumes "(room_step park erase deadline dops)\<^sup>*\<^sup>* (room_init n s0) c"
    and "wt_queue s0 = []" and "wt_active_slots s0 = []" and "wt_next_slot_id s0 = 0" and "rm_issued c \<le> 2 ^ 32"
    and "i < length (rm_callers c)" and "rm_callers c ! i = Returned k"
  shows "(\<exists>g. map_of (wt_active_slots (rm_state c)) k = Some g)
    \<and> (\<forall>j < length (rm_callers c). rm_callers c ! j = Returned k \<longrightarrow> j = i)"
proof -
  have "ids_ok (room_init n s0 :: (('d, 'z) waiting_scheme, 'a) room)" by (rule ids_ok_init [OF assms(3,4)])
  then have ok: "room_ok c" "ids_ok c" using reach_ids [OF assms(1) room_ok_init [OF assms(2,3)]] by auto
  let ?c = "c\<lparr>rm_callers := (rm_callers c)[i := Outside]\<rparr>"
  have q: "returned_ids c = add_mset k (returned_ids ?c)"
    using ids_update(2) [OF assms(6), of ?c Outside] assms(7) by simp
  have f: "ids_fine (rm_issued c) (storing_ids c) (add_mset k (returned_ids ?c)) (map fst (wt_active_slots (rm_state c)))"
    using ok(2) q by (simp add: ids_ok_def)
  have "k \<in> set (map fst (wt_active_slots (rm_state c)))"
    using fine_take(2) [OF f _ assms(5)] ok(1) by (simp add: room_ok_def)
  moreover have "j = i" if j: "j < length (rm_callers c)" "rm_callers c ! j = Returned k" for j
  proof (rule ccontr)
    assume "j \<noteq> i"
    let ?d = "?c\<lparr>rm_callers := (rm_callers ?c)[j := Outside]\<rparr>"
    have "returned_ids ?c = add_mset k (returned_ids ?d)"
      using ids_update(2) [of j ?c ?d Outside] j \<open>j \<noteq> i\<close> by simp
    moreover have "count (storing_ids c + add_mset k (returned_ids ?c)) k \<le> 1" using ids_fineD(1) [OF f assms(5)] by blast
    ultimately show False by simp
  qed
  ultimately show ?thesis by (metis map_of_eq_None_iff not_None_eq set_map)
qed

end

subsection \<open>Unblock over a simple limiter\<close>

text \<open>The queued calls have their slots, still empty.\<close>

definition queue_ready :: "('d, 'z) waiting_scheme \<Rightarrow> bool" where
  "queue_ready s \<longleftrightarrow> distinct (wt_queue s)
     \<and> (\<forall>w \<in> set (wt_queue s). w < length (wt_waiters s) \<and> (\<exists>x. wt_waiters s ! w = Some x \<and> wtr_slot x = None))"

lemma room_ok_queue_ready:
  assumes "room_ok c"
  shows "queue_ready (rm_state c)"
proof -
  have "w < length (wt_waiters (rm_state c)) \<and> (\<exists>x. wt_waiters (rm_state c) ! w = Some x \<and> wtr_slot x = None)"
    if "w \<in> set (wt_queue (rm_state c))" for w
    by (rule queued_waiter [OF assms that]) (use assms in \<open>simp add: room_ok_def all_slots_def\<close>)
  then show ?thesis using assms by (simp add: queue_ready_def room_ok_def)
qed

definition served :: "waiter_slot option \<Rightarrow> bool" where
  "served w \<longleftrightarrow> (\<exists>x. w = Some x \<and> wtr_slot x \<noteq> None \<and> wtr_ready x)"

lemma wait_round_simple:
  assumes "queue_ready s" and "wt_queue s = w # q" and "al_bypass_predicate (wt_delegate s) = None"
    and "is_int32 (al_inflight (wt_delegate s))" and "is_int32 (GetLimit lops (al_limit (wt_delegate s)))"
  obtains x where "wt_waiters s ! w = Some x" and "w < length (wt_waiters s)"
    and "wait_round (Simple_ops lops fails) now s =
      (if al_inflight (wt_delegate s) < GetLimit lops (al_limit (wt_delegate s))
       then Inr (True, s\<lparr>wt_delegate := (wt_delegate s)\<lparr>al_inflight := al_inflight (wt_delegate s) + 1\<rparr>, wt_queue := q,
         wt_waiters := (wt_waiters s)[w := Some (x\<lparr>wtr_slot := Some (MakeSlot now (al_inflight (wt_delegate s) + 1) False (- 1)),
           wtr_ready := True\<rparr>)]\<rparr>)
       else Inr (False, s\<lparr>wt_delegate := count_outcome Status_kRejected (wt_delegate s)\<rparr>))"
proof -
  obtain x where x: "wt_waiters s ! w = Some x" "wtr_slot x = None" "w < length (wt_waiters s)"
    using assms(1,2) by (auto simp: queue_ready_def)
  then have "load_waiter (wt_waiters s) w = Inr x" by (simp add: load_waiter_Inr)
  then show ?thesis
    using that [OF x(1,3)] assms(2) x(2) Simple_TryAcquire [OF assms(3-5), of fails now "wtr_context x"]
    by (simp add: wait_round_def)
qed

text \<open>What the walk does: as many calls are served as there is headroom.\<close>

definition walked :: "('l, 'cb) limit_ops \<Rightarrow> ('l abstract_limiter, 'z) waiting_scheme \<Rightarrow> ('l abstract_limiter, 'z) waiting_scheme \<Rightarrow> bool" where
  "walked lops s s' \<longleftrightarrow>
     (let k = min (length (wt_queue s)) (nat (GetLimit lops (al_limit (wt_delegate s)) - al_inflight (wt_delegate s)))
      in wt_queue s' = drop k (wt_queue s)
         \<and> al_inflight (wt_delegate s') = al_inflight (wt_delegate s) + int k
         \<and> (\<forall>w \<in> set (take k (wt_queue s)). served (wt_waiters s' ! w))
         \<and> (\<forall>w. w \<notin> set (take k (wt_queue s)) \<longrightarrow> wt_waiters s' ! w = wt_waiters s ! w))"

text \<open>The first call served, then the rest.\<close>

lemma walked_first:
  assumes "wt_queue s = w # q" and "w \<notin> set q" and "w < length (wt_waiters s)"
    and "al_inflight (wt_delegate s) < GetLimit lops (al_limit (wt_delegate s))" and "served (Some y)"
    and "walked lops (s\<lparr>wt_delegate := (wt_delegate s)\<lparr>al_inflight := al_inflight (wt_delegate s) + 1\<rparr>, wt_queue := q,
      wt_waiters := (wt_waiters s)[w := Some y]\<rparr>) s'"
  shows "walked lops s s'"
proof -
  let ?n = "al_inflight (wt_delegate s)" and ?L = "GetLimit lops (al_limit (wt_delegate s))"
  let ?k = "min (length q) (nat (?L - (?n + 1)))"
  have k: "min (length (wt_queue s)) (nat (?L - ?n)) = Suc ?k" using assms(1,4) by simp
  have "w \<notin> set (take ?k q)" using assms(2) in_set_takeD by fast
  then have "served (wt_waiters s' ! w)" using assms(3,5,6) by (simp add: walked_def Let_def)
  moreover have "(wt_waiters s)[w := Some y] ! v = wt_waiters s ! v" if "v \<noteq> w" for v using that by simp
  ultimately show ?thesis using assms(1,6) unfolding walked_def k by (simp add: Let_def)
qed

lemma queue_ready_first:
  assumes "queue_ready s" and "wt_queue s = w # q"
  shows "queue_ready (s\<lparr>wt_delegate := d, wt_queue := q, wt_waiters := (wt_waiters s)[w := y]\<rparr>)" and "w \<notin> set q"
    and "w < length (wt_waiters s)"
  using assms by (auto simp: queue_ready_def nth_list_update)

lemma unblock_walks:
  assumes "queue_ready s" and "al_bypass_predicate (wt_delegate s) = None" and "is_int32 (al_inflight (wt_delegate s))"
    and "is_int32 (GetLimit lops (al_limit (wt_delegate s)))"
  shows "\<exists>s'. wait_unblock (Simple_ops lops fails) now s = Inr s' \<and> walked lops s s'"
  using assms
proof (induction "wt_queue s" arbitrary: s)
  case Nil
  then show ?case by (subst wait_unblock.simps) (simp add: wait_round_def walked_def flip: Nil(1))
next
  case (Cons w q)
  note wq = Cons.hyps(2) [symmetric]
  let ?n = "al_inflight (wt_delegate s)" and ?L = "GetLimit lops (al_limit (wt_delegate s))"
  obtain x where r: "wait_round (Simple_ops lops fails) now s =
      (if ?n < ?L
       then Inr (True, s\<lparr>wt_delegate := (wt_delegate s)\<lparr>al_inflight := ?n + 1\<rparr>, wt_queue := q,
         wt_waiters := (wt_waiters s)[w := Some (x\<lparr>wtr_slot := Some (MakeSlot now (?n + 1) False (- 1)), wtr_ready := True\<rparr>)]\<rparr>)
       else Inr (False, s\<lparr>wt_delegate := count_outcome Status_kRejected (wt_delegate s)\<rparr>))"
    by (rule wait_round_simple [OF Cons.prems(1) wq Cons.prems(2-4)])
  show ?case
  proof (cases "?n < ?L")
    case False
    then show ?thesis using r by (subst wait_unblock.simps) (simp add: walked_def count_outcome_def)
  next
    case True
    let ?y = "x\<lparr>wtr_slot := Some (MakeSlot now (?n + 1) False (- 1)), wtr_ready := True\<rparr>"
    let ?s = "s\<lparr>wt_delegate := (wt_delegate s)\<lparr>al_inflight := ?n + 1\<rparr>, wt_queue := q, wt_waiters := (wt_waiters s)[w := Some ?y]\<rparr>"
    note q = queue_ready_first [OF Cons.prems(1) wq]
    have "is_int32 (?n + 1)" using True Cons.prems(3,4) by (auto simp: is_int32_def)
    then obtain s' where s': "wait_unblock (Simple_ops lops fails) now ?s = Inr s'" "walked lops ?s s'"
      using Cons.hyps(1) [of ?s] q(1) Cons.prems(2,4) by auto
    have "wait_unblock (Simple_ops lops fails) now s = wait_unblock (Simple_ops lops fails) now ?s"
      using r True by (subst wait_unblock.simps) simp
    moreover have "served (Some ?y)" by (simp add: served_def)
    ultimately show ?thesis using s' walked_first [OF wq q(2,3) True _ s'(2)] by auto
  qed
qed

text \<open>
  C30. \<^verbatim>\<open>Unblock\<close> ends and is thorough: run alone over a simple limiter without a bypass predicate, with every pointer
  in the queue valid, it serves, in the order of the queue, exactly as many queued calls as there is headroom below the cap (or all of them), takes
  one slot for each, leaves the rest queued, and touches no other call.
\<close>

theorem unblock_serves_headroom:
  assumes "queue_ready s" and "al_bypass_predicate (wt_delegate s) = None" and "is_int32 (al_inflight (wt_delegate s))"
    and "is_int32 (GetLimit lops (al_limit (wt_delegate s)))"
  shows "\<exists>s'. wait_unblock (Simple_ops lops fails) now s = Inr s'
    \<and> (let k = min (length (wt_queue s)) (nat (GetLimit lops (al_limit (wt_delegate s)) - al_inflight (wt_delegate s)))
       in wt_queue s' = drop k (wt_queue s)
          \<and> al_inflight (wt_delegate s') = al_inflight (wt_delegate s) + int k
          \<and> (\<forall>w \<in> set (take k (wt_queue s)). served (wt_waiters s' ! w))
          \<and> (\<forall>w. w \<notin> set (take k (wt_queue s)) \<longrightarrow> wt_waiters s' ! w = wt_waiters s ! w))"
  using unblock_walks [OF assms, of fails now] unfolding walked_def .

subsection \<open>A bounded queue\<close>

text \<open>A discipline that turns a call away when the queue has reached a bound. The bound is a
  constant of the limiter: it depends on none of the shared members.\<close>

locale bounded_discipline = queue_discipline park erase
  for park :: "nat \<Rightarrow> ('d, 'z) waiting_scheme \<Rightarrow> nat list option" and erase +
  fixes bound :: "('d, 'z) waiting_scheme \<Rightarrow> nat"
  assumes park_bounded: "park i s = Some q \<Longrightarrow> length q \<le> bound s"
    and bound_fixed: "waiting.more s = waiting.more s' \<Longrightarrow> bound s = bound s'"
begin

definition bounded :: "(('d, 'z) waiting_scheme, 't) room \<Rightarrow> bool" where
  "bounded c \<longleftrightarrow> length (wt_queue (rm_state c)) \<le> bound (rm_state c)"

lemma step_more: "room_step park erase deadline dops c c' \<Longrightarrow> waiting.more (rm_state c') = waiting.more (rm_state c)"
  by (cases rule: room_step.cases, assumption)
     (auto simp: wait_issue_def wait_emplace_def wait_take_def wait_mirror_def wait_round_def bind_res_Inr
        split: if_splits option.splits list.splits)

lemma step_bounded:
  assumes "room_step park erase deadline dops c c'" and "room_ok c" and b: "bounded c"
  shows "bounded c'"
proof -
  have "length (wt_queue (rm_state c')) \<le> length (wt_queue (rm_state c))
      \<or> length (wt_queue (rm_state c')) \<le> bound (rm_state c)"
    using assms(1)
  proof cases
    case (parks i ctx q t)
    then show ?thesis using park_bounded by simp
  next
    case (times_out i dl w t)
    have "length (erase i q) = length (remove1 i q)" for q using erase_perm by (metis size_mset)
    then show ?thesis using times_out(1) by (simp add: length_remove1)
  next
    case (serves i now s)
    then show ?thesis using wait_round_shrinks [OF serves(4)] by simp
  next
    case (unlocks i now s)
    from unlocks(4) show ?thesis using unlocks(1) by (cases rule: wait_round_stops) simp_all
  qed (auto simp: wait_issue_def wait_emplace_def wait_take_def wait_mirror_def bind_res_Inr split: if_splits option.splits)
  then show ?thesis using b bound_fixed [OF step_more [OF assms(1)]] by (auto simp: bounded_def)
qed

lemma reach_bounded:
  assumes "(room_step park erase deadline dops)\<^sup>*\<^sup>* (room_init n s) c" and "wt_queue s = []" and "wt_active_slots s = []"
  shows "length (wt_queue (rm_state c)) \<le> bound s"
proof -
  have "room_ok c \<and> bounded c \<and> waiting.more (rm_state c) = waiting.more s"
    using assms(1)
  proof (induction rule: rtranclp_induct)
    case base
    then show ?case using room_ok_init [OF assms(2,3)] assms(2) by (simp add: bounded_def room_init_def)
  next
    case (step c c')
    then show ?case using step_ok step_bounded step_more by metis
  qed
  then show ?thesis using bound_fixed [of "rm_state c" s] by (simp add: bounded_def)
qed

end

subsection \<open>A simple limiter with one slot\<close>

definition cap_one :: "nat abstract_limit abstract_limiter" where
  "cap_one = AbstractLimiter_new (FixedLimit_Of 1) [] None False"

lemma cap_one_fields:
  "al_bypass_predicate cap_one = None" "al_inflight cap_one = 0" "GetLimit FixedLimit_ops (al_limit cap_one) = 1"
  "al_limit cap_one = FixedLimit_Of 1" "GetLimit FixedLimit_ops (FixedLimit_Of 1 :: nat abstract_limit) = 1"
  by (simp_all add: cap_one_def AbstractLimiter_new_def FixedLimit_ops_def FixedLimit_Of_def limen_simps)

lemma cap_one_built: "Simple_Build (Simple_Limit (Some (FixedLimit_Of 1)) Simple_Builder) = Inr cap_one"
  by (simp add: Simple_Build_def Simple_Limit_def Simple_Builder_def cap_one_def)

abbreviation cap_one_ops :: "(nat abstract_limit abstract_limiter, nat) limiter_ops" where
  "cap_one_ops \<equiv> Simple_ops FixedLimit_ops []"

definition cap_one_slot :: slot_guard where
  "cap_one_slot = MakeSlot 5 1 False (- 1)"

lemma cap_one_admits: "TryAcquire cap_one_ops 5 ctx cap_one = Inr (Some cap_one_slot, cap_one\<lparr>al_inflight := 1\<rparr>)"
  using Simple_TryAcquire [of cap_one FixedLimit_ops "[]" 5 ctx] by (simp add: cap_one_fields is_int32_def cap_one_slot_def)

lemma cap_one_rejects:
  "TryAcquire cap_one_ops now ctx (cap_one\<lparr>al_inflight := 1\<rparr>) = Inr (None, count_outcome Status_kRejected (cap_one\<lparr>al_inflight := 1\<rparr>))"
  using Simple_TryAcquire [of "cap_one\<lparr>al_inflight := 1\<rparr>" FixedLimit_ops "[]" now ctx] by (simp add: cap_one_fields is_int32_def)

theorem unblock_serves_headroom_witness:
  "\<exists>s'. wait_unblock cap_one_ops 5 \<lparr>wt_delegate = cap_one, wt_queue = [0, 1], wt_active_slots = [], wt_next_slot_id = 0,
      wt_waiters = [Some (WaiterSlot_new ''a''), Some (WaiterSlot_new ''b'')]\<rparr> = Inr s'
    \<and> wt_queue s' = [1] \<and> al_inflight (wt_delegate s') = 1 \<and> served (wt_waiters s' ! 0)"
proof -
  let ?s = "\<lparr>wt_delegate = cap_one, wt_queue = [0, 1], wt_active_slots = [], wt_next_slot_id = 0,
      wt_waiters = [Some (WaiterSlot_new ''a''), Some (WaiterSlot_new ''b'')]\<rparr>"
  have "queue_ready ?s" by (simp add: queue_ready_def WaiterSlot_new_def)
  then obtain s' where "wait_unblock cap_one_ops 5 ?s = Inr s'"
    "let k = min (length (wt_queue ?s)) (nat (GetLimit FixedLimit_ops (al_limit (wt_delegate ?s)) - al_inflight (wt_delegate ?s)))
     in wt_queue s' = drop k (wt_queue ?s) \<and> al_inflight (wt_delegate s') = al_inflight (wt_delegate ?s) + int k
        \<and> (\<forall>v \<in> set (take k (wt_queue ?s)). served (wt_waiters s' ! v))"
    using unblock_serves_headroom [OF _ _ _ _, of ?s FixedLimit_ops "[]" 5] by (auto simp: cap_one_fields is_int32_def Let_def)
  then show ?thesis by (auto simp: cap_one_fields Let_def)
qed

subsection \<open>A run over it\<close>

definition cap_one_done :: "nat abstract_limit abstract_limiter" where
  "cap_one_done = count_outcome Status_kSuccess (count_outcome Status_kRejected cap_one)"

lemma cap_one_completes:
  "SlotGuard_Complete cap_one_ops kSuccess 8 cap_one_slot (count_outcome Status_kRejected (cap_one\<lparr>al_inflight := 1\<rparr>))
    = Inr (cap_one_slot\<lparr>sg_completed := True\<rparr>, cap_one_done, [])"
  by (simp add: SlotGuard_Complete_def SlotGuard_notify_def Simple_ops_def AbstractLimiter_ops_def AbstractLimiter_OnSlotComplete_def
      AbstractLimiter_OnReleasePartition_def cap_one_slot_def MakeSlot_def cap_one_def AbstractLimiter_new_def count_outcome_def
      FixedLimit_ops_def FixedLimit_Update_def FixedLimit_Of_def limen_simps is_int32_def is_int64_def chk64_ok cap_one_done_def Let_def)

text \<open>Two calls: call 0 gets the only slot; call 1 is rejected by the delegate; before it queues,
  call 0 completes and \<^verbatim>\<open>Unblock\<close> finds nobody to wake; then call 1 queues. \<open>z\<close> stands for the
  fields a class adds.\<close>

abbreviation missed_state ::
  "nat abstract_limit abstract_limiter \<Rightarrow> nat list \<Rightarrow> (int \<times> slot_guard) list \<Rightarrow> int \<Rightarrow> waiter_slot option \<Rightarrow> 'z \<Rightarrow>
   (nat abstract_limit abstract_limiter, 'z) waiting_scheme" where
  "missed_state d q active k w z \<equiv> \<lparr>wt_delegate = d, wt_queue = q, wt_active_slots = active, wt_next_slot_id = k,
     wt_waiters = [None, w], \<dots> = z\<rparr>"

abbreviation idle_state :: "'z \<Rightarrow> (nat abstract_limit abstract_limiter, 'z) waiting_scheme" where
  "idle_state z \<equiv> \<lparr>wt_delegate = cap_one, wt_queue = [], wt_active_slots = [], wt_next_slot_id = 0, wt_waiters = [], \<dots> = z\<rparr>"

abbreviation missed_room ::
  "'s \<Rightarrow> int caller \<Rightarrow> int caller \<Rightarrow> nat option \<Rightarrow> nat \<Rightarrow> nat \<Rightarrow> ('s, int) room" where
  "missed_room s a b m n k \<equiv> \<lparr>rm_state = s, rm_callers = [a, b], rm_mu = m, rm_arrivals = n, rm_tickets = [0, 0], rm_issued = k\<rparr>"

abbreviation missed_served :: "'z \<Rightarrow> ((nat abstract_limit abstract_limiter, 'z) waiting_scheme, int) room" where
  "missed_served z \<equiv> missed_room (missed_state (count_outcome Status_kRejected (cap_one\<lparr>al_inflight := 1\<rparr>)) [] [(0, cap_one_slot)] 1
     (Some (WaiterSlot_new ''b'')) z) (Returned 0) (Parking ''b'') None 0 1"

lemma missed_run_served:
  "(room_step park erase deadline cap_one_ops)\<^sup>*\<^sup>* (room_init 2 (idle_state z)) (missed_served z)"
proof -
  let ?R = "count_outcome Status_kRejected (cap_one\<lparr>al_inflight := 1\<rparr>)" and ?A = "cap_one\<lparr>al_inflight := 1\<rparr>"
  let ?step = "room_step park erase deadline cap_one_ops"
  let ?c = "missed_room (missed_state cap_one [] [] 0 None z) Outside Outside None 0 0"
  let ?c1 = "missed_room (missed_state ?A [] [] 0 None z) (Wrapping cap_one_slot) Outside None 0 0"
  let ?c2 = "missed_room (missed_state ?A [] [] 1 None z) (Storing 0 cap_one_slot) Outside None 0 1"
  let ?c3 = "missed_room (missed_state ?A [] [(0, cap_one_slot)] 1 None z) (Returned 0) Outside None 0 1"
  have start: "room_init 2 (idle_state z) = ?c" by (simp add: room_init_def numeral_eq_Suc)
  note rtranclp.rtrancl_refl [of ?step]
  also have "?step ?c ?c1"
    using room_step.fast_admits [of 0 ?c cap_one_ops 5 "''a''" cap_one_slot ?A] cap_one_admits [of "''a''"] by simp
  also have "?step ?c1 ?c2"
    using room_step.issues [of 0 ?c1 cap_one_slot 0 "missed_state ?A [] [] 1 None z"] by (simp add: wait_issue_def is_int32_def)
  also have "?step ?c2 ?c3"
    using room_step.stores [of 0 ?c2 0 cap_one_slot cap_one_ops 6 "missed_state ?A [] [(0, cap_one_slot)] 1 None z" "[]"]
    by (simp add: wait_emplace_def)
  also have "?step ?c3 (missed_served z)"
    using room_step.fast_rejects [of 1 ?c3 cap_one_ops 7 "''b''" ?R] cap_one_rejects [of 7 "''b''"] by simp
  finally show ?thesis unfolding start .
qed

lemma missed_run:
  assumes "park 1 (missed_state cap_one_done [] [] 1 (Some (WaiterSlot_new ''b'')) z) = Some q"
  shows "(room_step park erase deadline cap_one_ops)\<^sup>*\<^sup>* (room_init 2 (idle_state z))
     (missed_room (missed_state cap_one_done q [] 1 (Some (WaiterSlot_new ''b'')) z) Outside
       (Waiting (deadline (missed_state cap_one_done [] [] 1 (Some (WaiterSlot_new ''b'')) z) ''b'' 9)) None 1 1)"
proof -
  let ?w = "Some (WaiterSlot_new ''b'')" and ?step = "room_step park erase deadline cap_one_ops"
  let ?R = "missed_state (count_outcome Status_kRejected (cap_one\<lparr>al_inflight := 1\<rparr>)) [] [] 1 ?w z"
  let ?D = "missed_state cap_one_done [] [] 1 ?w z"
  let ?c1 = "missed_room ?R (Finishing kSuccess (Some cap_one_slot)) (Parking ''b'') None 0 1"
  let ?c2 = "missed_room ?D Unblocking (Parking ''b'') None 0 1"
  let ?c3 = "missed_room ?D Walking (Parking ''b'') (Some 0) 0 1"
  let ?c4 = "missed_room ?D Outside (Parking ''b'') None 0 1"
  note missed_run_served
  also have "?step (missed_served z) ?c1"
    using room_step.takes [of 0 "missed_served z" 0 "Some cap_one_slot" ?R _ _ _ _ kSuccess] by (simp add: wait_take_def)
  also have "?step ?c1 ?c2"
    using room_step.mirrors [of 0 ?c1 kSuccess cap_one_slot cap_one_ops 8 ?D "[]"] cap_one_completes by (simp add: wait_mirror_eq)
  also have "?step ?c2 ?c3" using room_step.locks [of 0 ?c2] by simp
  also have "?step ?c3 ?c4" using room_step.unlocks [of 0 ?c3 cap_one_ops 8 ?D] by (simp add: wait_round_def)
  also have "?step ?c4 (missed_room (missed_state cap_one_done q [] 1 ?w z) Outside (Waiting (deadline ?D ''b'' 9)) None 1 1)"
    using room_step.parks [of 1 ?c4 "''b''" park q _ deadline _ 9] assms by simp
  finally show ?thesis .
qed

text \<open>A round of \<^verbatim>\<open>Unblock\<close> at the end of it would serve call 1.\<close>

lemma cap_one_done_admits: "
    TryAcquire cap_one_ops now ctx cap_one_done = Inr (Some (MakeSlot now 1 False (- 1)), cap_one_done\<lparr>al_inflight := 1\<rparr>)"
  using Simple_TryAcquire [of cap_one_done FixedLimit_ops "[]" now ctx]
  by (simp add: cap_one_done_def count_outcome_def cap_one_fields is_int32_def)

lemma missed_round:
  "\<exists>s. wait_round cap_one_ops 10 (missed_state cap_one_done [1] [] 1 (Some (WaiterSlot_new ''b'')) z) = Inr (True, s)"
  using cap_one_done_admits [of 10 "''b''"] by (simp add: wait_round_def load_waiter_def WaiterSlot_new_def)

lemma missed_served_owned: "filter_mset live (owned (missed_served z)) = {#cap_one_slot#}"
  by (simp add: owned_def WaiterSlot_new_def cap_one_slot_def live_def MakeSlot_def)

end
