(* ===== verification/Waiting_Alone.thy ===== *)
theory Waiting_Alone
  imports Waiting_Service
begin

section \<open>A waiting limiter used by one thread\<close>

text \<open>
  The whole of \<^verbatim>\<open>DoTryAcquire\<close> and \<^verbatim>\<open>OnSlotComplete\<close> of the two blocking limiters when no other
  call runs in between, and the proof, for every queue discipline, that the limiter then decides
  exactly as its delegate does.
\<close>

subsection \<open>Whole calls\<close>

text \<open>\<^verbatim>\<open>OnSlotComplete\<close>: the inner guard is taken out of the map, completed, and the queue walked.\<close>

definition wait_complete ::
  "('d, 'cb) limiter_ops \<Rightarrow> completion_status \<Rightarrow> int \<Rightarrow> int \<Rightarrow> bool \<Rightarrow> int \<Rightarrow> int \<Rightarrow> ('d, 'z) waiting_scheme \<Rightarrow>
   (('d, 'z) waiting_scheme \<times> ('cb \<times> int) list) res" where
  "wait_complete dops st start_time_ns inflight_at_acquire bypassed partition_index now s =
     (case wait_take partition_index s of (inner, s) \<Rightarrow>
      bind_res (case inner of None \<Rightarrow> Inr (s, []) | Some g \<Rightarrow> wait_mirror dops st now g s) (\<lambda>(s, cs).
      bind_res (wait_unblock dops now s) (\<lambda>s. Inr (s, cs))))"

text \<open>\<^verbatim>\<open>DoTryAcquire\<close>: a rejected call appends its waiter slot to the memory, parks it, waits until the
  deadline with nobody to serve it, erases it from the queue and removes it.\<close>

definition wait_alone ::
  "(nat \<Rightarrow> ('d, 'z) waiting_scheme \<Rightarrow> nat list option) \<Rightarrow> (nat \<Rightarrow> nat list \<Rightarrow> nat list) \<Rightarrow> ('d, 'cb) limiter_ops \<Rightarrow>
   int \<Rightarrow> string \<Rightarrow> ('d, 'z) waiting_scheme \<Rightarrow> (slot_guard option \<times> ('d, 'z) waiting_scheme) res" where
  "wait_alone park erase dops now context s =
     bind_res (TryAcquire dops now context (wt_delegate s)) (\<lambda>(inner, d).
     let s = s\<lparr>wt_delegate := d\<rparr> in
     case inner of
       Some g \<Rightarrow>
         (case wait_issue s of (k, s) \<Rightarrow>
          bind_res (wait_emplace dops now k g s) (\<lambda>(s, cs). Inr (Some (MakeSlot 0 0 False k), s)))
     | None \<Rightarrow>
         let w = length (wt_waiters s);
             s = s\<lparr>wt_waiters := wt_waiters s @ [Some (WaiterSlot_new context)]\<rparr>
         in case park w s of
              None \<Rightarrow> Inr (None, s\<lparr>wt_waiters := butlast (wt_waiters s)\<rparr>)
            | Some q \<Rightarrow> Inr (None, s\<lparr>wt_queue := erase w q, wt_waiters := butlast (wt_waiters s)\<rparr>))"

definition wait_ops ::
  "(nat \<Rightarrow> ('d, 'z) waiting_scheme \<Rightarrow> nat list option) \<Rightarrow> (nat \<Rightarrow> nat list \<Rightarrow> nat list) \<Rightarrow> ('d, 'cb) limiter_ops \<Rightarrow>
   (('d, 'z) waiting_scheme, 'cb) limiter_ops" where
  "wait_ops park erase dops = \<lparr>DoTryAcquire = wait_alone park erase dops, OnSlotComplete = wait_complete dops\<rparr>"

subsection \<open>Uses of a limiter\<close>

text \<open>What a program with a single thread does with a limiter, and what it observes: for each
  call of \<^verbatim>\<open>TryAcquire\<close> whether it was admitted. Guards are numbered in the order they are
  returned; completing a number that was not returned does nothing.\<close>

datatype use = Try int string | Done nat completion_status int

fun use_limiter :: "('s, 'cb) limiter_ops \<Rightarrow> use list \<Rightarrow> 's \<Rightarrow> slot_guard list \<Rightarrow> (bool list \<times> 's) res" where
  "use_limiter ops [] s gs = Inr ([], s)"
| "use_limiter ops (Try now ctx # us) s gs =
     bind_res (TryAcquire ops now ctx s) (\<lambda>(g, s).
     bind_res (use_limiter ops us s (case g of None \<Rightarrow> gs | Some g \<Rightarrow> gs @ [g])) (\<lambda>(bs, s).
     Inr ((g \<noteq> None) # bs, s)))"
| "use_limiter ops (Done i st now # us) s gs =
     (if i < length gs then
        bind_res (SlotGuard_Complete ops st now (gs ! i) s) (\<lambda>(g, s, cs). use_limiter ops us s (gs[i := g]))
      else use_limiter ops us s gs)"

text \<open>Outer guards and inner guards: an outer guard that is not completed has its inner guard in
  the map; of a completed one the inner guard is spent too.\<close>

definition guards_match :: "('d, 'z) waiting_scheme \<Rightarrow> slot_guard list \<Rightarrow> slot_guard list \<Rightarrow> bool" where
  "guards_match s gs hs \<longleftrightarrow> length hs = length gs \<and> wt_queue s = [] \<and> wt_next_slot_id s = wrap32 (int (length gs))
     \<and> (\<forall>i < length gs. sg_limiter (gs ! i) \<and> sg_partition_index (gs ! i) = wrap32 (int i)
          \<and> (sg_completed (gs ! i) \<longrightarrow> \<not> sg_limiter (hs ! i) \<or> sg_completed (hs ! i)))
     \<and> wt_active_slots s = map (\<lambda>i. (wrap32 (int i), hs ! i)) (filter (\<lambda>i. \<not> sg_completed (gs ! i)) [0 ..< length gs])"

lemma wrap32_distinct: "i < 2 ^ 32 \<Longrightarrow> j < 2 ^ 32 \<Longrightarrow> wrap32 (int i) = wrap32 (int j) \<Longrightarrow> i = j"
  using wrap32_inj [of i j] wrap32_inj [of j i] by (cases "i \<le> j") auto

lemma match_keys:
  assumes "guards_match s gs hs" and "length gs \<le> 2 ^ 32"
  shows "distinct (map fst (wt_active_slots s))"
    and "length gs < 2 ^ 32 \<Longrightarrow> wrap32 (int (length gs)) \<notin> fst ` set (wt_active_slots s)"
proof -
  have "inj_on (\<lambda>i. wrap32 (int i)) {..<length gs}"
    using assms(2) by (intro inj_onI wrap32_distinct) auto
  then have "inj_on (\<lambda>i. wrap32 (int i)) (set (filter (\<lambda>i. \<not> sg_completed (gs ! i)) [0 ..< length gs]))"
    by (rule inj_on_subset) auto
  then show "distinct (map fst (wt_active_slots s))"
    using assms(1) by (simp add: guards_match_def comp_def distinct_map)
  show "wrap32 (int (length gs)) \<notin> fst ` set (wt_active_slots s)" if n: "length gs < 2 ^ 32"
  proof
    have a: "wt_active_slots s = map (\<lambda>i. (wrap32 (int i), hs ! i)) (filter (\<lambda>i. \<not> sg_completed (gs ! i)) [0 ..< length gs])"
      using assms(1) unfolding guards_match_def by blast
    assume "wrap32 (int (length gs)) \<in> fst ` set (wt_active_slots s)"
    then obtain i where "i < length gs" "wrap32 (int (length gs)) = wrap32 (int i)" unfolding a by auto
    then show False using wrap32_distinct [OF n, of i] n by simp
  qed
qed

lemma match_admitted:
  assumes m: "guards_match s gs hs"
    and "wt_queue s' = []" "wt_next_slot_id s' = wrap32 (wrap32 (int (length gs)) + 1)"
    and "wt_active_slots s' = wt_active_slots s @ [(wrap32 (int (length gs)), h)]"
  shows "guards_match s' (gs @ [MakeSlot 0 0 False (wrap32 (int (length gs)))]) (hs @ [h])"
proof -
  let ?gs = "gs @ [MakeSlot 0 0 False (wrap32 (int (length gs)))]" and ?hs = "hs @ [h]"
  have len: "length hs = length gs" using m by (simp add: guards_match_def)
  have "filter (\<lambda>i. \<not> sg_completed (?gs ! i)) [0 ..< length gs] = filter (\<lambda>i. \<not> sg_completed (gs ! i)) [0 ..< length gs]"
    by (rule filter_cong) (auto simp: nth_append)
  moreover have "map (\<lambda>i. (wrap32 (int i), ?hs ! i)) (filter P [0 ..< length gs])
      = map (\<lambda>i. (wrap32 (int i), hs ! i)) (filter P [0 ..< length gs])" for P
    using len by (auto simp: nth_append)
  moreover have "filter (\<lambda>i. \<not> sg_completed (?gs ! i)) [0 ..< length ?gs]
      = filter (\<lambda>i. \<not> sg_completed (?gs ! i)) [0 ..< length gs] @ [length gs]"
    by (simp add: MakeSlot_def)
  ultimately have "map (\<lambda>i. (wrap32 (int i), ?hs ! i)) (filter (\<lambda>i. \<not> sg_completed (?gs ! i)) [0 ..< length ?gs])
      = wt_active_slots s'"
    using m len assms(4) by (simp add: guards_match_def nth_append)
  moreover have "sg_limiter (?gs ! i) \<and> sg_partition_index (?gs ! i) = wrap32 (int i)
      \<and> (sg_completed (?gs ! i) \<longrightarrow> \<not> sg_limiter (?hs ! i) \<or> sg_completed (?hs ! i))" if "i < length ?gs" for i
    using m that len by (cases "i = length gs") (auto simp: guards_match_def nth_append MakeSlot_def)
  moreover have "wt_next_slot_id s' = wrap32 (1 + int (length gs))"
    using assms(3) by (metis add.commute wrap32_add_left)
  ultimately show ?thesis using len assms(2) by (simp add: guards_match_def)
qed

lemma completed_match:
  assumes m: "guards_match s gs hs" and n: "length gs \<le> 2 ^ 32" and i: "i < length gs"
    and h: "\<not> sg_limiter h \<or> sg_completed h"
  shows "guards_match (s\<lparr>wt_active_slots := filter (\<lambda>(j, g). j \<noteq> wrap32 (int i)) (wt_active_slots s), wt_delegate := d\<rparr>)
    (gs[i := (gs ! i)\<lparr>sg_completed := True\<rparr>]) (hs[i := h])"
proof -
  have "wrap32 (int j) \<noteq> wrap32 (int i) \<longleftrightarrow> j \<noteq> i" if "j < length gs" for j
    using that i n wrap32_distinct [of j i] by auto
  then have eq: "filter (\<lambda>j. \<not> sg_completed (gs ! j) \<and> wrap32 (int j) \<noteq> wrap32 (int i)) [0 ..< length gs]
      = filter (\<lambda>j. j \<noteq> i \<and> \<not> sg_completed (gs ! j)) [0 ..< length gs]"
    by (intro filter_cong) auto
  have "filter (\<lambda>(j, g). j \<noteq> wrap32 (int i)) (wt_active_slots s) = map (\<lambda>j. (wrap32 (int j), hs ! j))
      (filter (\<lambda>j. j \<noteq> i \<and> \<not> sg_completed (gs ! j)) [0 ..< length gs])"
    using m eq by (simp add: guards_match_def filter_map comp_def)
  also have "\<dots> = map (\<lambda>j. (wrap32 (int j), hs[i := h] ! j))
      (filter (\<lambda>j. \<not> sg_completed (gs[i := (gs ! i)\<lparr>sg_completed := True\<rparr>] ! j)) [0 ..< length gs])"
    using i by (auto simp: nth_list_update intro!: map_cong filter_cong)
  finally show ?thesis using m h i by (auto simp: guards_match_def nth_list_update)
qed


subsection \<open>Alone, a waiting limiter is its delegate\<close>

lemma wait_TryAcquire: "TryAcquire (wait_ops park erase dops) now ctx s = wait_alone park erase dops now ctx s"
  by (simp add: TryAcquire_def wait_ops_def)

lemma wait_Complete:
  "sg_limiter g \<Longrightarrow> \<not> sg_completed g \<Longrightarrow> SlotGuard_Complete (wait_ops park erase dops) st now g s =
     bind_res (wait_complete dops st (sg_start_time_ns g) (sg_inflight_at_acquire g) (sg_bypassed g)
       (sg_partition_index g) now s) (\<lambda>(s', cs). Inr (g\<lparr>sg_completed := True\<rparr>, s', cs))"
  by (simp add: SlotGuard_Complete_def SlotGuard_notify_def wait_ops_def)

context queue_discipline
begin

lemma alone_admits:
  assumes m: "guards_match s gs hs" and n: "length gs < 2 ^ 32" and "TryAcquire dops now ctx (wt_delegate s) = Inr (Some h, d)"
  shows "\<exists>g s'. TryAcquire (wait_ops park erase dops) now ctx s = Inr (Some g, s') \<and> wt_delegate s' = d
    \<and> guards_match s' (gs @ [g]) (hs @ [h])"
proof -
  let ?k = "wrap32 (int (length gs))"
  let ?s = "s\<lparr>wt_delegate := d, wt_next_slot_id := wrap32 (?k + 1), wt_active_slots := wt_active_slots s @ [(?k, h)]\<rparr>"
  have "?k \<notin> fst ` set (wt_active_slots s)" using match_keys(2) [OF m] n by simp
  then have "TryAcquire (wait_ops park erase dops) now ctx s = Inr (Some (MakeSlot 0 0 False ?k), ?s)"
    using assms(3) m by (simp add: wait_TryAcquire wait_alone_def wait_issue_def wait_emplace_def Let_def guards_match_def)
  moreover have "guards_match ?s (gs @ [MakeSlot 0 0 False ?k]) (hs @ [h])"
    by (rule match_admitted [OF m]) (use m in \<open>simp_all add: guards_match_def\<close>)
  ultimately show ?thesis by (intro exI [of _ "MakeSlot 0 0 False ?k"] exI [of _ ?s]) simp
qed

lemma park_undone:
  assumes "wt_queue s = []" and "park i s = Some q"
  shows "erase i q = []"
proof -
  have "mset q = {#i#}" using park_adds [OF assms(2)] assms(1) by simp
  then have "mset (erase i q) = {#}" using erase_removes [of i q] by simp
  then show ?thesis by simp
qed

lemma alone_rejects:
  assumes m: "guards_match s gs hs" and "TryAcquire dops now ctx (wt_delegate s) = Inr (None, d)"
  shows "TryAcquire (wait_ops park erase dops) now ctx s = Inr (None, s\<lparr>wt_delegate := d\<rparr>)"
    and "guards_match (s\<lparr>wt_delegate := d\<rparr>) gs hs"
proof -
  let ?w = "length (wt_waiters s)"
  let ?s = "s\<lparr>wt_delegate := d, wt_waiters := wt_waiters s @ [Some (WaiterSlot_new ctx)]\<rparr>"
  have q: "wt_queue s = []" using m by (simp add: guards_match_def)
  then have "erase ?w q = wt_queue s" if "park ?w ?s = Some q" for q using park_undone [OF _ that] by simp
  then show "TryAcquire (wait_ops park erase dops) now ctx s = Inr (None, s\<lparr>wt_delegate := d\<rparr>)"
    using assms(2) by (cases s; cases "park ?w ?s") (auto simp: wait_TryAcquire wait_alone_def Let_def)
  show "guards_match (s\<lparr>wt_delegate := d\<rparr>) gs hs" using m by (simp add: guards_match_def)
qed

lemma alone_completes:
  assumes m: "guards_match s gs hs" and n: "length gs \<le> 2 ^ 32" and i: "i < length gs" and live: "\<not> sg_completed (gs ! i)"
  shows "SlotGuard_Complete (wait_ops park erase dops) st now (gs ! i) s =
      bind_res (SlotGuard_Complete dops st now (hs ! i) (wt_delegate s)) (\<lambda>(h, d, cs).
        Inr ((gs ! i)\<lparr>sg_completed := True\<rparr>, s\<lparr>wt_active_slots := filter (\<lambda>(j, g). j \<noteq> wrap32 (int i)) (wt_active_slots s),
          wt_delegate := d\<rparr>, cs))"
proof -
  have k: "sg_limiter (gs ! i)" "sg_partition_index (gs ! i) = wrap32 (int i)" "wt_queue s = []"
    using m i by (auto simp: guards_match_def)
  have "(wrap32 (int i), hs ! i) \<in> set (wt_active_slots s)" using m i live by (auto simp: guards_match_def)
  then have "map_of (wt_active_slots s) (wrap32 (int i)) = Some (hs ! i)" using match_keys(1) [OF m n] by simp
  then show ?thesis
    using k live
    by (cases "SlotGuard_Complete dops st now (hs ! i) (wt_delegate s)")
       (auto simp: wait_Complete wait_complete_def wait_take_def wait_mirror_eq wait_unblock.simps wait_round_def)
qed

text \<open>One use of the limiter, given that the rest of the uses agree from every matching state.\<close>

abbreviation (input) agrees :: "('d, 'cb) limiter_ops \<Rightarrow> use list \<Rightarrow> ('d, 'z) waiting_scheme \<Rightarrow> slot_guard list \<Rightarrow> slot_guard list \<Rightarrow> bool" where
  "agrees dops us s gs hs \<equiv>
     use_limiter dops us (wt_delegate s) hs = map_sum (\<lambda>e. e) (apsnd wt_delegate) (use_limiter (wait_ops park erase dops) us s gs)"

lemma use_try:
  assumes m: "guards_match s gs hs" and n: "length gs < 2 ^ 32"
    and rest: "\<And>s gs' hs'. guards_match s gs' hs' \<Longrightarrow> length gs' \<le> Suc (length gs) \<Longrightarrow> agrees dops us s gs' hs'"
  shows "agrees dops (Try now ctx # us) s gs hs"
proof -
  consider e where "TryAcquire dops now ctx (wt_delegate s) = Inl e"
    | d where "TryAcquire dops now ctx (wt_delegate s) = Inr (None, d)"
    | h d where "TryAcquire dops now ctx (wt_delegate s) = Inr (Some h, d)"
    by (metis option.exhaust surj_pair sum.exhaust)
  then show ?thesis
  proof cases
    case 1
    then show ?thesis by (simp add: wait_TryAcquire wait_alone_def)
  next
    case (2 d)
    have "agrees dops us (s\<lparr>wt_delegate := d\<rparr>) gs hs" using rest [OF alone_rejects(2) [OF m 2]] by simp
    then show ?thesis using alone_rejects(1) [OF m 2] 2
      by (cases "use_limiter (wait_ops park erase dops) us (s\<lparr>wt_delegate := d\<rparr>) gs") auto
  next
    case (3 h d)
    obtain g s' where s': "TryAcquire (wait_ops park erase dops) now ctx s = Inr (Some g, s')" "wt_delegate s' = d"
        "guards_match s' (gs @ [g]) (hs @ [h])"
      using alone_admits [OF m n 3] by auto
    have "agrees dops us s' (gs @ [g]) (hs @ [h])" using rest [OF s'(3)] by simp
    then show ?thesis using s' 3 by (cases "use_limiter (wait_ops park erase dops) us s' (gs @ [g])") auto
  qed
qed

lemma use_done:
  assumes m: "guards_match s gs hs" and n: "length gs \<le> 2 ^ 32"
    and rest: "\<And>s gs' hs'. guards_match s gs' hs' \<Longrightarrow> length gs' \<le> Suc (length gs) \<Longrightarrow> agrees dops us s gs' hs'"
  shows "agrees dops (Done i st now # us) s gs hs"
proof -
  have len: "length hs = length gs" using m by (simp add: guards_match_def)
  consider "\<not> i < length gs" | "i < length gs" "sg_completed (gs ! i)" | "i < length gs" "\<not> sg_completed (gs ! i)" by blast
  then show ?thesis
  proof cases
    case 1
    then show ?thesis using rest [OF m] len by simp
  next
    case 2
    then have "\<not> sg_limiter (hs ! i) \<or> sg_completed (hs ! i)" using m by (simp add: guards_match_def)
    then show ?thesis using 2 rest [OF m] len by (simp add: SlotGuard_Complete_def)
  next
    case 3
    note c = alone_completes [OF m n 3, of dops st now]
    show ?thesis
    proof (cases "SlotGuard_Complete dops st now (hs ! i) (wt_delegate s)")
      case (Inl e)
      then show ?thesis using 3 c len by simp
    next
      case (Inr r)
      obtain h d cs where r: "r = (h, d, cs)" by (cases r)
      have "\<not> sg_limiter h \<or> sg_completed h"
        using Inr r by (auto simp: SlotGuard_Complete_def bind_res_Inr split: if_splits)
      then have "guards_match (s\<lparr>wt_active_slots := filter (\<lambda>(j, g). j \<noteq> wrap32 (int i)) (wt_active_slots s), wt_delegate := d\<rparr>)
          (gs[i := (gs ! i)\<lparr>sg_completed := True\<rparr>]) (hs[i := h])"
        by (rule completed_match [OF m n 3(1)])
      from rest [OF this] show ?thesis using 3 c len Inr r by simp
    qed
  qed
qed

lemma use_alone:
  assumes "guards_match s gs hs" and "length gs + length us \<le> 2 ^ 32"
  shows "agrees dops us s gs hs"
  using assms
proof (induction us arbitrary: s gs hs)
  case Nil
  then show ?case by simp
next
  case (Cons u us)
  have rest: "agrees dops us s' gs' hs'" if "guards_match s' gs' hs'" "length gs' \<le> Suc (length gs)" for s' gs' hs'
    using Cons.IH [OF that(1)] that(2) Cons.prems(2) by simp
  show ?case
  proof (cases u)
    case (Try now ctx)
    then show ?thesis using use_try [OF Cons.prems(1) _ rest] Cons.prems(2) by simp
  next
    case (Done i st now)
    then show ?thesis using use_done [OF Cons.prems(1) _ rest] Cons.prems(2) by simp
  qed
qed

end

end
