(* ===== verification/Blocking.thy ===== *)
theory Blocking
  imports Waiting_Alone
begin

section \<open>BlockingLimiter: callers wait in order of arrival\<close>

text \<open>
  \<^verbatim>\<open>BlockingLimiter\<close> (\<^verbatim>\<open>blocking_limiter.h\<close>, \<^verbatim>\<open>blocking_limiter.cc\<close>): the builder, the queue
  discipline (first in, first out, no bound), the deadline of a call and the completion of a
  slot. \<open>Blocking_step\<close> interleaves the operations of any number of calls; \<open>Blocking_alone\<close> is a
  whole call of \<^verbatim>\<open>DoTryAcquire\<close> with no other call running, where waiting ends with the deadline.
\<close>

subsection \<open>Builder\<close>

record 'd blocking = "'d waiting" +
  bl_timeout :: int

definition kMaxTimeout :: int where
  "kMaxTimeout = 3600000"

record 'd blocking_builder =
  bb_delegate :: "'d option"
  bb_timeout :: int

definition Blocking_Builder :: "'d blocking_builder" where
  "Blocking_Builder = \<lparr>bb_delegate = None, bb_timeout = kMaxTimeout\<rparr>"

definition Blocking_Delegate :: "'d option \<Rightarrow> 'd blocking_builder \<Rightarrow> 'd blocking_builder" where
  "Blocking_Delegate delegate b = b\<lparr>bb_delegate := delegate\<rparr>"

definition Blocking_Timeout :: "int \<Rightarrow> 'd blocking_builder \<Rightarrow> 'd blocking_builder" where
  "Blocking_Timeout timeout b = b\<lparr>bb_timeout := timeout\<rparr>"

definition Blocking_new :: "'d \<Rightarrow> int \<Rightarrow> 'd blocking" where
  "Blocking_new delegate timeout =
     \<lparr>wt_delegate = delegate, wt_queue = [], wt_active_slots = [], wt_next_slot_id = 0, wt_waiters = [],
      bl_timeout = timeout\<rparr>"

definition Blocking_Build :: "(int \<Rightarrow> string) \<Rightarrow> 'd blocking_builder \<Rightarrow> status + 'd blocking" where
  "Blocking_Build StrCat b =
     (case bb_delegate b of
        None \<Rightarrow> Inl (InvalidArgument ''BlockingLimiter::Builder::Delegate() is required'')
      | Some delegate \<Rightarrow>
        if bb_timeout b \<le> 0 then
          Inl (InvalidArgument ''BlockingLimiter::Builder::Timeout() must be positive'')
        else if kMaxTimeout < bb_timeout b then
          Inl (InvalidArgument (''BlockingLimiter::Builder::Timeout() must not exceed '' @ StrCat kMaxTimeout
            @ '' ms (one hour)''))
        else Inr (Blocking_new delegate (bb_timeout b)))"

subsection \<open>Operations\<close>

definition QueueSize :: "('d, 'z) waiting_scheme \<Rightarrow> int" where
  "QueueSize s = wrap32 (int (length (wt_queue s)))"

text \<open>The condition \<^verbatim>\<open>AwaitQueueSize\<close> waits for.\<close>

definition AwaitQueueSize_condition :: "int \<Rightarrow> ('d, 'z) waiting_scheme \<Rightarrow> bool" where
  "AwaitQueueSize_condition n s \<longleftrightarrow> n \<le> int (length (wt_queue s))"

definition Blocking_park :: "nat \<Rightarrow> 'd blocking \<Rightarrow> nat list option" where
  "Blocking_park waiter s = Some (wt_queue s @ [waiter])"

fun Blocking_erase :: "nat \<Rightarrow> nat list \<Rightarrow> nat list" where
  "Blocking_erase waiter [] = []"
| "Blocking_erase waiter (w # queue) = (if w = waiter then queue else w # Blocking_erase waiter queue)"

definition Blocking_deadline :: "('t, 'u) absl_time \<Rightarrow> 'd blocking \<Rightarrow> string \<Rightarrow> 't \<Rightarrow> 't" where
  "Blocking_deadline tm s context now = time_plus tm now (Milliseconds tm (bl_timeout s))"

abbreviation Blocking_step ::
  "('t::linorder, 'u) absl_time \<Rightarrow> ('d, 'cb) limiter_ops \<Rightarrow> ('d blocking, 't) room \<Rightarrow> ('d blocking, 't) room \<Rightarrow> bool" where
  "Blocking_step tm dops \<equiv> room_step Blocking_park Blocking_erase (Blocking_deadline tm) dops"

definition Blocking_OnSlotComplete ::
  "('d, 'cb) limiter_ops \<Rightarrow> completion_status \<Rightarrow> int \<Rightarrow> int \<Rightarrow> bool \<Rightarrow> int \<Rightarrow> int \<Rightarrow> 'd blocking \<Rightarrow>
   ('d blocking \<times> ('cb \<times> int) list) res" where
  "Blocking_OnSlotComplete dops = wait_complete dops"

definition Blocking_alone ::
  "('d, 'cb) limiter_ops \<Rightarrow> int \<Rightarrow> string \<Rightarrow> 'd blocking \<Rightarrow> (slot_guard option \<times> 'd blocking) res" where
  "Blocking_alone dops = wait_alone Blocking_park Blocking_erase dops"

definition Blocking_ops :: "('d, 'cb) limiter_ops \<Rightarrow> ('d blocking, 'cb) limiter_ops" where
  "Blocking_ops dops = \<lparr>DoTryAcquire = Blocking_alone dops, OnSlotComplete = Blocking_OnSlotComplete dops\<rparr>"

subsection \<open>The discipline\<close>

lemma Blocking_erase_remove1: "Blocking_erase i q = remove1 i q"
  by (induction q) auto

lemma sorted_wrt_remove1: "sorted_wrt P q \<Longrightarrow> sorted_wrt P (remove1 i q)"
  by (induction q) (auto dest: notin_set_remove1)

interpretation fifo: ordered_discipline Blocking_park Blocking_erase "(<)"
  by unfold_locales (auto simp: Blocking_park_def Blocking_erase_remove1 sorted_wrt_append intro: sorted_wrt_remove1)

interpretation blocking_simple: guarded_room "Simple_ops lops fails" "\<lambda>n s M. balanced (int n) (int (size M)) s"
  Blocking_park Blocking_erase for lops fails
  unfolding Simple_ops_def by unfold_locales

lemma Blocking_Build_state:
  assumes "Blocking_Build StrCat b = Inr s"
  shows "wt_queue s = []" and "wt_active_slots s = []" and "wt_next_slot_id s = 0" and "bb_delegate b = Some (wt_delegate s)"
    and "0 < bl_timeout s" and "bl_timeout s \<le> kMaxTimeout"
  using assms by (auto simp: Blocking_Build_def Blocking_new_def split: option.splits if_splits)


subsection \<open>Properties\<close>

text \<open>
  C16. No slot is lost between the delegate and the callers: in every interleaving of calls that
  acquire, park, are served, time out and complete, the delegate's in-flight count is the number
  of its guards that the limiter still owns, each in exactly one place (a local variable of a
  call, a waiter slot or the slot map); and every pointer in the queue points to a waiter slot
  that exists. In particular a slot handed to a call whose deadline passes at that moment is kept.
\<close>

theorem blocking_no_slot_lost:
  assumes "Simple_Build sb = Inr d" and "Blocking_Build StrCat (Blocking_Delegate (Some d) b) = Inr s0"
    and "(Blocking_step tm (Simple_ops lops fails))\<^sup>*\<^sup>* (room_init n s0) c"
    and "int (size (filter_mset live (owned c))) \<le> INT_MAX"
  shows "InflightCount (wt_delegate (rm_state c)) = int (size (filter_mset live (owned c)))
    \<and> (\<forall>w \<in> set (wt_queue (rm_state c)). \<exists>x. load_waiter (wt_waiters (rm_state c)) w = Inr x)"
proof -
  note s0 = Blocking_Build_state [OF assms(2)]
  have d: "wt_delegate s0 = d" using s0(4) by (simp add: Blocking_Delegate_def)
  have "balanced (int 0) (int (size {#})) (wt_delegate s0)"
    using Simple_Build_balanced [OF assms(1)] d by simp
  note j = blocking_simple.init_keeps [OF this s0(2)]
  have k: "room_ok c" "blocking_simple.keeps c"
    using blocking_simple.reach_keeps [OF assms(3) room_ok_init [OF s0(1,2)] j] by simp_all
  have "is_int32 (int (size (filter_mset live (owned c))))" using assms(4) by (simp add: is_int32_def)
  then have "InflightCount (wt_delegate (rm_state c)) = int (size (filter_mset live (owned c)))"
    using k(2) balanced_inflight by (auto simp: blocking_simple.keeps_def InflightCount_def)
  moreover have "\<exists>x. load_waiter (wt_waiters (rm_state c)) w = Inr x" if "w \<in> set (wt_queue (rm_state c))" for w
    using room_ok_queue_ready [OF k(1)] that by (auto simp: queue_ready_def load_waiter_Inr)
  ultimately show ?thesis by blast
qed

text \<open>
  C28. First come, first served: at any point of any run, if a round of \<^verbatim>\<open>Unblock\<close> hands out a
  slot, it goes to a call that waited without one and queued before every other call that does; that call is
  signalled, and no other waiter is touched. So the rounds of one walk serve the queue in the order of arrival.
\<close>

theorem blocking_serves_oldest:
  assumes "Blocking_Build StrCat b = Inr s0" and "(Blocking_step tm dops)\<^sup>*\<^sup>* (room_init n s0) c"
    and "wait_round dops now (rm_state c) = Inr (True, s)"
  shows "\<exists>w dl x g. w < length (rm_callers c) \<and> rm_callers c ! w = Waiting dl
    \<and> wt_waiters (rm_state c) ! w = Some x \<and> wtr_slot x = None
    \<and> wt_waiters s = (wt_waiters (rm_state c))[w := Some (x\<lparr>wtr_slot := Some g, wtr_ready := True\<rparr>)]
    \<and> (\<forall>v dl y. v < length (rm_callers c) \<and> v \<noteq> w \<and> rm_callers c ! v = Waiting dl
         \<and> wt_waiters (rm_state c) ! v = Some y \<and> wtr_slot y = None \<longrightarrow> rm_tickets c ! w < rm_tickets c ! v)"
  by (rule fifo.serves_first [OF assms(2) Blocking_Build_state(1,2) [OF assms(1)] assms(3)]) blast

text \<open>
  Every guard is found again: as long as at most \<open>2 ^ 32\<close> slot ids have been given out, the
  completion of an outer guard finds the delegate's guard that was stored for it, and no two
  guards that are with the application share an id.
\<close>

lemma blocking_guard_found:
  assumes "Blocking_Build StrCat b = Inr s0" and "(Blocking_step tm dops)\<^sup>*\<^sup>* (room_init n s0) c"
    and "rm_issued c \<le> 2 ^ 32" and "i < length (rm_callers c)" and "rm_callers c ! i = Returned k"
  shows "(\<exists>g. map_of (wt_active_slots (rm_state c)) k = Some g)
    \<and> (\<forall>j < length (rm_callers c). rm_callers c ! j = Returned k \<longrightarrow> j = i)"
  by (rule fifo.returned_found [OF assms(2) Blocking_Build_state(1-3) [OF assms(1)] assms(3-5)])

text \<open>A call that gives up does so after its deadline only.\<close>

lemma blocking_gives_up_late:
  assumes "Blocking_Build StrCat b = Inr s0" and "(Blocking_step tm dops)\<^sup>*\<^sup>* (room_init n s0) c"
    and "i < length (rm_callers c)" and "rm_callers c ! i = Waiting dl"
    and "load_waiter (wt_waiters (rm_state c)) i = Inr w" and "wtr_ready w \<or> dl \<le> t" and "wtr_slot w = None"
  shows "dl \<le> t"
proof -
  have "room_ok c"
    using fifo.reach_ok [OF assms(2) room_ok_init] Blocking_Build_state(1,2) [OF assms(1)] by blast
  then have "slot_ok (rm_callers c ! i) (wt_waiters (rm_state c) ! i) (i \<in> set (wt_queue (rm_state c)))"
    using assms(3) all_slotsD by (auto simp: room_ok_def)
  then show ?thesis using assms(4-7) by (auto simp: load_waiter_Inr)
qed


subsection \<open>Alone, it is its delegate\<close>

text \<open>
  C31. With a single thread a blocking limiter is its delegate: whatever such a program does, up
  to \<open>2 ^ 32\<close> operations, every \<^verbatim>\<open>TryAcquire\<close> is decided as the delegate alone would have decided it,
  the delegate ends in the same state, and undefined behaviour is reached in the same cases.
\<close>

theorem blocking_alone_is_delegate:
  assumes "Blocking_Build StrCat b = Inr s0" and "length us \<le> 2 ^ 32"
  shows "map_sum (\<lambda>e. e) (apsnd wt_delegate) (use_limiter (Blocking_ops dops) us s0 []) = use_limiter dops us (wt_delegate s0) []"
proof -
  have "guards_match s0 [] []"
    using Blocking_Build_state(1-3) [OF assms(1)] by (simp add: guards_match_def is_int32_def)
  moreover have "Blocking_ops dops = wait_ops Blocking_park Blocking_erase dops"
    by (simp add: Blocking_ops_def Blocking_alone_def Blocking_OnSlotComplete_def wait_ops_def)
  ultimately show ?thesis using fifo.use_alone [of s0 "[]" "[]" us dops] assms(2) by simp
qed

subsection \<open>A lost wakeup\<close>

definition missed :: "int \<Rightarrow> nat abstract_limit abstract_limiter blocking" where
  "missed timeout = Blocking_new cap_one timeout"

lemma missed_start: "missed timeout = idle_state \<lparr>bl_timeout = timeout\<rparr>"
  by (simp add: missed_def Blocking_new_def blocking.defs)

lemma missed_parked:
  "(Blocking_step ticks cap_one_ops)\<^sup>*\<^sup>* (room_init 2 (missed 1000))
     (missed_room (missed_state cap_one_done [1] [] 1 (Some (WaiterSlot_new ''b'')) \<lparr>bl_timeout = 1000\<rparr>)
       Outside (Waiting 1000000009) None 1 1)"
  using missed_run [where park = Blocking_park and z = "\<lparr>bl_timeout = 1000\<rparr>" and erase = Blocking_erase
      and deadline = "Blocking_deadline ticks"]
  by (simp add: missed_start Blocking_park_def Blocking_deadline_def ticks_def)

text \<open>
  C37. A wakeup can be lost: over a simple limiter with cap one there is a run after which one call
  is queued and waits, no other call is in the limiter, and the delegate has a free slot. The
  only thing that still gets the call out of the queue is its deadline, or the completion of
  some later call. (The slot is freed between the rejection by the delegate and the queueing,
  and \<^verbatim>\<open>DoTryAcquire\<close> does not try the delegate again after it has queued.)
\<close>

theorem blocking_lost_wakeup:
  "\<exists>c. (Blocking_step ticks cap_one_ops)\<^sup>*\<^sup>* (room_init 2 (missed 1000)) c
    \<and> rm_callers c = [Outside, Waiting 1000000009] \<and> wt_queue (rm_state c) = [1] \<and> rm_mu c = None
    \<and> InflightCount (wt_delegate (rm_state c)) = 0 \<and> Limiter_GetLimit FixedLimit_ops (wt_delegate (rm_state c)) = 1"
  by (rule exI, rule conjI, rule missed_parked)
     (simp add: InflightCount_def Limiter_GetLimit_def cap_one_done_def count_outcome_def cap_one_fields)

subsection \<open>Witnesses\<close>

lemma missed_built:
  "Blocking_Build (\<lambda>_. ''3600000'') (Blocking_Delegate (Some cap_one) (Blocking_Timeout 1000 Blocking_Builder)) = Inr (missed 1000)"
  by (simp add: Blocking_Build_def Blocking_Delegate_def Blocking_Timeout_def Blocking_Builder_def missed_def kMaxTimeout_def)

lemmas missed_reached = missed_run_served [of Blocking_park Blocking_erase "Blocking_deadline ticks" "\<lparr>bl_timeout = 1000\<rparr>",
  folded missed_start]

theorem blocking_no_slot_lost_witness:
  "InflightCount (wt_delegate (rm_state (missed_served \<lparr>bl_timeout = 1000\<rparr>))) = 1"
  using blocking_no_slot_lost [OF cap_one_built missed_built missed_reached] unfolding missed_served_owned by simp

theorem blocking_guard_found_witness:
  "\<exists>g. map_of (wt_active_slots (rm_state (missed_served \<lparr>bl_timeout = 1000\<rparr>))) 0 = Some g"
  using blocking_guard_found [OF missed_built missed_reached, of 0 0] by simp

theorem blocking_serves_oldest_witness:
  "\<exists>s g. wait_round cap_one_ops 10 (missed_state cap_one_done [1] [] 1 (Some (WaiterSlot_new ''b'')) \<lparr>bl_timeout = 1000\<rparr>) = Inr (True, s)
    \<and> wt_waiters s = [None, Some ((WaiterSlot_new ''b'')\<lparr>wtr_slot := Some g, wtr_ready := True\<rparr>)]"
proof -
  from missed_round [of "\<lparr>bl_timeout = 1000\<rparr>"]
  obtain s where s: "wait_round cap_one_ops 10 (missed_state cap_one_done [1] [] 1 (Some (WaiterSlot_new ''b'')) \<lparr>bl_timeout = 1000\<rparr>)
      = Inr (True, s)" ..
  obtain w dl x g where "w < length [Outside, Waiting 1000000009 :: int caller]" "[Outside, Waiting 1000000009 :: int caller] ! w = Waiting dl"
      "wt_waiters (missed_state cap_one_done [1] [] 1 (Some (WaiterSlot_new ''b'')) \<lparr>bl_timeout = 1000\<rparr>) ! w = Some x"
      "wt_waiters s = (wt_waiters (missed_state cap_one_done [1] [] 1 (Some (WaiterSlot_new ''b'')) \<lparr>bl_timeout = 1000\<rparr>))[w := Some (x\<lparr>wtr_slot := Some g, wtr_ready := True\<rparr>)]"
    using blocking_serves_oldest [OF missed_built missed_parked, unfolded room.simps, OF s] by blast
  then have "wt_waiters s = [None, Some ((WaiterSlot_new ''b'')\<lparr>wtr_slot := Some g, wtr_ready := True\<rparr>)]"
    by (auto simp: less_Suc_eq numeral_2_eq_2)
  with s show ?thesis by blast
qed

theorem blocking_alone_is_delegate_witness:
  "\<exists>d. map_sum (\<lambda>e. e) (apsnd wt_delegate) (use_limiter (Blocking_ops cap_one_ops)
      [Try 5 ''a'', Try 6 ''b'', Done 0 kSuccess 8, Try 9 ''c''] (missed 1000) []) = Inr ([True, False, True], d)"
proof -
  have "use_limiter cap_one_ops [Try 5 ''a'', Try 6 ''b'', Done 0 kSuccess 8, Try 9 ''c''] cap_one []
      = Inr ([True, False, True], cap_one_done\<lparr>al_inflight := 1\<rparr>)"
    using cap_one_admits [of "''a''"] cap_one_rejects [of 6 "''b''"] cap_one_completes cap_one_done_admits [of 9 "''c''"] by simp
  moreover have "wt_delegate (missed 1000) = cap_one" by (simp add: missed_def Blocking_new_def)
  ultimately show ?thesis
    using blocking_alone_is_delegate [OF missed_built, of "[Try 5 ''a'', Try 6 ''b'', Done 0 kSuccess 8, Try 9 ''c'']" cap_one_ops]
    by simp
qed

end
