(* ===== verification/Lifo_Blocking.thy ===== *)
theory Lifo_Blocking
  imports Waiting_Alone
begin

section \<open>LifoBlockingLimiter: the freshest caller first, and a bounded backlog\<close>

text \<open>
  \<^verbatim>\<open>LifoBlockingLimiter\<close> (\<^verbatim>\<open>lifo_blocking_limiter.h\<close>, \<^verbatim>\<open>lifo_blocking_limiter.cc\<close>): the builder with its
  two overloads of \<^verbatim>\<open>BacklogTimeout\<close>, the queue discipline (last in, first out, at most
  \<^verbatim>\<open>backlog_size_\<close> waiters), the deadline computed from the request's context, and the completion
  of a slot. \<^verbatim>\<open>deque_\<close> is \<open>wt_queue\<close> of the shared record, its front first. The timeout function
  is the application's: a function from contexts to milliseconds, empty (\<open>None\<close>) when a null
  \<^verbatim>\<open>std::function\<close> was given.
\<close>

subsection \<open>Builder\<close>

record 'd lifo = "'d waiting" +
  ll_backlog_size :: int
  ll_timeout_fn :: "string \<Rightarrow> int"
  ll_fixed_timeout :: "int option"

definition lifo_kMaxTimeout :: int where
  "lifo_kMaxTimeout = 3600000"

record 'd lifo_builder =
  lb_delegate :: "'d option"
  lb_backlog_size :: int
  lb_timeout_fn :: "(string \<Rightarrow> int) option"
  lb_fixed_timeout :: "int option"

definition Lifo_Builder :: "'d lifo_builder" where
  "Lifo_Builder =
     \<lparr>lb_delegate = None, lb_backlog_size = 100, lb_timeout_fn = Some (\<lambda>_. 1000), lb_fixed_timeout = Some 1000\<rparr>"

definition Lifo_Delegate :: "'d option \<Rightarrow> 'd lifo_builder \<Rightarrow> 'd lifo_builder" where
  "Lifo_Delegate delegate b = b\<lparr>lb_delegate := delegate\<rparr>"

definition Lifo_BacklogSize :: "int \<Rightarrow> 'd lifo_builder \<Rightarrow> 'd lifo_builder" where
  "Lifo_BacklogSize n b = b\<lparr>lb_backlog_size := n\<rparr>"

definition Lifo_BacklogTimeout :: "int \<Rightarrow> 'd lifo_builder \<Rightarrow> 'd lifo_builder" where
  "Lifo_BacklogTimeout timeout b = b\<lparr>lb_timeout_fn := Some (\<lambda>_. timeout), lb_fixed_timeout := Some timeout\<rparr>"

definition Lifo_BacklogTimeout_fn :: "(string \<Rightarrow> int) option \<Rightarrow> 'd lifo_builder \<Rightarrow> 'd lifo_builder" where
  "Lifo_BacklogTimeout_fn fn b = b\<lparr>lb_timeout_fn := fn, lb_fixed_timeout := None\<rparr>"

definition Lifo_new :: "'d \<Rightarrow> int \<Rightarrow> (string \<Rightarrow> int) \<Rightarrow> int option \<Rightarrow> 'd lifo" where
  "Lifo_new delegate backlog_size timeout_fn fixed_timeout =
     \<lparr>wt_delegate = delegate, wt_queue = [], wt_active_slots = [], wt_next_slot_id = 0, wt_waiters = [],
      ll_backlog_size = backlog_size, ll_timeout_fn = timeout_fn, ll_fixed_timeout = fixed_timeout\<rparr>"

definition Lifo_Build :: "(int \<Rightarrow> string) \<Rightarrow> 'd lifo_builder \<Rightarrow> status + 'd lifo" where
  "Lifo_Build StrCat b =
     (case lb_delegate b of
        None \<Rightarrow> Inl (InvalidArgument ''LifoBlockingLimiter::Builder::Delegate() is required'')
      | Some delegate \<Rightarrow>
        if lb_backlog_size b < 1 then
          Inl (InvalidArgument (''LifoBlockingLimiter::Builder::BacklogSize() must be positive; got '' @ StrCat (lb_backlog_size b)))
        else (case lb_timeout_fn b of
          None \<Rightarrow> Inl (InvalidArgument ''LifoBlockingLimiter::Builder::BacklogTimeout() must not be null'')
        | Some fn \<Rightarrow>
          (case lb_fixed_timeout b of
             None \<Rightarrow> Inr (Lifo_new delegate (lb_backlog_size b) fn None)
           | Some fixed_timeout \<Rightarrow>
             if fixed_timeout \<le> 0 then
               Inl (InvalidArgument ''LifoBlockingLimiter::Builder::BacklogTimeout() must be positive'')
             else if lifo_kMaxTimeout < fixed_timeout then
               Inl (InvalidArgument (''LifoBlockingLimiter::Builder::BacklogTimeout() must not exceed '' @ StrCat lifo_kMaxTimeout
                 @ '' ms (one hour)''))
             else Inr (Lifo_new delegate (lb_backlog_size b) fn (Some fixed_timeout)))))"

subsection \<open>Operations\<close>

definition BacklogSize :: "('d, 'z) waiting_scheme \<Rightarrow> int" where
  "BacklogSize s = wrap32 (int (length (wt_queue s)))"

text \<open>The condition \<^verbatim>\<open>AwaitBacklogSize\<close> waits for.\<close>

definition AwaitBacklogSize_condition :: "int \<Rightarrow> ('d, 'z) waiting_scheme \<Rightarrow> bool" where
  "AwaitBacklogSize_condition n s \<longleftrightarrow> n \<le> int (length (wt_queue s))"

definition GetFixedBacklogTimeout :: "'d lifo \<Rightarrow> int option" where
  "GetFixedBacklogTimeout s = ll_fixed_timeout s"

definition Lifo_park :: "nat \<Rightarrow> 'd lifo \<Rightarrow> nat list option" where
  "Lifo_park waiter s = (if ll_backlog_size s \<le> int (length (wt_queue s)) then None else Some (waiter # wt_queue s))"

text \<open>The scan runs from the back to the front: \<open>deque\<close> is reversed, then scanned.\<close>

fun Lifo_scan :: "nat \<Rightarrow> nat list \<Rightarrow> nat list" where
  "Lifo_scan waiter [] = []"
| "Lifo_scan waiter (w # rest) = (if w = waiter then rest else w # Lifo_scan waiter rest)"

definition Lifo_erase :: "nat \<Rightarrow> nat list \<Rightarrow> nat list" where
  "Lifo_erase waiter deque = rev (Lifo_scan waiter (rev deque))"

definition Lifo_deadline :: "('t, 'u) absl_time \<Rightarrow> 'd lifo \<Rightarrow> string \<Rightarrow> 't \<Rightarrow> 't" where
  "Lifo_deadline tm s context now =
     (let timeout = ll_timeout_fn s context
      in if timeout \<le> 0 then now else time_plus tm now (Milliseconds tm timeout))"

abbreviation Lifo_step ::
  "('t::linorder, 'u) absl_time \<Rightarrow> ('d, 'cb) limiter_ops \<Rightarrow> ('d lifo, 't) room \<Rightarrow> ('d lifo, 't) room \<Rightarrow> bool" where
  "Lifo_step tm dops \<equiv> room_step Lifo_park Lifo_erase (Lifo_deadline tm) dops"

definition Lifo_Unblock :: "('d, 'cb) limiter_ops \<Rightarrow> int \<Rightarrow> 'd lifo \<Rightarrow> 'd lifo res" where
  "Lifo_Unblock dops now s = wait_unblock dops now s"

definition Lifo_OnSlotComplete ::
  "('d, 'cb) limiter_ops \<Rightarrow> completion_status \<Rightarrow> int \<Rightarrow> int \<Rightarrow> bool \<Rightarrow> int \<Rightarrow> int \<Rightarrow> 'd lifo \<Rightarrow>
   ('d lifo \<times> ('cb \<times> int) list) res" where
  "Lifo_OnSlotComplete dops st start_time_ns inflight_at_acquire bypassed partition_index now s =
     (case wait_take partition_index s of (inner, s) \<Rightarrow>
      bind_res (case inner of None \<Rightarrow> Inr (s, []) | Some g \<Rightarrow> wait_mirror dops st now g s) (\<lambda>(s, cs).
      bind_res (Lifo_Unblock dops now s) (\<lambda>s. Inr (s, cs))))"

definition Lifo_alone ::
  "('d, 'cb) limiter_ops \<Rightarrow> int \<Rightarrow> string \<Rightarrow> 'd lifo \<Rightarrow> (slot_guard option \<times> 'd lifo) res" where
  "Lifo_alone dops = wait_alone Lifo_park Lifo_erase dops"

definition Lifo_ops :: "('d, 'cb) limiter_ops \<Rightarrow> ('d lifo, 'cb) limiter_ops" where
  "Lifo_ops dops = \<lparr>DoTryAcquire = Lifo_alone dops, OnSlotComplete = Lifo_OnSlotComplete dops\<rparr>"

subsection \<open>The discipline\<close>

lemma Lifo_scan_remove1: "Lifo_scan w q = remove1 w q"
  by (induction q) auto

lemma Lifo_erase_mset: "mset (Lifo_erase w q) = mset q - {#w#}"
  by (simp add: Lifo_erase_def Lifo_scan_remove1)

lemma sorted_wrt_Lifo_scan: "sorted_wrt P q \<Longrightarrow> sorted_wrt P (Lifo_scan w q)"
  by (induction q) (auto simp: Lifo_scan_remove1 dest: notin_set_remove1)

lemma sorted_wrt_Lifo_erase: "sorted_wrt P q \<Longrightarrow> sorted_wrt P (Lifo_erase w q)"
  by (simp add: Lifo_erase_def sorted_wrt_rev sorted_wrt_Lifo_scan)

interpretation lifo: ordered_discipline Lifo_park Lifo_erase "(>)"
  by unfold_locales (auto simp: Lifo_park_def Lifo_erase_mset sorted_wrt_Lifo_erase split: if_splits)

interpretation lifo_bounded: bounded_discipline Lifo_park Lifo_erase "\<lambda>s. nat (ll_backlog_size s)"
proof unfold_locales
  fix s s' :: "'a lifo"
  assume "waiting.more s = waiting.more s'"
  then show "nat (ll_backlog_size s) = nat (ll_backlog_size s')" by (cases s; cases s') simp
qed (auto simp: Lifo_park_def split: if_splits)

interpretation lifo_simple: guarded_room "Simple_ops lops fails" "\<lambda>n s M. balanced (int n) (int (size M)) s"
  Lifo_park Lifo_erase for lops fails
  unfolding Simple_ops_def by unfold_locales

lemma Lifo_Build_state:
  assumes "Lifo_Build StrCat b = Inr s"
  shows "wt_queue s = []" and "wt_active_slots s = []" and "wt_next_slot_id s = 0" and "lb_delegate b = Some (wt_delegate s)"
    and "ll_backlog_size s = lb_backlog_size b" and "1 \<le> ll_backlog_size s" and "lb_timeout_fn b = Some (ll_timeout_fn s)"
    and "GetFixedBacklogTimeout s = lb_fixed_timeout b"
  using assms by (auto simp: Lifo_Build_def Lifo_new_def GetFixedBacklogTimeout_def split: option.splits if_splits)

subsection \<open>Properties\<close>

text \<open>
  C24. The backlog stays within its bound and no slot is lost: in every interleaving of calls, at
  most \<^verbatim>\<open>BacklogSize\<close> (as configured) calls are parked, and the delegate's in-flight count is the
  number of its guards that the limiter still owns, each in exactly one place: a guard handed to
  a call at the moment its timeout passes is not lost.
\<close>

theorem lifo_bounded_no_slot_lost:
  assumes "Simple_Build sb = Inr d" and "Lifo_Build StrCat (Lifo_Delegate (Some d) b) = Inr s0" and "is_int32 (lb_backlog_size b)"
    and "(Lifo_step tm (Simple_ops lops fails))\<^sup>*\<^sup>* (room_init n s0) c"
    and "int (size (filter_mset live (owned c))) \<le> INT_MAX"
  shows "BacklogSize (rm_state c) = int (length (wt_queue (rm_state c))) \<and> BacklogSize (rm_state c) \<le> lb_backlog_size b
    \<and> InflightCount (wt_delegate (rm_state c)) = int (size (filter_mset live (owned c)))"
proof -
  note s0 = Lifo_Build_state [OF assms(2)]
  have d: "wt_delegate s0 = d" "ll_backlog_size s0 = lb_backlog_size b" using s0(4,5) by (simp_all add: Lifo_Delegate_def)
  have "length (wt_queue (rm_state c)) \<le> nat (lb_backlog_size b)"
    using lifo_bounded.reach_bounded [OF assms(4) s0(1,2)] d by simp
  then have q: "int (length (wt_queue (rm_state c))) \<le> lb_backlog_size b" using s0(6) d(2) by simp
  then have b: "BacklogSize (rm_state c) = int (length (wt_queue (rm_state c)))"
    using assms(3) by (simp add: BacklogSize_def is_int32_def)
  have "balanced (int 0) (int (size {#})) (wt_delegate s0)"
    using Simple_Build_balanced [OF assms(1)] d by simp
  note j = lifo_simple.init_keeps [OF this s0(2)]
  have k: "lifo_simple.keeps c"
    using lifo_simple.reach_keeps [OF assms(4) room_ok_init [OF s0(1,2)] j] by simp
  have "is_int32 (int (size (filter_mset live (owned c))))" using assms(5) by (simp add: is_int32_def)
  then have "InflightCount (wt_delegate (rm_state c)) = int (size (filter_mset live (owned c)))"
    using k balanced_inflight by (auto simp: lifo_simple.keeps_def InflightCount_def)
  then show ?thesis using q b by simp
qed

text \<open>
  C29. Last come, first served: at any point of any run, if a round of \<^verbatim>\<open>Unblock\<close> hands out a slot,
  it goes to a call that waited without one and queued after every other call that does; that call is signalled,
  and no other waiter is touched. So the rounds of one walk serve the queue from its newest call to its oldest.
\<close>

theorem lifo_serves_freshest:
  assumes "Lifo_Build StrCat b = Inr s0" and "(Lifo_step tm dops)\<^sup>*\<^sup>* (room_init n s0) c"
    and "wait_round dops now (rm_state c) = Inr (True, s)"
  shows "\<exists>w dl x g. w < length (rm_callers c) \<and> rm_callers c ! w = Waiting dl
    \<and> wt_waiters (rm_state c) ! w = Some x \<and> wtr_slot x = None
    \<and> wt_waiters s = (wt_waiters (rm_state c))[w := Some (x\<lparr>wtr_slot := Some g, wtr_ready := True\<rparr>)]
    \<and> (\<forall>v dl y. v < length (rm_callers c) \<and> v \<noteq> w \<and> rm_callers c ! v = Waiting dl
         \<and> wt_waiters (rm_state c) ! v = Some y \<and> wtr_slot y = None \<longrightarrow> rm_tickets c ! v < rm_tickets c ! w)"
  by (rule lifo.serves_first [OF assms(2) Lifo_Build_state(1,2) [OF assms(1)] assms(3)]) blast

text \<open>Guards are found again and a single thread sees the delegate, as with \<^verbatim>\<open>BlockingLimiter\<close>.\<close>

lemma lifo_guard_found:
  assumes "Lifo_Build StrCat b = Inr s0" and "(Lifo_step tm dops)\<^sup>*\<^sup>* (room_init n s0) c"
    and "rm_issued c \<le> 2 ^ 32" and "i < length (rm_callers c)" and "rm_callers c ! i = Returned k"
  shows "(\<exists>g. map_of (wt_active_slots (rm_state c)) k = Some g)
    \<and> (\<forall>j < length (rm_callers c). rm_callers c ! j = Returned k \<longrightarrow> j = i)"
  by (rule lifo.returned_found [OF assms(2) Lifo_Build_state(1-3) [OF assms(1)] assms(3-5)])

lemma lifo_alone_is_delegate:
  assumes "Lifo_Build StrCat b = Inr s0" and "length us \<le> 2 ^ 32"
  shows "map_sum (\<lambda>e. e) (apsnd wt_delegate) (use_limiter (Lifo_ops dops) us s0 []) = use_limiter dops us (wt_delegate s0) []"
proof -
  have "guards_match s0 [] []"
    using Lifo_Build_state(1-3) [OF assms(1)] by (simp add: guards_match_def is_int32_def)
  moreover have "Lifo_ops dops = wait_ops Lifo_park Lifo_erase dops"
    by (simp add: Lifo_ops_def Lifo_alone_def Lifo_OnSlotComplete_def Lifo_Unblock_def wait_ops_def wait_complete_def fun_eq_iff)
  ultimately show ?thesis using lifo.use_alone [of s0 "[]" "[]" us dops] assms(2) by simp
qed

text \<open>Every configuration a builder can be given is answered, and the errors are exactly these.\<close>

lemma Lifo_Build_cases:
  "(\<exists>s. Lifo_Build StrCat b = Inr s) \<longleftrightarrow>
     lb_delegate b \<noteq> None \<and> 1 \<le> lb_backlog_size b \<and> lb_timeout_fn b \<noteq> None
     \<and> (\<forall>t. lb_fixed_timeout b = Some t \<longrightarrow> 0 < t \<and> t \<le> lifo_kMaxTimeout)"
  by (auto simp: Lifo_Build_def not_less not_le split: option.splits)

subsection \<open>A run, and witnesses\<close>

definition lifo_ext :: "unit lifo_ext" where
  "lifo_ext = lifo.fields 3 (\<lambda>_. 1000) (Some 1000)"

definition missed_lifo :: "nat abstract_limit abstract_limiter lifo" where
  "missed_lifo = Lifo_new cap_one 3 (\<lambda>_. 1000) (Some 1000)"

lemma missed_lifo_start: "missed_lifo = idle_state lifo_ext"
  by (simp add: missed_lifo_def Lifo_new_def lifo_ext_def lifo.defs)

lemma missed_lifo_built:
  "Lifo_Build (\<lambda>_. ''n'') (Lifo_Delegate (Some cap_one) (Lifo_BacklogSize 3 Lifo_Builder)) = Inr missed_lifo"
  by (simp add: Lifo_Build_def Lifo_Delegate_def Lifo_BacklogSize_def Lifo_Builder_def missed_lifo_def lifo_kMaxTimeout_def)

text \<open>The wakeup that \<^verbatim>\<open>BlockingLimiter\<close> can lose is lost here by the same run.\<close>

lemma lifo_lost_wakeup:
  "(Lifo_step ticks cap_one_ops)\<^sup>*\<^sup>* (room_init 2 missed_lifo)
     (missed_room (missed_state cap_one_done [1] [] 1 (Some (WaiterSlot_new ''b'')) lifo_ext)
       Outside (Waiting 1000000009) None 1 1)"
  using missed_run [where park = Lifo_park and z = lifo_ext and erase = Lifo_erase and deadline = "Lifo_deadline ticks"]
  unfolding missed_lifo_start
  by (simp add: Lifo_park_def Lifo_deadline_def ticks_def lifo_ext_def lifo.defs)

lemmas missed_lifo_reached = missed_run_served [of Lifo_park Lifo_erase "Lifo_deadline ticks" lifo_ext, folded missed_lifo_start]

theorem lifo_bounded_no_slot_lost_witness:
  "InflightCount (wt_delegate (rm_state (missed_served lifo_ext))) = 1 \<and> BacklogSize (rm_state (missed_served lifo_ext)) \<le> 3"
  using lifo_bounded_no_slot_lost [OF cap_one_built missed_lifo_built _ missed_lifo_reached]
  unfolding missed_served_owned by (simp add: Lifo_BacklogSize_def is_int32_def)

theorem lifo_serves_freshest_witness:
  "\<exists>s g. wait_round cap_one_ops 10 (missed_state cap_one_done [1] [] 1 (Some (WaiterSlot_new ''b'')) lifo_ext) = Inr (True, s)
    \<and> wt_waiters s = [None, Some ((WaiterSlot_new ''b'')\<lparr>wtr_slot := Some g, wtr_ready := True\<rparr>)]"
proof -
  from missed_round [of "lifo_ext"]
  obtain s where s: "wait_round cap_one_ops 10 (missed_state cap_one_done [1] [] 1 (Some (WaiterSlot_new ''b'')) lifo_ext)
      = Inr (True, s)" ..
  obtain w dl x g where "w < length [Outside, Waiting 1000000009 :: int caller]" "[Outside, Waiting 1000000009 :: int caller] ! w = Waiting dl"
      "wt_waiters (missed_state cap_one_done [1] [] 1 (Some (WaiterSlot_new ''b'')) lifo_ext) ! w = Some x"
      "wt_waiters s = (wt_waiters (missed_state cap_one_done [1] [] 1 (Some (WaiterSlot_new ''b'')) lifo_ext))[w := Some (x\<lparr>wtr_slot := Some g, wtr_ready := True\<rparr>)]"
    using lifo_serves_freshest [OF missed_lifo_built lifo_lost_wakeup, unfolded room.simps, OF s] by blast
  then have "wt_waiters s = [None, Some ((WaiterSlot_new ''b'')\<lparr>wtr_slot := Some g, wtr_ready := True\<rparr>)]"
    by (auto simp: less_Suc_eq numeral_2_eq_2)
  with s show ?thesis by blast
qed

end
