(* ===== verification/Blocking_Partitioned.thy ===== *)
theory Blocking_Partitioned
  imports Blocking Lifo_Blocking Partitioned_Properties
begin

section \<open>Blocking over partitions\<close>

text \<open>
  The two waiting limiters wrap any limiter. Over \<^verbatim>\<open>AbstractPartitionedLimiter\<close> a guard carries the
  partition it was admitted to, and the wrapper must give it back to that partition after it has
  passed through waiter slots and the slot map. The invariant of the partitioned limiter is one
  of the programs that use its guards (\<open>partition_slots\<close>), and the waiting room is such a program
  (\<open>guarded_room\<close>): the two contracts meet here.
\<close>

interpretation blocking_partitions: guarded_room "Partitioned_ops lops self fails bf"
  "\<lambda>n s M. slots_inv s M \<and> balanced (int n) (int (size M)) s" Blocking_park Blocking_erase for lops self fails bf
  by unfold_locales

interpretation lifo_partitions: guarded_room "Partitioned_ops lops self fails bf"
  "\<lambda>n s M. slots_inv s M \<and> balanced (int n) (int (size M)) s" Lifo_park Lifo_erase for lops self fails bf
  by unfold_locales

lemma slots_inv_counts:
  assumes "slots_inv s M"
  shows "map pt_busy (pl_partitions s) = map (in_partition M) [0 ..< length (pl_partitions s)]"
    and "InflightCount s = int (size M)" and "InflightCount s = sum_list (map pt_busy (pl_partitions s))"
  using assms slots_inv_sum(1) [OF assms] by (simp_all add: slots_inv_def InflightCount_def)

text \<open>
  C17. Partitions are charged correctly behind a queue: in every interleaving of calls of a
  \<^verbatim>\<open>BlockingLimiter\<close> over a partitioned limiter that acquire, park, are served by the completion of
  a request of another partition, time out and complete, the busy count of each partition is the
  number of its guards the wrapper still owns, and the global count their sum.
\<close>

theorem blocking_partitions_charged:
  assumes "Partitioned_Build StrCat lops self pb = Inr (Inr d)"
    and "Blocking_Build StrCat' (Blocking_Delegate (Some d) b) = Inr s0"
    and "(Blocking_step tm (Partitioned_ops lops self fails bf))\<^sup>*\<^sup>* (room_init n s0) c"
  shows "let s = wt_delegate (rm_state c); M = filter_mset live (owned c) in
    map pt_busy (pl_partitions s) = map (in_partition M) [0 ..< length (pl_partitions s)]
    \<and> InflightCount s = int (size M) \<and> InflightCount s = sum_list (map pt_busy (pl_partitions s))"
proof -
  note s0 = Blocking_Build_state [OF assms(2)]
  have "wt_delegate s0 = d" using s0(4) by (simp add: Blocking_Delegate_def)
  then have "slots_inv (wt_delegate s0) {#} \<and> balanced (int 0) (int (size {#})) (wt_delegate s0)"
    using Partitioned_Build_inv [OF assms(1)] by simp
  from blocking_partitions.reach_keeps [OF assms(3) room_ok_init [OF s0(1,2)] blocking_partitions.init_keeps [OF this s0(2)]]
  have "slots_inv (wt_delegate (rm_state c)) (filter_mset live (owned c))"
    by (auto simp: blocking_partitions.keeps_def)
  from slots_inv_counts [OF this] show ?thesis unfolding Let_def by (intro conjI)
qed

text \<open>The same behind the last-in-first-out queue.\<close>

lemma lifo_partitions_charged:
  assumes "Partitioned_Build StrCat lops self pb = Inr (Inr d)"
    and "Lifo_Build StrCat' (Lifo_Delegate (Some d) b) = Inr s0"
    and "(Lifo_step tm (Partitioned_ops lops self fails bf))\<^sup>*\<^sup>* (room_init n s0) c"
  shows "slots_inv (wt_delegate (rm_state c)) (filter_mset live (owned c))"
proof -
  note s0 = Lifo_Build_state [OF assms(2)]
  have "wt_delegate s0 = d" using s0(4) by (simp add: Lifo_Delegate_def)
  then have "slots_inv (wt_delegate s0) {#} \<and> balanced (int 0) (int (size {#})) (wt_delegate s0)"
    using Partitioned_Build_inv [OF assms(1)] by simp
  from lifo_partitions.reach_keeps [OF assms(3) room_ok_init [OF s0(1,2)] lifo_partitions.init_keeps [OF this s0(2)]]
  show ?thesis by (auto simp: lifo_partitions.keeps_def)
qed

theorem blocking_partitions_charged_witness:
  "\<exists>s0 c. Blocking_Build (\<lambda>_. ''3600000'') (Blocking_Delegate (Some example_start) (Blocking_Timeout 1000 Blocking_Builder)) = Inr s0
     \<and> (Blocking_step ticks example_ops)\<^sup>*\<^sup>* (room_init 1 s0) c \<and> rm_callers c = [Wrapping example_slot]
     \<and> map pt_busy (pl_partitions (wt_delegate (rm_state c))) = [1, 0]"
proof -
  define s0 where "s0 = Blocking_new example_start 1000"
  have b: "Blocking_Build (\<lambda>_. ''3600000'') (Blocking_Delegate (Some example_start) (Blocking_Timeout 1000 Blocking_Builder)) = Inr s0"
    by (simp add: Blocking_Build_def Blocking_Delegate_def Blocking_Timeout_def Blocking_Builder_def s0_def kMaxTimeout_def)
  let ?c0 = "room_init 1 s0 :: (nat abstract_limit partitioned blocking, int) room"
  define c where "c = ?c0\<lparr>rm_state := (rm_state ?c0)\<lparr>wt_delegate := example_one\<rparr>, rm_callers := [Wrapping example_slot]\<rparr>"
  have "TryAcquire example_ops 7 ''live'' (wt_delegate (rm_state ?c0)) = Inr (Some example_slot, example_one)"
    using example_acquires by (simp add: TryAcquire_def room_init_def s0_def Blocking_new_def)
  then have "Blocking_step ticks example_ops ?c0 c"
    using room_step.fast_admits [of 0 ?c0 example_ops 7 "''live''" example_slot example_one]
    by (simp add: room_init_def c_def)
  then have r: "(Blocking_step ticks example_ops)\<^sup>*\<^sup>* ?c0 c" by (rule r_into_rtranclp)
  have "filter_mset live (owned c) = {#example_slot#}"
    by (simp add: c_def room_init_def owned_def s0_def Blocking_new_def example_slot_def MakeSlot_def live_def)
  moreover have "length (pl_partitions (wt_delegate (rm_state c))) = 2"
    by (simp add: c_def room_init_def example_one_def example_limiter_simps)
  ultimately have "map pt_busy (pl_partitions (wt_delegate (rm_state c))) = [1, 0]"
    using blocking_partitions_charged [OF example_built b r] by (simp add: Let_def numeral_2_eq_2 example_slot_def MakeSlot_def)
  then show ?thesis using b r by (intro exI [of _ s0] exI [of _ c]) (simp add: c_def)
qed

end
