(* ===== verification/Partitioned_Threads.thy ===== *)
theory Partitioned_Threads
  imports Partitioned_Properties
begin

section \<open>Partitioned limiter: requests interleaved\<close>

text \<open>
  \<^verbatim>\<open>Partitioned\<close> runs each call of \<^verbatim>\<open>AbstractPartitionedLimiter\<close> alone. Here any number of
  requests run at the same time, one atomic access of a shared counter per step, on the same
  state: the gate of \<^verbatim>\<open>DoAcquire\<close> with its two branches, the exchange loop of a full limiter, the
  budget of \<^verbatim>\<open>MaybeBackoffDelay\<close>, and the two decrements of \<^verbatim>\<open>OnSlotComplete\<close>, which takes the
  global slot back before that of the partition. The remainder of a completion (the outcome
  counters, the sample and the quotas its callbacks store) is a step of the environment, and so
  is every other change of the limit: the environment may replace the limit by any other at any
  time, and store in any partition the quota of any cap.

  The shared variables are the fields \<open>al_inflight\<close>, \<open>pl_partitions\<close> and \<open>pl_delayed_threads\<close>
  of the limiter. All accesses are atomic and every counter is only ever changed by
  read-modify-write operations, so that the order of the steps is the order of each counter.
\<close>

subsection \<open>Where a request is\<close>

text \<open>
  The number is the partition the request was resolved to. \<open>Gate\<close>: before the comparison of the
  in-flight count with the cap, whose operands C++ evaluates in either order (\<open>SawInflight\<close>,
  \<open>SawCap\<close>: one of them is read). \<open>GlobalFull\<close>: before the load of the busy counter; \<open>AtQuota\<close>:
  at the top of the loop; \<open>AtExchange\<close>: at the exchange; \<open>Burst\<close>: before the increment of the
  branch with unused capacity. \<open>Admitted\<close>: the partition's slot is taken, the global count not
  yet increased; \<open>InSlot\<close>: \<^verbatim>\<open>DoAcquire\<close> returned, with the in-flight count it reports.
  \<open>Releasing\<close>: between the two decrements. \<open>Rejected\<close>: at the call of \<^verbatim>\<open>MaybeBackoffDelay\<close>;
  \<open>Backoff\<close>: at the top of its loop; \<open>Sleeping\<close>: in the sleep function.
\<close>

datatype place = Elsewhere | Gate nat | SawInflight nat int | SawCap nat int | GlobalFull nat
  | AtQuota nat int | AtExchange nat int | Burst nat | Admitted nat | InSlot nat int | Releasing nat
  | Rejected nat | Backoff nat int | Sleeping nat

definition set_busy :: "nat \<Rightarrow> int \<Rightarrow> 'l partitioned \<Rightarrow> 'l partitioned" where
  "set_busy k n s = s\<lparr>pl_partitions := (pl_partitions s)[k := (pl_partitions s ! k)\<lparr>pt_busy := n\<rparr>]\<rparr>"

text \<open>The next atomic action of a call of \<^verbatim>\<open>DoAcquire\<close>. \<open>c\<close> is what the execution chooses: the
  operand read first, and whether a weak exchange that may succeed does.\<close>

fun acquire_action :: "('l, 'cb) limit_ops \<Rightarrow> bool \<Rightarrow> 'l partitioned \<Rightarrow> place \<Rightarrow> place \<times> 'l partitioned" where
  "acquire_action lops c s (Gate k) =
     (if c then SawInflight k (al_inflight s) else SawCap k (Limiter_GetLimit lops s), s)"
| "acquire_action lops c s (SawInflight k n) =
     (if Limiter_GetLimit lops s \<le> n then GlobalFull k else Burst k, s)"
| "acquire_action lops c s (SawCap k cap) = (if cap \<le> al_inflight s then GlobalFull k else Burst k, s)"
| "acquire_action lops c s (GlobalFull k) = (AtQuota k (pt_busy (pl_partitions s ! k)), s)"
| "acquire_action lops c s (AtQuota k current) =
     (if pt_limit (pl_partitions s ! k) \<le> current then Rejected k else AtExchange k current, s)"
| "acquire_action lops c s (AtExchange k current) =
     (if pt_busy (pl_partitions s ! k) = current \<and> c then (Admitted k, set_busy k (current + 1) s)
      else (AtQuota k (pt_busy (pl_partitions s ! k)), s))"
| "acquire_action lops c s (Burst k) =
     (Admitted k, set_busy k (wrap32 (pt_busy (pl_partitions s ! k) + 1)) s)"
| "acquire_action lops c s (Admitted k) =
     (InSlot k (al_inflight s + 1), s\<lparr>al_inflight := wrap32 (al_inflight s + 1)\<rparr>)"
| "acquire_action lops c s (Rejected k) =
     (if pt_reject_delay (pl_partitions s ! k) = 0 then Elsewhere else Backoff k (pl_delayed_threads s), s)"
| "acquire_action lops c s (Backoff k current) =
     (if pl_max_delayed_threads s \<le> current then (Elsewhere, s)
      else if pl_delayed_threads s = current \<and> c
      then (Sleeping k, s\<lparr>pl_delayed_threads := current + 1,
              pl_slept := pl_slept s @ [(pl_sleep_fn s, pt_reject_delay (pl_partitions s ! k))]\<rparr>)
      else (Backoff k (pl_delayed_threads s), s))"
| "acquire_action lops c s (Sleeping k) =
     (Elsewhere, s\<lparr>pl_delayed_threads := wrap32 (pl_delayed_threads s - 1)\<rparr>)"
| "acquire_action lops c s p = (p, s)"

text \<open>The two atomic actions of a completion.\<close>

fun release_action :: "'l partitioned \<Rightarrow> place \<Rightarrow> place \<times> 'l partitioned" where
  "release_action s (InSlot k n) = (Releasing k, s\<lparr>al_inflight := wrap32 (al_inflight s - 1)\<rparr>)"
| "release_action s (Releasing k) =
     (Elsewhere, set_busy k (wrap32 (pt_busy (pl_partitions s ! k) - 1)) s)"
| "release_action s p = (p, s)"

record 'l requests =
  rq_limiter :: "'l partitioned"
  rq_places :: "place list"

datatype actor = Acquirer nat | Releaser nat | Environment

inductive request_step :: "('l, 'cb) limit_ops \<Rightarrow> actor \<Rightarrow> 'l requests \<Rightarrow> 'l requests \<Rightarrow> bool"
  for lops :: "('l, 'cb) limit_ops" where
  arrive: "i < length (rq_places w) \<Longrightarrow> rq_places w ! i = Elsewhere \<Longrightarrow>
    ResolvePartition ctx (rq_limiter w) = int k \<Longrightarrow> k < length (pl_partitions (rq_limiter w)) \<Longrightarrow>
    request_step lops (Acquirer i) w (w\<lparr>rq_places := (rq_places w)[i := Gate k]\<rparr>)"
| acquire: "i < length (rq_places w) \<Longrightarrow>
    acquire_action lops c (rq_limiter w) (rq_places w ! i) = (p, s) \<Longrightarrow>
    request_step lops (Acquirer i) w \<lparr>rq_limiter = s, rq_places = (rq_places w)[i := p]\<rparr>"
| release: "i < length (rq_places w) \<Longrightarrow> release_action (rq_limiter w) (rq_places w ! i) = (p, s) \<Longrightarrow>
    request_step lops (Releaser i) w \<lparr>rq_limiter = s, rq_places = (rq_places w)[i := p]\<rparr>"
| new_limit: "request_step lops Environment w
    (w\<lparr>rq_limiter := (rq_limiter w)\<lparr>al_limit := l, al_outcome_counts := counts\<rparr>\<rparr>)"
| new_quota: "k < length (pl_partitions (rq_limiter w)) \<Longrightarrow> part = pl_partitions (rq_limiter w) ! k \<Longrightarrow>
    ComputePartitionLimit n (pt_percent part) = Inr q \<Longrightarrow>
    request_step lops Environment w (w\<lparr>rq_limiter := (rq_limiter w)\<lparr>pl_partitions :=
      (pl_partitions (rq_limiter w))[k := part\<lparr>pt_limit := q\<rparr>]\<rparr>\<rparr>)"

inductive_cases request_step_E: "request_step lops a w w'"

definition any_step :: "('l, 'cb) limit_ops \<Rightarrow> 'l requests \<Rightarrow> 'l requests \<Rightarrow> bool" where
  "any_step lops w w' \<longleftrightarrow> (\<exists>a. request_step lops a w w')"

definition requests_init :: "'l partitioned \<Rightarrow> nat \<Rightarrow> 'l requests" where
  "requests_init s n = \<lparr>rq_limiter = s, rq_places = replicate n Elsewhere\<rparr>"

subsection \<open>What the counters count\<close>

fun in_slot :: "place \<Rightarrow> bool" where
  "in_slot (InSlot k n) = True"
| "in_slot p = False"

fun occupies :: "nat \<Rightarrow> place \<Rightarrow> bool" where
  "occupies k (Admitted j) = (j = k)"
| "occupies k (InSlot j n) = (j = k)"
| "occupies k (Releasing j) = (j = k)"
| "occupies k p = False"

fun in_transit :: "place \<Rightarrow> bool" where
  "in_transit (Admitted k) = True"
| "in_transit (Releasing k) = True"
| "in_transit p = False"

fun sleeping :: "place \<Rightarrow> bool" where
  "sleeping (Sleeping k) = True"
| "sleeping p = False"

fun place_ok :: "nat \<Rightarrow> place \<Rightarrow> bool" where
  "place_ok n Elsewhere = True"
| "place_ok n (Gate k) = (k < n)"
| "place_ok n (SawInflight k _) = (k < n)"
| "place_ok n (SawCap k _) = (k < n)"
| "place_ok n (GlobalFull k) = (k < n)"
| "place_ok n (AtQuota k _) = (k < n)"
| "place_ok n (AtExchange k _) = (k < n)"
| "place_ok n (Burst k) = (k < n)"
| "place_ok n (Admitted k) = (k < n)"
| "place_ok n (InSlot k _) = (k < n)"
| "place_ok n (Releasing k) = (k < n)"
| "place_ok n (Rejected k) = (k < n)"
| "place_ok n (Backoff k _) = (k < n)"
| "place_ok n (Sleeping k) = (k < n)"

text \<open>The invariant: the counters of \<open>s\<close> are tallies of the places \<open>ps\<close>, the sleepers are within
  their budget, and every request is at a partition there is. There are at most \<^verbatim>\<open>INT_MAX\<close>
  requests, so that no counter wraps.\<close>

definition counted :: "'l partitioned \<Rightarrow> place list \<Rightarrow> bool" where
  "counted s ps \<longleftrightarrow> al_inflight s = tally in_slot ps
     \<and> (\<forall>k < length (pl_partitions s). pt_busy (pl_partitions s ! k) = tally (occupies k) ps)
     \<and> pl_delayed_threads s = tally sleeping ps \<and> pl_delayed_threads s \<le> pl_max_delayed_threads s
     \<and> list_all (place_ok (length (pl_partitions s))) ps \<and> int (length ps) \<le> INT_MAX"

lemma set_busy_fields [simp]:
  "al_inflight (set_busy k n s) = al_inflight s"
  "pl_delayed_threads (set_busy k n s) = pl_delayed_threads s"
  "pl_max_delayed_threads (set_busy k n s) = pl_max_delayed_threads s"
  "pl_slept (set_busy k n s) = pl_slept s"
  "length (pl_partitions (set_busy k n s)) = length (pl_partitions s)"
  "Limiter_GetLimit lops (set_busy k n s) = Limiter_GetLimit lops s"
  by (simp_all add: set_busy_def Limiter_GetLimit_def)

lemma set_busy_nth [simp]:
  "k < length (pl_partitions s) \<Longrightarrow> pl_partitions (set_busy k n s) ! j =
     (if j = k then (pl_partitions s ! k)\<lparr>pt_busy := n\<rparr> else pl_partitions s ! j)"
  by (simp add: set_busy_def nth_list_update)

lemma tally_int32:
  assumes "counted s ps"
  shows "is_int32 (tally P ps)" and "i < length ps \<Longrightarrow> \<not> P (ps ! i) \<Longrightarrow> is_int32 (tally P ps + 1)"
proof -
  have b: "tally P ps \<le> int (length ps)" "int (length ps) \<le> INT_MAX" "0 \<le> tally P ps"
    using assms tally_le_length by (auto simp: counted_def)
  then show "is_int32 (tally P ps)" unfolding is_int32_def by linarith
  assume i: "i < length ps" "\<not> P (ps ! i)"
  have "1 \<le> tally (\<lambda>x. \<not> P x) ps" using i by (rule tally_pos)
  moreover have "tally P ps + tally (\<lambda>x. \<not> P x) ps = int (length ps)" by (induction ps) auto
  ultimately show "is_int32 (tally P ps + 1)" using b unfolding is_int32_def by linarith
qed

lemma tally_int32_dec:
  assumes "counted s ps" and "i < length ps" and "P (ps ! i)"
  shows "is_int32 (tally P ps - 1)"
  using tally_int32(1) [OF assms(1), of P] tally_pos [OF assms(2), of P, OF assms(3)] unfolding is_int32_def by linarith

lemma counted_place: "counted s ps \<Longrightarrow> i < length ps \<Longrightarrow> place_ok (length (pl_partitions s)) (ps ! i)"
  by (simp add: counted_def list_all_length)

lemma acquire_counted:
  assumes "counted s ps" and "i < length ps" and "acquire_action lops c s (ps ! i) = (p, s')"
  shows "counted s' (ps[i := p])"
  using assms(3) tally_int32 [OF assms(1)] tally_int32_dec [OF assms(1,2)] assms(1,2) counted_place [OF assms(1,2)]
  by (cases "ps ! i") (auto simp: counted_def split: if_splits)

lemma release_counted:
  assumes "counted s ps" and "i < length ps" and "release_action s (ps ! i) = (p, s')"
  shows "counted s' (ps[i := p])"
  using assms(3) tally_int32_dec [OF assms(1,2)] assms(1,2) counted_place [OF assms(1,2)]
  by (cases "ps ! i") (auto simp: counted_def split: if_splits)

lemma request_step_counted:
  assumes "request_step lops a w w'" and "counted (rq_limiter w) (rq_places w)"
  shows "counted (rq_limiter w') (rq_places w')"
  using assms(1)
proof cases
  case (acquire i c p s)
  then show ?thesis using acquire_counted [OF assms(2)] by simp
next
  case (release i p s)
  then show ?thesis using release_counted [OF assms(2)] by simp
next
  case (new_quota k part n q)
  then show ?thesis using assms(2) by (auto simp: counted_def nth_list_update)
qed (use assms(2) in \<open>auto simp: counted_def\<close>)

lemma reach_counted:
  assumes "(any_step lops)\<^sup>*\<^sup>* w w'" and "counted (rq_limiter w) (rq_places w)"
  shows "counted (rq_limiter w') (rq_places w')"
  using assms(1)
  by (induction rule: rtranclp_induct) (use assms(2) request_step_counted in \<open>auto simp: any_step_def\<close>)

lemma acquire_max_delayed:
  "acquire_action lops c s p = (p', s') \<Longrightarrow> pl_max_delayed_threads s' = pl_max_delayed_threads s"
  by (cases p) (auto split: if_splits)

lemma release_max_delayed:
  "release_action s p = (p', s') \<Longrightarrow> pl_max_delayed_threads s' = pl_max_delayed_threads s"
  by (cases p) auto

lemma request_step_max_delayed:
  "request_step lops a w w' \<Longrightarrow> pl_max_delayed_threads (rq_limiter w') = pl_max_delayed_threads (rq_limiter w)"
  by (auto elim!: request_step_E dest: acquire_max_delayed release_max_delayed)

lemma reach_max_delayed:
  assumes "(any_step lops)\<^sup>*\<^sup>* (requests_init s0 n) w"
  shows "pl_max_delayed_threads (rq_limiter w) = pl_max_delayed_threads s0"
  using assms
  by (induction rule: rtranclp_induct)
     (auto simp: any_step_def requests_init_def dest: request_step_max_delayed)

lemma Build_delay_budget:
  assumes "Partitioned_Build StrCat lops self b = Inr (Inr s)"
  shows "pl_delayed_threads s = 0" and "0 \<le> pl_max_delayed_threads s"
    and "pl_max_delayed_threads s = pb_max_delayed_threads b"
proof -
  obtain limit specs resolvers where v: "Partitioned_validate StrCat b = Inr (limit, specs, resolvers)"
    using assms by (auto simp: Partitioned_Build_def split: sum.splits)
  have "0 \<le> pb_max_delayed_threads b"
    using v by (auto simp: Partitioned_validate_def bind_res_Inr Let_def split: option.splits if_splits)
  moreover have "pl_delayed_threads s = 0 \<and> pl_max_delayed_threads s = pb_max_delayed_threads b"
    using assms v
    by (auto simp: Partitioned_Build_def Partitioned_new_def RecomputePartitionLimits_def Let_def bind_res_Inr
        RegisterLimitChangeCallback_def AbstractLimiter_new_def abstract_limiter.defs)
  ultimately show "pl_delayed_threads s = 0" "0 \<le> pl_max_delayed_threads s"
    "pl_max_delayed_threads s = pb_max_delayed_threads b" by simp_all
qed

lemma init_counted:
  assumes "Partitioned_Build StrCat lops self b = Inr (Inr s)" and "int n \<le> INT_MAX"
  shows "counted (rq_limiter (requests_init s n)) (rq_places (requests_init s n))"
proof -
  have inv: "slots_inv s {#}" using Partitioned_Build_inv [OF assms(1)] by simp
  have "pt_busy (pl_partitions s ! k) = 0" if "k < length (pl_partitions s)" for k
    using slots_inv_busy [OF inv that] by simp
  then show ?thesis
    using inv Build_delay_budget [OF assms(1)] assms(2)
    by (simp add: counted_def requests_init_def slots_inv_def list_all_length)
qed

lemma built_counted:
  assumes "Partitioned_Build StrCat lops self b = Inr (Inr s)" and "int n \<le> INT_MAX"
    and "(any_step lops)\<^sup>*\<^sup>* (requests_init s n) w"
  shows "counted (rq_limiter w) (rq_places w)"
  using reach_counted [OF assms(3) init_counted [OF assms(1,2)]] .

lemma occupies_split: "occupies k p \<Longrightarrow> in_slot p \<or> in_transit p"
  by (cases p) auto

lemma sum_occupies:
  "place_ok n p \<Longrightarrow> (\<Sum>k \<leftarrow> [0 ..< n]. of_bool (occupies k p)) = (of_bool (in_slot p) + of_bool (in_transit p) :: int)"
  by (cases p) (simp_all add: sum_list_distinct_conv_sum_set of_bool_def)

lemma sum_tally_occupies:
  "list_all (place_ok n) ps \<Longrightarrow>
     (\<Sum>k \<leftarrow> [0 ..< n]. tally (occupies k) ps) = tally in_slot ps + tally in_transit ps"
  by (induction ps) (simp_all add: sum_list_addf sum_occupies)

lemma counted_sum:
  assumes "counted s ps"
  shows "sum_list (map pt_busy (pl_partitions s)) = al_inflight s + tally in_transit ps"
proof -
  have "map pt_busy (pl_partitions s) = map (\<lambda>k. tally (occupies k) ps) [0 ..< length (pl_partitions s)]"
    by (rule nth_equalityI) (use assms in \<open>auto simp: counted_def\<close>)
  then show ?thesis using assms sum_tally_occupies by (simp add: counted_def)
qed

subsection \<open>A request that runs alone\<close>

fun acquire_run :: "('l, 'cb) limit_ops \<Rightarrow> bool list \<Rightarrow> 'l partitioned \<Rightarrow> place \<Rightarrow> place \<times> 'l partitioned" where
  "acquire_run lops [] s p = (p, s)"
| "acquire_run lops (c # cs) s p = (case acquire_action lops c s p of (p', s') \<Rightarrow> acquire_run lops cs s' p')"

lemma acquire_run_solo:
  assumes "i < length ps" and "acquire_run lops cs s p = (p', s')"
  shows "(request_step lops (Acquirer i))\<^sup>*\<^sup>* \<lparr>rq_limiter = s, rq_places = ps[i := p]\<rparr>
    \<lparr>rq_limiter = s', rq_places = ps[i := p']\<rparr>"
  using assms(2)
proof (induction cs arbitrary: s p)
  case (Cons c cs)
  obtain q t where q: "acquire_action lops c s p = (q, t)" by fastforce
  have "request_step lops (Acquirer i) \<lparr>rq_limiter = s, rq_places = ps[i := p]\<rparr>
      \<lparr>rq_limiter = t, rq_places = ps[i := q]\<rparr>"
    using request_step.acquire [of i "\<lparr>rq_limiter = s, rq_places = ps[i := p]\<rparr>" lops c q t] assms(1) q by simp
  then show ?case using Cons.IH [of t q] Cons.prems q by (simp add: converse_rtranclp_into_rtranclp)
qed simp

lemma solo_any: "(request_step lops a)\<^sup>*\<^sup>* w w' \<Longrightarrow> (any_step lops)\<^sup>*\<^sup>* w w'"
  by (erule rtranclp_mono [THEN predicate2D, rotated]) (auto simp: any_step_def)

text \<open>A request that arrives and then runs some of its actions alone.\<close>

lemma call_solo:
  assumes "i < length ps" and "ps ! i = Elsewhere" and "ResolvePartition ctx s = int k"
    and "k < length (pl_partitions s)" and "acquire_run lops cs s (Gate k) = (p, s')"
  shows "(request_step lops (Acquirer i))\<^sup>*\<^sup>* \<lparr>rq_limiter = s, rq_places = ps\<rparr>
    \<lparr>rq_limiter = s', rq_places = ps[i := p]\<rparr>"
proof -
  have "request_step lops (Acquirer i) \<lparr>rq_limiter = s, rq_places = ps\<rparr>
      \<lparr>rq_limiter = s, rq_places = ps[i := Gate k]\<rparr>"
    using request_step.arrive [of i "\<lparr>rq_limiter = s, rq_places = ps\<rparr>" ctx k lops] assms(1-4) by simp
  then show ?thesis using acquire_run_solo [OF assms(1,5)] by (rule converse_rtranclp_into_rtranclp)
qed

text \<open>Whatever the choices \<open>cs\<close> (the operand read first, the exchanges that fail spuriously), and from each place, what the
  remaining actions of a request do that runs alone. An exchange that fails spuriously costs two more actions.\<close>

abbreviation spurious :: "bool list \<Rightarrow> nat" where
  "spurious cs \<equiv> length (filter Not cs)"

lemma run_over [simp]:
  "acquire_run lops cs s Elsewhere = (Elsewhere, s)" "acquire_run lops cs s (InSlot k n) = (InSlot k n, s)"
  by (induction cs) simp_all

lemma run_admitted:
  "1 \<le> length cs \<Longrightarrow> acquire_run lops cs s (Admitted k) = (InSlot k (al_inflight s + 1), s\<lparr>al_inflight := wrap32 (al_inflight s + 1)\<rparr>)"
  by (cases cs) simp_all

lemma run_burst:
  assumes "2 + 2 * spurious cs \<le> length cs"
  shows "acquire_run lops cs s (Burst k) = (InSlot k (al_inflight s + 1),
    (set_busy k (wrap32 (pt_busy (pl_partitions s ! k) + 1)) s)\<lparr>al_inflight := wrap32 (al_inflight s + 1)\<rparr>)"
  using assms by (cases cs) (simp_all add: run_admitted split: if_splits)

lemma run_exchange:
  assumes "pt_busy (pl_partitions s ! k) < pt_limit (pl_partitions s ! k)"
  shows "2 + 2 * spurious cs \<le> length cs \<Longrightarrow> acquire_run lops cs s (AtExchange k (pt_busy (pl_partitions s ! k))) =
      (InSlot k (al_inflight s + 1), (set_busy k (pt_busy (pl_partitions s ! k) + 1) s)\<lparr>al_inflight := wrap32 (al_inflight s + 1)\<rparr>)"
    and "3 + 2 * spurious cs \<le> length cs \<Longrightarrow> acquire_run lops cs s (AtQuota k (pt_busy (pl_partitions s ! k))) =
      (InSlot k (al_inflight s + 1), (set_busy k (pt_busy (pl_partitions s ! k) + 1) s)\<lparr>al_inflight := wrap32 (al_inflight s + 1)\<rparr>)"
proof (induction cs)
  case (Cons c cs)
  case 1
  then show ?case using Cons.IH(2) by (cases c) (simp_all add: run_admitted)
next
  case (Cons c cs)
  case 2
  then show ?case using Cons.IH(1) assms by (cases c) simp_all
qed simp_all

lemma run_sleeps:
  assumes "1 \<le> length cs" and "is_int32 (pl_delayed_threads s - 1)"
  shows "acquire_run lops cs s (Sleeping k) = (Elsewhere, s\<lparr>pl_delayed_threads := pl_delayed_threads s - 1\<rparr>)"
  using assms by (cases cs) simp_all

text \<open>What a rejection leaves behind: a sleep, if the partition has a delay and the budget is not used up.\<close>

definition rejected_state :: "nat \<Rightarrow> 'l partitioned \<Rightarrow> 'l partitioned" where
  "rejected_state k s =
     (if pt_reject_delay (pl_partitions s ! k) = 0 \<or> pl_max_delayed_threads s \<le> pl_delayed_threads s then s
      else s\<lparr>pl_slept := pl_slept s @ [(pl_sleep_fn s, pt_reject_delay (pl_partitions s ! k))]\<rparr>)"

lemma run_backoff:
  assumes "2 + 2 * spurious cs \<le> length cs" and "is_int32 (pl_delayed_threads s)" and "pt_reject_delay (pl_partitions s ! k) \<noteq> 0"
  shows "acquire_run lops cs s (Backoff k (pl_delayed_threads s)) = (Elsewhere, rejected_state k s)"
  using assms(1)
proof (induction cs)
  case (Cons c cs)
  then show ?case
    using assms(2,3) run_sleeps [of cs "s\<lparr>pl_delayed_threads := pl_delayed_threads s + 1,
      pl_slept := pl_slept s @ [(pl_sleep_fn s, pt_reject_delay (pl_partitions s ! k))]\<rparr>"]
    by (cases c) (auto simp: rejected_state_def)
qed simp

lemma run_rejected:
  assumes "3 + 2 * spurious cs \<le> length cs" and "is_int32 (pl_delayed_threads s)"
  shows "acquire_run lops cs s (Rejected k) = (Elsewhere, rejected_state k s)"
proof -
  obtain c ds where cs: "cs = c # ds" "2 + 2 * spurious ds \<le> length ds" using assms(1) by (cases cs) (auto split: if_splits)
  show ?thesis
  proof (cases "pt_reject_delay (pl_partitions s ! k) = 0")
    case True
    then show ?thesis by (simp add: cs(1) rejected_state_def)
  next
    case False
    then show ?thesis using run_backoff [OF cs(2) assms(2) False, of lops] by (simp add: cs(1))
  qed
qed

text \<open>
  C27. What a request decides that no other interferes with: whichever operand of the comparison it reads first and
  however often an exchange fails spuriously, within seven atomic actions, and two more per such failure, it is
  admitted if the in-flight count is below the cap or the busy count of its partition below the quota, and then both
  counters have grown by one; otherwise it is turned away, after a sleep if its partition has a delay and the
  budget of delayed threads is not used up, and no counter has changed. The counters are below \<^verbatim>\<open>INT_MAX\<close>.
\<close>

theorem partition_solo_decides:
  assumes "part = pl_partitions s ! k" and "is_int32 (pt_busy part + 1)" and "is_int32 (al_inflight s + 1)" and "is_int32 (pl_delayed_threads s)"
    and "7 + 2 * spurious cs \<le> length cs"
  shows "acquire_run lops cs s (Gate k) =
    (if al_inflight s < Limiter_GetLimit lops s \<or> pt_busy part < pt_limit part
     then (InSlot k (al_inflight s + 1), (set_busy k (pt_busy part + 1) s)\<lparr>al_inflight := al_inflight s + 1\<rparr>)
     else (Elsewhere,
       if pt_reject_delay part = 0 \<or> pl_max_delayed_threads s \<le> pl_delayed_threads s then s
       else s\<lparr>pl_slept := pl_slept s @ [(pl_sleep_fn s, pt_reject_delay part)]\<rparr>))"
proof -
  obtain c1 c2 ds where cs: "cs = c1 # c2 # ds" using assms(5) by (cases cs; cases "tl cs") auto
  have ds: "5 + 2 * spurious ds \<le> length ds" using assms(5) cs by (auto split: if_splits)
  show ?thesis
  proof (cases "al_inflight s < Limiter_GetLimit lops s")
    case True
    then have "acquire_run lops cs s (Gate k) = acquire_run lops ds s (Burst k)" by (simp add: cs)
    then show ?thesis using run_burst [of ds lops s k] ds True assms(2,3) by (simp add: assms(1))
  next
    case False
    obtain c3 es where es: "ds = c3 # es" "4 + 2 * spurious es \<le> length es" using ds by (cases ds) (auto split: if_splits)
    have q: "acquire_run lops cs s (Gate k) = acquire_run lops es s (AtQuota k (pt_busy part))"
      using False by (simp add: cs es(1) assms(1))
    show ?thesis
    proof (cases "pt_busy part < pt_limit part")
      case True
      then show ?thesis using q run_exchange(2) [of s k es lops] es(2) assms(3) False by (simp add: assms(1))
    next
      case full: False
      obtain c4 fs where fs: "es = c4 # fs" "3 + 2 * spurious fs \<le> length fs" using es(2) by (cases es) (auto split: if_splits)
      then have "acquire_run lops cs s (Gate k) = (Elsewhere, rejected_state k s)"
        using q full run_rejected [of fs s lops k] assms(4) by (simp add: assms(1))
      then show ?thesis using False full by (simp add: assms(1) rejected_state_def)
    qed
  qed
qed

text \<open>The example with the cap taken by others and the partition \<open>live\<close> at its quota.\<close>

definition example_full :: "nat abstract_limit partitioned" where
  "example_full = set_busy 0 2 (example_start\<lparr>al_inflight := 4\<rparr>)"

lemmas example_full_simps = example_full_def set_busy_def example_limiter_simps ResolvePartition_def example_names_def
  kUnknownPartitionName_def Limiter_GetLimit_def FixedLimit_ops_def FixedLimit_Of_def limen_simps

theorem partition_solo_decides_witness:
  "acquire_run FixedLimit_ops [False, True, True, True, True, False, True, True, True, True, True] example_full (Gate 0)
     = (Elsewhere, example_full\<lparr>pl_slept := [(DefaultSleepFn, 5)]\<rparr>)"
  using partition_solo_decides [of _ example_full 0 "[False, True, True, True, True, False, True, True, True, True, True]" FixedLimit_ops, OF refl]
  by (simp add: example_full_simps is_int32_def)

subsection \<open>Below the quota\<close>

definition below_quota :: "nat \<Rightarrow> int \<Rightarrow> 'l requests \<Rightarrow> bool" where
  "below_quota k q w \<longleftrightarrow> k < length (pl_partitions (rq_limiter w))
     \<and> q \<le> pt_limit (pl_partitions (rq_limiter w) ! k) \<and> pt_busy (pl_partitions (rq_limiter w) ! k) < q"

definition quiet_step :: "('l, 'cb) limit_ops \<Rightarrow> nat \<Rightarrow> int \<Rightarrow> 'l requests \<Rightarrow> 'l requests \<Rightarrow> bool" where
  "quiet_step lops k q w w' \<longleftrightarrow> any_step lops w w' \<and> below_quota k q w'"

fun acquiring :: "nat \<Rightarrow> place \<Rightarrow> bool" where
  "acquiring k (Gate j) = (j = k)"
| "acquiring k (SawInflight j n) = (j = k)"
| "acquiring k (SawCap j n) = (j = k)"
| "acquiring k (GlobalFull j) = (j = k)"
| "acquiring k (AtQuota j n) = (j = k)"
| "acquiring k (AtExchange j n) = (j = k)"
| "acquiring k (Burst j) = (j = k)"
| "acquiring k (Admitted j) = (j = k)"
| "acquiring k p = False"

fun refused :: "nat \<Rightarrow> place \<Rightarrow> bool" where
  "refused k (Rejected j) = (j = k)"
| "refused k (Backoff j n) = (j = k)"
| "refused k (Sleeping j) = (j = k)"
| "refused k p = False"

text \<open>A request of the partition is not refused and carries no count that would have it refused.\<close>

fun spared :: "nat \<Rightarrow> int \<Rightarrow> place \<Rightarrow> bool" where
  "spared k q (AtQuota j n) = (j = k \<longrightarrow> n < q)"
| "spared k q (AtExchange j n) = (j = k \<longrightarrow> n < q)"
| "spared k q p = (\<not> refused k p)"

lemma spared_not_refused: "spared k q p \<Longrightarrow> \<not> refused k p"
  by (cases p) auto

lemma acquire_spared:
  assumes "acquire_action lops c s p = (p', s')" and "spared k q p"
    and "q \<le> pt_limit (pl_partitions s ! k)" and "pt_busy (pl_partitions s ! k) < q"
  shows "spared k q p'"
  using assms by (cases p) (auto split: if_splits)

lemma release_spared: "release_action s p = (p', s') \<Longrightarrow> spared k q p \<Longrightarrow> spared k q p'"
  by (cases p) auto

lemma quiet_spared:
  assumes "quiet_step lops k q w w'" and "below_quota k q w" and "i < length (rq_places w)"
    and "spared k q (rq_places w ! i)"
  shows "spared k q (rq_places w' ! i) \<and> below_quota k q w' \<and> i < length (rq_places w')"
proof -
  obtain a where "request_step lops a w w'" using assms(1) by (auto simp: quiet_step_def any_step_def)
  then have "spared k q (rq_places w' ! i) \<and> i < length (rq_places w')"
    using assms(2-4)
    by cases (auto simp: nth_list_update below_quota_def dest: acquire_spared release_spared)
  then show ?thesis using assms(1) by (simp add: quiet_step_def)
qed

lemma quiet_run_spared:
  assumes "(quiet_step lops k q)\<^sup>*\<^sup>* w w'" and "below_quota k q w" and "i < length (rq_places w)"
    and "spared k q (rq_places w ! i)"
  shows "spared k q (rq_places w' ! i) \<and> below_quota k q w' \<and> i < length (rq_places w')"
  using assms(1) by (induction rule: rtranclp_induct) (use assms(2-4) quiet_spared in blast)+

text \<open>From every place of the gate, also with a count that is out of date.\<close>

lemma stale_finishes:
  assumes "n < q" and "q \<le> pt_limit (pl_partitions s ! k)" and "pt_busy (pl_partitions s ! k) < q"
  shows "4 + 2 * spurious cs \<le> length cs \<Longrightarrow> \<exists>m s'. acquire_run lops cs s (AtExchange k n) = (InSlot k m, s')"
    and "5 + 2 * spurious cs \<le> length cs \<Longrightarrow> \<exists>m s'. acquire_run lops cs s (AtQuota k n) = (InSlot k m, s')"
proof -
  have b: "pt_busy (pl_partitions s ! k) < pt_limit (pl_partitions s ! k)" using assms by simp
  have x: "\<exists>m s'. acquire_run lops cs s (AtExchange k n) = (InSlot k m, s')" if "4 + 2 * spurious cs \<le> length cs" for cs
  proof (cases cs)
    case (Cons c ds)
    then have ds: "3 + 2 * spurious ds \<le> length ds" using that by (auto split: if_splits)
    then have "1 \<le> length ds" by simp
    then show ?thesis using Cons run_exchange(2) [OF b ds, of lops] run_admitted [of ds lops "set_busy k (n + 1) s" k] by auto
  qed (use that in simp)
  show "\<exists>m s'. acquire_run lops cs s (AtExchange k n) = (InSlot k m, s')" if "4 + 2 * spurious cs \<le> length cs" by (rule x [OF that])
  show "\<exists>m s'. acquire_run lops cs s (AtQuota k n) = (InSlot k m, s')" if h: "5 + 2 * spurious cs \<le> length cs"
  proof (cases cs)
    case (Cons c ds)
    then have "4 + 2 * spurious ds \<le> length ds" using h by (auto split: if_splits)
    then show ?thesis using x [of ds] Cons assms(1,2) by simp
  qed (use h in simp)
qed

lemma full_finishes:
  assumes "q \<le> pt_limit (pl_partitions s ! k)" and "pt_busy (pl_partitions s ! k) < q" and "4 + 2 * spurious cs \<le> length cs"
  shows "\<exists>m s'. acquire_run lops cs s (GlobalFull k) = (InSlot k m, s')"
proof (cases cs)
  case (Cons c ds)
  then have ds: "3 + 2 * spurious ds \<le> length ds" using assms(3) by (auto split: if_splits)
  have "pt_busy (pl_partitions s ! k) < pt_limit (pl_partitions s ! k)" using assms(1,2) by simp
  from run_exchange(2) [OF this ds, of lops] show ?thesis using Cons by simp
qed (use assms(3) in simp)

lemma saw_finishes:
  assumes "q \<le> pt_limit (pl_partitions s ! k)" and "pt_busy (pl_partitions s ! k) < q" and "5 + 2 * spurious cs \<le> length cs"
  shows "\<exists>m s'. acquire_run lops cs s (SawInflight k n) = (InSlot k m, s')"
    and "\<exists>m s'. acquire_run lops cs s (SawCap k n) = (InSlot k m, s')"
proof -
  obtain c ds where cs: "cs = c # ds" "4 + 2 * spurious ds \<le> length ds" using assms(3) by (cases cs) (auto split: if_splits)
  then have "2 + 2 * spurious ds \<le> length ds" by simp
  note f = full_finishes [OF assms(1,2) cs(2), of lops] run_burst [OF this, of lops s k]
  show "\<exists>m s'. acquire_run lops cs s (SawInflight k n) = (InSlot k m, s')"
    and "\<exists>m s'. acquire_run lops cs s (SawCap k n) = (InSlot k m, s')"
    using f by (simp_all add: cs(1))
qed

lemma acquiring_finishes:
  assumes "acquiring k p" and "spared k q p" and q: "q \<le> pt_limit (pl_partitions s ! k)" "pt_busy (pl_partitions s ! k) < q"
    and cs: "6 + 2 * spurious cs \<le> length cs"
  shows "\<exists>n s'. acquire_run lops cs s p = (InSlot k n, s')"
proof (cases p)
  case (Gate j)
  obtain c ds where ds: "cs = c # ds" "5 + 2 * spurious ds \<le> length ds" using cs by (cases cs) (auto split: if_splits)
  then show ?thesis using Gate assms(1) saw_finishes [OF q ds(2), of lops] by simp
next
  case (Admitted j)
  then show ?thesis using assms(1) cs run_admitted [of cs lops s k] by simp
next
  case (Burst j)
  then show ?thesis using assms(1) cs run_burst [of cs lops s k] by simp
next
  case (AtQuota j n)
  then show ?thesis using assms(1,2) cs stale_finishes(2) [OF _ q, of n cs lops] by simp
next
  case (AtExchange j n)
  then show ?thesis using assms(1,2) cs stale_finishes(1) [OF _ q, of n cs lops] by simp
qed (use assms(1) cs saw_finishes [OF q, of cs lops] full_finishes [OF q, of cs lops] in simp_all)

text \<open>
  C12. The guaranteed share: take any number \<open>q\<close>, and a request of a partition that arrives while the partition's busy count is below \<open>q\<close>
  and its quota at least \<open>q\<close>. As long as both stay so, whatever the quota and the limit are changed to meanwhile, the
  request is not turned away, in whatever order the atomic actions of all requests and of the environment run and however
  full the limiter is; and whenever it is then left alone, it gets its slot within six actions, and two more for each
  exchange that fails spuriously.
\<close>

theorem partition_guaranteed_share:
  assumes "i < length (rq_places w)" and "rq_places w ! i = Gate k" and "below_quota k q w"
    and "(quiet_step lops k q)\<^sup>*\<^sup>* w w'"
  shows "\<not> refused k (rq_places w' ! i)
    \<and> (acquiring k (rq_places w' ! i) \<longrightarrow>
        (\<forall>cs. 6 + 2 * spurious cs \<le> length cs \<longrightarrow>
          (\<exists>n s. acquire_run lops cs (rq_limiter w') (rq_places w' ! i) = (InSlot k n, s)
            \<and> (request_step lops (Acquirer i))\<^sup>*\<^sup>* w' \<lparr>rq_limiter = s, rq_places = (rq_places w')[i := InSlot k n]\<rparr>)))"
proof -
  have sp: "spared k q (rq_places w' ! i)" "below_quota k q w'" "i < length (rq_places w')"
    using quiet_run_spared [OF assms(4,3,1)] assms(2) by simp_all
  have "\<exists>n s. acquire_run lops cs (rq_limiter w') (rq_places w' ! i) = (InSlot k n, s)
      \<and> (request_step lops (Acquirer i))\<^sup>*\<^sup>* w' \<lparr>rq_limiter = s, rq_places = (rq_places w')[i := InSlot k n]\<rparr>"
    if a: "acquiring k (rq_places w' ! i)" and cs: "6 + 2 * spurious cs \<le> length cs" for cs
  proof -
    obtain n s where r: "acquire_run lops cs (rq_limiter w') (rq_places w' ! i) = (InSlot k n, s)"
      using acquiring_finishes [OF a sp(1) _ _ cs, of "rq_limiter w'" lops] sp by (auto simp: below_quota_def)
    have "\<lparr>rq_limiter = rq_limiter w', rq_places = (rq_places w')[i := rq_places w' ! i]\<rparr> = w'" by simp
    then show ?thesis using acquire_run_solo [OF sp(3) r] r by metis
  qed
  then show ?thesis using spared_not_refused [OF sp(1)] by blast
qed

theorem partition_guaranteed_share_witness:
  "let s = example_start\<lparr>al_inflight := 4\<rparr>; w' = \<lparr>rq_limiter = s, rq_places = [Gate 0, Gate 1]\<rparr> in
     (quiet_step FixedLimit_ops 0 2)\<^sup>*\<^sup>* \<lparr>rq_limiter = s, rq_places = [Gate 0, Elsewhere]\<rparr> w'
     \<and> (\<exists>n s'. (request_step FixedLimit_ops (Acquirer 0))\<^sup>*\<^sup>* w' \<lparr>rq_limiter = s', rq_places = [InSlot 0 n, Gate 1]\<rparr>)"
proof -
  define s where "s = example_start\<lparr>al_inflight := 4\<rparr>"
  let ?w = "\<lparr>rq_limiter = s, rq_places = [Gate 0, Elsewhere]\<rparr>" and ?w' = "\<lparr>rq_limiter = s, rq_places = [Gate 0, Gate 1]\<rparr>"
  have "ResolvePartition ''batch'' s = int 1" "1 < length (pl_partitions s)" "below_quota 0 2 ?w" "below_quota 0 2 ?w'"
    by (simp_all add: s_def example_full_simps below_quota_def)
  moreover from this have "request_step FixedLimit_ops (Acquirer 1) ?w ?w'"
    using request_step.arrive [of 1 ?w "''batch''" 1 FixedLimit_ops] by simp
  ultimately have "below_quota 0 2 ?w" "quiet_step FixedLimit_ops 0 2 ?w ?w'"
    unfolding quiet_step_def any_step_def by blast+
  then have q: "below_quota 0 2 ?w" "(quiet_step FixedLimit_ops 0 2)\<^sup>*\<^sup>* ?w ?w'" by simp_all
  show ?thesis
    using partition_guaranteed_share [OF _ _ q, of 0] q(2) unfolding s_def [symmetric] Let_def by (auto dest!: spec [of _ "replicate 6 True"])
qed

subsection \<open>Counters and sleepers\<close>

text \<open>
  C6. No slot is lost or counted twice under contention: in every interleaving of up to
  \<^verbatim>\<open>INT_MAX\<close> requests, with the limit and the quotas changing at any time, the in-flight count is
  the number of requests that hold a slot, the busy count of a partition the number of its
  requests between taking and giving back its slot, and the busy counts exceed the in-flight
  count by exactly the requests that are between two of the limiter's updates.
\<close>

theorem partition_counters_concurrent:
  assumes "Partitioned_Build StrCat lops self b = Inr (Inr s0)" and "int n \<le> INT_MAX"
    and "(any_step lops)\<^sup>*\<^sup>* (requests_init s0 n) w"
  shows "al_inflight (rq_limiter w) = tally in_slot (rq_places w)
    \<and> map pt_busy (pl_partitions (rq_limiter w))
        = map (\<lambda>k. tally (occupies k) (rq_places w)) [0 ..< length (pl_partitions (rq_limiter w))]
    \<and> sum_list (map pt_busy (pl_partitions (rq_limiter w)))
        = al_inflight (rq_limiter w) + tally in_transit (rq_places w)"
proof -
  note c = built_counted [OF assms]
  have "map pt_busy (pl_partitions (rq_limiter w))
      = map (\<lambda>k. tally (occupies k) (rq_places w)) [0 ..< length (pl_partitions (rq_limiter w))]"
    by (rule nth_equalityI) (use c in \<open>auto simp: counted_def\<close>)
  then show ?thesis using counted_sum [OF c] c by (simp add: counted_def)
qed

theorem partition_counters_concurrent_witness:
  "\<exists>s. (any_step FixedLimit_ops)\<^sup>*\<^sup>* (requests_init example_start 2) \<lparr>rq_limiter = s, rq_places = [InSlot 0 1, Admitted 0]\<rparr>
     \<and> al_inflight s = 1 \<and> map pt_busy (pl_partitions s) = [2, 0]"
proof -
  note b = example_build [OF example_fixed, of "\<lambda>_. ''n''" 0]
  obtain s where s: "acquire_run FixedLimit_ops [True, True, True, True] example_start (Gate 0) = (InSlot 0 1, s)"
      "ResolvePartition ''live'' s = int 0" "length (pl_partitions s) = 2"
    by (simp add: example_full_simps is_int32_def)
  obtain s' where s': "acquire_run FixedLimit_ops [False, False, True] s (Gate 0) = (Admitted 0, s')"
      "length (pl_partitions s') = 2"
    using s(1) by (auto simp: example_full_simps is_int32_def)
  have "(any_step FixedLimit_ops)\<^sup>*\<^sup>* (requests_init example_start 2) \<lparr>rq_limiter = s, rq_places = [InSlot 0 1, Elsewhere]\<rparr>"
    using solo_any [OF call_solo [of 0 "[Elsewhere, Elsewhere]" "''live''" example_start 0, OF _ _ _ _ s(1)]]
    by (simp add: requests_init_def numeral_2_eq_2 example_full_simps)
  also have "(any_step FixedLimit_ops)\<^sup>*\<^sup>* \<dots> \<lparr>rq_limiter = s', rq_places = [InSlot 0 1, Admitted 0]\<rparr>"
    using solo_any [OF call_solo [of 1 "[InSlot 0 1, Elsewhere]" "''live''" s 0, OF _ _ _ _ s'(1)]] s(2,3) by simp
  finally have r: "(any_step FixedLimit_ops)\<^sup>*\<^sup>* (requests_init example_start 2)
      \<lparr>rq_limiter = s', rq_places = [InSlot 0 1, Admitted 0]\<rparr>" .
  show ?thesis
    using partition_counters_concurrent [OF b _ r] r s'(2) by (intro exI [of _ s']) (simp add: numeral_2_eq_2)
qed

text \<open>
  C23. The delay budget is strict: in every interleaving the number of threads that sleep in the
  rejection path is what \<^verbatim>\<open>DelayedThreadCount\<close> reports and is never above the bound the builder
  was given.
\<close>

theorem partition_delay_budget_strict:
  assumes "Partitioned_Build StrCat lops self b = Inr (Inr s0)" and "int n \<le> INT_MAX"
    and "(any_step lops)\<^sup>*\<^sup>* (requests_init s0 n) w"
  shows "DelayedThreadCount (rq_limiter w) = tally sleeping (rq_places w)
    \<and> tally sleeping (rq_places w) \<le> pb_max_delayed_threads b"
proof -
  have "pl_max_delayed_threads (rq_limiter w) = pl_max_delayed_threads s0"
    using assms(3) by (rule reach_max_delayed)
  then show ?thesis
    using built_counted [OF assms] Build_delay_budget(3) [OF assms(1)]
    by (simp add: counted_def DelayedThreadCount_def)
qed

theorem partition_delay_budget_strict_witness:
  "\<exists>s. (any_step FixedLimit_ops)\<^sup>*\<^sup>* (requests_init example_start 3)
       \<lparr>rq_limiter = s, rq_places = [InSlot 0 1, InSlot 0 2, Sleeping 0]\<rparr>
     \<and> DelayedThreadCount s = 1"
proof -
  note b = example_build [OF example_fixed, of "\<lambda>_. ''n''" 0]
  let ?all = "replicate 6 True"
  define s0 where "s0 = example_start\<lparr>al_limit := FixedLimit_Of 0, al_outcome_counts := replicate 5 0\<rparr>"
  obtain s1 where s1: "acquire_run FixedLimit_ops ?all s0 (Gate 0) = (InSlot 0 1, s1)"
      "ResolvePartition ''live'' s0 = int 0" "0 < length (pl_partitions s0)"
    by (simp add: s0_def example_full_simps is_int32_def numeral_eq_Suc)
  obtain s2 where s2: "acquire_run FixedLimit_ops ?all s1 (Gate 0) = (InSlot 0 2, s2)"
      "ResolvePartition ''live'' s1 = int 0" "0 < length (pl_partitions s1)"
    using s1(1) by (auto simp: s0_def example_full_simps is_int32_def numeral_eq_Suc)
  obtain s3 where s3: "acquire_run FixedLimit_ops ?all s2 (Gate 0) = (Sleeping 0, s3)"
      "ResolvePartition ''live'' s2 = int 0" "0 < length (pl_partitions s2)"
    using s1(1) s2(1) by (auto simp: s0_def example_full_simps is_int32_def numeral_eq_Suc)
  have "(any_step FixedLimit_ops)\<^sup>*\<^sup>* (requests_init example_start 3) \<lparr>rq_limiter = s0, rq_places = replicate 3 Elsewhere\<rparr>"
    using request_step.new_limit [of FixedLimit_ops "requests_init example_start 3"]
    by (intro r_into_rtranclp) (auto simp: any_step_def requests_init_def s0_def)
  also have "(any_step FixedLimit_ops)\<^sup>*\<^sup>* \<dots> \<lparr>rq_limiter = s1, rq_places = [InSlot 0 1, Elsewhere, Elsewhere]\<rparr>"
    using solo_any [OF call_solo [of 0 "replicate 3 Elsewhere", OF _ _ s1(2,3,1)]] by (simp add: numeral_3_eq_3)
  also have "(any_step FixedLimit_ops)\<^sup>*\<^sup>* \<dots> \<lparr>rq_limiter = s2, rq_places = [InSlot 0 1, InSlot 0 2, Elsewhere]\<rparr>"
    using solo_any [OF call_solo [of 1 "[InSlot 0 1, Elsewhere, Elsewhere]", OF _ _ s2(2,3,1)]] by simp
  also have "(any_step FixedLimit_ops)\<^sup>*\<^sup>* \<dots> \<lparr>rq_limiter = s3, rq_places = [InSlot 0 1, InSlot 0 2, Sleeping 0]\<rparr>"
    using solo_any [OF call_solo [of 2 "[InSlot 0 1, InSlot 0 2, Elsewhere]", OF _ _ s3(2,3,1)]]
    by (simp add: numeral_2_eq_2)
  finally have r: "(any_step FixedLimit_ops)\<^sup>*\<^sup>* (requests_init example_start 3)
      \<lparr>rq_limiter = s3, rq_places = [InSlot 0 1, InSlot 0 2, Sleeping 0]\<rparr>" .
  show ?thesis using partition_delay_budget_strict [OF b _ r] r by (intro exI [of _ s3]) simp
qed

end
