(* ===== verification/Partitioned_Overshoot.thy ===== *)
theory Partitioned_Overshoot
  imports Partitioned_Threads
begin

section \<open>Partitioned limiter: how far bursts overshoot\<close>

text \<open>
  \<^verbatim>\<open>DoAcquire\<close> reads the in-flight count, compares it with the cap, and counts itself two atomic accesses later; the source
  accepts that concurrent bursts overshoot the cap, and beyond the cap every partition may still fill its quota. This
  theory bounds the overshoot in every interleaving, by the number of requests that race: those between
  reading the gate and being counted, and those between the two decrements of a completion.
\<close>

fun racing :: "place \<Rightarrow> bool" where
  "racing (SawInflight k n) = True"
| "racing (SawCap k n) = True"
| "racing (Burst k) = True"
| "racing p = in_transit p"

text \<open>A request that the gate has let, or will let, into unused capacity.\<close>

fun bursting :: "int \<Rightarrow> place \<Rightarrow> bool" where
  "bursting cap (SawInflight k n) = (n < cap)"
| "bursting cap (Burst k) = True"
| "bursting cap p = False"

text \<open>What a request has read is within the bounds.\<close>

fun read_ok :: "int \<Rightarrow> (nat \<Rightarrow> int) \<Rightarrow> place \<Rightarrow> bool" where
  "read_ok cap Q (SawCap k n) = (n \<le> cap)"
| "read_ok cap Q (AtExchange k n) = (n < Q k)"
| "read_ok cap Q p = True"

text \<open>The slots of the partitions beyond the quotas \<open>Q\<close>.\<close>

definition over_quota :: "(nat \<Rightarrow> int) \<Rightarrow> 'l partitioned \<Rightarrow> int" where
  "over_quota Q s = (\<Sum>k < length (pl_partitions s). max 0 (pt_busy (pl_partitions s ! k) - Q k))"

text \<open>The cap is at most \<open>cap\<close>, the quotas at most \<open>Q\<close>, and at most \<open>m\<close> requests race.\<close>

definition held_within :: "('l, 'cb) limit_ops \<Rightarrow> int \<Rightarrow> (nat \<Rightarrow> int) \<Rightarrow> int \<Rightarrow> 'l requests \<Rightarrow> bool" where
  "held_within lops cap Q m w \<longleftrightarrow> Limiter_GetLimit lops (rq_limiter w) \<le> cap
     \<and> (\<forall>k < length (pl_partitions (rq_limiter w)). pt_limit (pl_partitions (rq_limiter w) ! k) \<le> Q k \<and> 0 \<le> Q k)
     \<and> tally racing (rq_places w) \<le> m"

definition within_step :: "('l, 'cb) limit_ops \<Rightarrow> int \<Rightarrow> (nat \<Rightarrow> int) \<Rightarrow> int \<Rightarrow> 'l requests \<Rightarrow> 'l requests \<Rightarrow> bool" where
  "within_step lops cap Q m w w' \<longleftrightarrow> any_step lops w w' \<and> held_within lops cap Q m w'"

lemma over_set_busy:
  assumes "k < length (pl_partitions s)"
  shows "over_quota Q (set_busy k n s) = over_quota Q s - max 0 (pt_busy (pl_partitions s ! k) - Q k) + max 0 (n - Q k)"
proof -
  let ?f = "\<lambda>s j. max 0 (pt_busy (pl_partitions s ! j) - Q j)" and ?A = "{..<length (pl_partitions s)}"
  have "over_quota Q (set_busy k n s) = ?f (set_busy k n s) k + (\<Sum>j \<in> ?A - {k}. ?f (set_busy k n s) j)"
    using sum.remove [of ?A k "?f (set_busy k n s)"] assms by (simp add: over_quota_def)
  also have "(\<Sum>j \<in> ?A - {k}. ?f (set_busy k n s) j) = (\<Sum>j \<in> ?A - {k}. ?f s j)"
    by (rule sum.cong) (use assms in simp_all)
  also have "\<dots> = over_quota Q s - ?f s k"
    using sum.remove [of ?A k "?f s"] assms by (simp add: over_quota_def)
  finally show ?thesis using assms by simp
qed

lemma over_quota_le:
  assumes "counted s ps" and "\<forall>k < length (pl_partitions s). 0 \<le> Q k"
  shows "over_quota Q s \<le> al_inflight s + tally in_transit ps"
proof -
  have "over_quota Q s \<le> (\<Sum>k < length (pl_partitions s). pt_busy (pl_partitions s ! k))"
    unfolding over_quota_def
  proof (rule sum_mono)
    fix k assume "k \<in> {..<length (pl_partitions s)}"
    then have "0 \<le> Q k" "0 \<le> pt_busy (pl_partitions s ! k)" using assms by (simp_all add: counted_def)
    then show "max 0 (pt_busy (pl_partitions s ! k) - Q k) \<le> pt_busy (pl_partitions s ! k)" by simp
  qed
  also have "\<dots> = sum_list (map pt_busy (pl_partitions s))" by (simp add: sum_list_sum_nth atLeast0LessThan)
  finally show ?thesis using counted_sum [OF assms(1)] by simp
qed

lemma busy_le_quotas:
  "sum_list (map pt_busy (pl_partitions s)) \<le> over_quota Q s + (\<Sum>k < length (pl_partitions s). Q k)"
proof -
  have "(\<Sum>k < length (pl_partitions s). pt_busy (pl_partitions s ! k))
      \<le> (\<Sum>k < length (pl_partitions s). max 0 (pt_busy (pl_partitions s ! k) - Q k) + Q k)" by (rule sum_mono) simp
  then show ?thesis by (simp add: over_quota_def sum.distrib sum_list_sum_nth atLeast0LessThan)
qed

lemma racing_split: "tally (bursting cap) ps + tally in_transit ps \<le> tally racing ps"
proof (induction ps)
  case (Cons p ps)
  then show ?case by (cases p) auto
qed simp

subsection \<open>The invariant\<close>

definition overshoot_ok :: "int \<Rightarrow> (nat \<Rightarrow> int) \<Rightarrow> int \<Rightarrow> 'l partitioned \<Rightarrow> place list \<Rightarrow> bool" where
  "overshoot_ok cap Q m s ps \<longleftrightarrow> counted s ps \<and> list_all (read_ok cap Q) ps
     \<and> over_quota Q s + tally (bursting cap) ps \<le> max 0 (cap - 1 + m)"

text \<open>A request that finds unused capacity: whoever is let in with it is among those that race.\<close>

lemma lets_in:
  assumes "counted s ps" and "\<forall>k < length (pl_partitions s). 0 \<le> Q k" and "al_inflight s < cap"
    and "tally in_transit ps' = tally in_transit ps" and "tally racing ps' \<le> m"
  shows "over_quota Q s + tally (bursting cap) ps' \<le> max 0 (cap - 1 + m)"
  using over_quota_le [OF assms(1,2)] racing_split [of cap ps'] assms(3-5) by linarith

lemma acquire_overshoot:
  assumes ok: "overshoot_ok cap Q m s ps" and i: "i < length ps" and act: "acquire_action lops c s (ps ! i) = (p, s')"
    and lim: "Limiter_GetLimit lops s \<le> cap" "\<forall>k < length (pl_partitions s). pt_limit (pl_partitions s ! k) \<le> Q k \<and> 0 \<le> Q k"
    and race: "tally racing (ps[i := p]) \<le> m"
  shows "overshoot_ok cap Q m s' (ps[i := p])"
proof -
  have c: "counted s ps" and r: "list_all (read_ok cap Q) ps" and b: "over_quota Q s + tally (bursting cap) ps \<le> max 0 (cap - 1 + m)"
    using ok by (simp_all add: overshoot_ok_def)
  have c': "counted s' (ps[i := p])" by (rule acquire_counted [OF c i act])
  have q: "\<forall>k < length (pl_partitions s). 0 \<le> Q k" using lim(2) by blast
  note pl = counted_place [OF c i]
  have rd: "read_ok cap Q (ps ! i)" using r i by (simp add: list_all_length)
  have "read_ok cap Q p" using act rd pl lim by (cases "ps ! i") (auto split: if_splits)
  then have "list_all (read_ok cap Q) (ps[i := p])" using r by (auto simp: list_all_iff dest: set_update_subset_insert [THEN subsetD])
  moreover have "over_quota Q s' + tally (bursting cap) (ps[i := p]) \<le> max 0 (cap - 1 + m)"
  proof (cases "ps ! i")
    case (Gate k)
    then show ?thesis using act b i lets_in [OF c q, of cap "ps[i := p]" m] race by (auto split: if_splits)
  next
    case (SawCap k n)
    then show ?thesis using act b i rd lets_in [OF c q, of cap "ps[i := p]" m] race by (auto split: if_splits)
  next
    case (Burst k)
    then have "k < length (pl_partitions s)" "is_int32 (pt_busy (pl_partitions s ! k) + 1)"
      using pl tally_int32(2) [OF c i, of "occupies k"] c by (simp_all add: counted_def)
    then show ?thesis using act b i Burst over_set_busy [of k s Q "pt_busy (pl_partitions s ! k) + 1"] by auto
  next
    case (AtExchange k n)
    then show ?thesis using act b i rd pl over_set_busy [of k s Q "n + 1"] by (auto split: if_splits)
  qed (use act b i lim in \<open>auto simp: over_quota_def split: if_splits\<close>)
  ultimately show ?thesis using c' by (simp add: overshoot_ok_def)
qed

lemma release_read: "release_action s x = (p, s') \<Longrightarrow> read_ok cap Q x \<Longrightarrow> read_ok cap Q p"
  by (cases x) auto

lemma release_overshoot:
  assumes ok: "overshoot_ok cap Q m s ps" and i: "i < length ps" and act: "release_action s (ps ! i) = (p, s')"
  shows "overshoot_ok cap Q m s' (ps[i := p])"
proof -
  have c: "counted s ps" and r: "list_all (read_ok cap Q) ps" and b: "over_quota Q s + tally (bursting cap) ps \<le> max 0 (cap - 1 + m)"
    using ok by (simp_all add: overshoot_ok_def)
  have "read_ok cap Q p" using release_read [OF act] r i by (simp add: list_all_length)
  then have "list_all (read_ok cap Q) (ps[i := p])" using r by (auto simp: list_all_iff dest: set_update_subset_insert [THEN subsetD])
  moreover have "over_quota Q s' + tally (bursting cap) (ps[i := p]) \<le> max 0 (cap - 1 + m)"
  proof (cases "ps ! i")
    case (Releasing k)
    then have "k < length (pl_partitions s)" "is_int32 (pt_busy (pl_partitions s ! k) - 1)"
      using counted_place [OF c i] tally_int32_dec [OF c i, of "occupies k"] c by (simp_all add: counted_def)
    then show ?thesis using act b i Releasing over_set_busy [of k s Q "pt_busy (pl_partitions s ! k) - 1"] by auto
  qed (use act b i in \<open>auto simp: over_quota_def\<close>)
  ultimately show ?thesis using release_counted [OF c i act] by (simp add: overshoot_ok_def)
qed

lemma within_overshoot:
  assumes "within_step lops cap Q m w w'" and "held_within lops cap Q m w" and ok: "overshoot_ok cap Q m (rq_limiter w) (rq_places w)"
  shows "overshoot_ok cap Q m (rq_limiter w') (rq_places w')"
proof -
  obtain a where a: "request_step lops a w w'" using assms(1) by (auto simp: within_step_def any_step_def)
  have race: "tally racing (rq_places w') \<le> m" using assms(1) by (simp add: within_step_def held_within_def)
  have c: "counted (rq_limiter w') (rq_places w')" using request_step_counted [OF a] ok by (simp add: overshoot_ok_def)
  from a show ?thesis
  proof cases
    case (arrive i ctx k)
    then show ?thesis using ok c
      by (auto simp: overshoot_ok_def list_all_iff dest: set_update_subset_insert [THEN subsetD])
  next
    case (acquire i ch p s)
    then show ?thesis using acquire_overshoot [OF ok acquire(3,4)] race assms(2) by (simp add: held_within_def)
  next
    case (release i p s)
    then show ?thesis using release_overshoot [OF ok release(3,4)] by simp
  next
    case (new_quota k part n q)
    then have "over_quota Q (rq_limiter w') = over_quota Q (rq_limiter w)"
      by (auto simp: over_quota_def nth_list_update intro!: sum.cong)
    then show ?thesis using ok c new_quota(2) by (simp add: overshoot_ok_def)
  qed (use ok c in \<open>simp add: overshoot_ok_def over_quota_def\<close>)
qed

lemma within_reach:
  assumes "(within_step lops cap Q m)\<^sup>*\<^sup>* w w'" and "held_within lops cap Q m w" and "overshoot_ok cap Q m (rq_limiter w) (rq_places w)"
  shows "held_within lops cap Q m w' \<and> overshoot_ok cap Q m (rq_limiter w') (rq_places w')"
  using assms(1)
proof (induction rule: rtranclp_induct)
  case (step y z)
  have "held_within lops cap Q m z" using step.hyps(2) by (simp add: within_step_def)
  then show ?case using within_overshoot [OF step.hyps(2)] step.IH by blast
qed (use assms(2,3) in simp)

text \<open>
  C25. The overshoot of burst-into-idle is bounded under concurrency: in every interleaving of the atomic actions of any
  number of requests, with limit and quotas changing at any time, as long as the cap stays at most \<open>cap\<close>, the quota of each partition \<open>k\<close>
  at most \<open>Q k\<close>, and at most \<open>m\<close> requests at a time are between reading the gate and being counted (or between
  the two decrements of a completion), the number of requests in flight is at most \<open>cap - 1 + m\<close> (or zero) plus the sum of the quotas.
  For \<open>m = 1\<close>, requests one after the other, that is the cap plus the quotas; each further request that races adds at most one.
\<close>

theorem partition_overshoot_concurrent:
  assumes "Partitioned_Build StrCat lops self b = Inr (Inr s0)" and "int n \<le> INT_MAX"
    and "held_within lops cap Q m (requests_init s0 n)" and "(within_step lops cap Q m)\<^sup>*\<^sup>* (requests_init s0 n) w"
  shows "InflightCount (rq_limiter w) \<le> max 0 (cap - 1 + m) + (\<Sum>k < length (pl_partitions (rq_limiter w)). Q k)"
proof -
  let ?w = "requests_init s0 n"
  note c = init_counted [OF assms(1,2)]
  have "\<forall>k < length (pl_partitions (rq_limiter ?w)). 0 \<le> Q k" using assms(3) by (simp add: held_within_def)
  from over_quota_le [OF c this] have "over_quota Q (rq_limiter ?w) \<le> 0"
    using c tally_replicate by (simp add: counted_def requests_init_def)
  then have "overshoot_ok cap Q m (rq_limiter ?w) (rq_places ?w)"
    using c by (simp add: overshoot_ok_def requests_init_def list_all_iff)
  then have ok: "counted (rq_limiter w) (rq_places w)" "over_quota Q (rq_limiter w) + tally (bursting cap) (rq_places w) \<le> max 0 (cap - 1 + m)"
    using within_reach [OF assms(4,3)] by (simp_all add: overshoot_ok_def)
  have "0 \<le> tally (bursting cap) (rq_places w)" "0 \<le> tally in_transit (rq_places w)" by simp_all
  then show ?thesis
    using busy_le_quotas [of "rq_limiter w" Q] counted_sum [OF ok(1)] ok(2) unfolding InflightCount_def by linarith
qed

lemma acquire_within:
  assumes "acquire_action lops c s p = (p', s')" and "held_within lops cap Q m \<lparr>rq_limiter = s', rq_places = [p']\<rparr>"
  shows "within_step lops cap Q m \<lparr>rq_limiter = s, rq_places = [p]\<rparr> \<lparr>rq_limiter = s', rq_places = [p']\<rparr>"
  using request_step.acquire [of 0 "\<lparr>rq_limiter = s, rq_places = [p]\<rparr>" lops c p' s'] assms
  by (auto simp: within_step_def any_step_def)

text \<open>The example, with a cap of four and quotas of two and one: a request that is let in.\<close>

theorem partition_overshoot_concurrent_witness:
  "\<exists>w. (within_step FixedLimit_ops 4 (\<lambda>k. if k = 0 then 2 else 1) 1)\<^sup>*\<^sup>* (requests_init example_start 1) w
     \<and> InflightCount (rq_limiter w) = 1 \<and> InflightCount (rq_limiter w) \<le> 4 + (2 + 1)"
proof -
  let ?Q = "\<lambda>k :: nat. if k = 0 then 2 else 1 :: int" and ?w = "\<lambda>s p. \<lparr>rq_limiter = s, rq_places = [p]\<rparr> :: nat abstract_limit requests"
  let ?R = "within_step FixedLimit_ops 4 ?Q 1"
  define s1 where "s1 = set_busy 0 1 example_start"
  define s2 where "s2 = s1\<lparr>al_inflight := 1\<rparr>"
  have e: "al_inflight example_start = 0" "Limiter_GetLimit FixedLimit_ops example_start = 4" "length (pl_partitions example_start) = 2"
      "pt_busy (pl_partitions example_start ! 0) = 0" "ResolvePartition ''live'' example_start = int 0"
    by (simp_all add: example_full_simps)
  have h: "held_within FixedLimit_ops 4 ?Q 1 (?w s p)" if "s \<in> {example_start, s1, s2}" for s p
    using that by (cases "racing p") (auto simp: held_within_def s1_def s2_def example_full_simps less_Suc_eq)
  have "?R (requests_init example_start 1) (?w example_start (Gate 0))"
    using request_step.arrive [of 0 "requests_init example_start 1" "''live''" 0 FixedLimit_ops] e h [of example_start]
    by (auto simp: within_step_def any_step_def requests_init_def)
  also have "?R\<^sup>*\<^sup>* (?w example_start (Gate 0)) (?w example_start (SawInflight 0 0))"
    by (rule r_into_rtranclp, rule acquire_within [of _ True]) (use e h in simp_all)
  also have "?R\<^sup>*\<^sup>* (?w example_start (SawInflight 0 0)) (?w example_start (Burst 0))"
    by (rule r_into_rtranclp, rule acquire_within [of _ True]) (use e h in simp_all)
  also have "?R\<^sup>*\<^sup>* (?w example_start (Burst 0)) (?w s1 (Admitted 0))"
    by (rule r_into_rtranclp, rule acquire_within [of _ True]) (use e h in \<open>simp_all add: s1_def is_int32_def\<close>)
  also have "?R\<^sup>*\<^sup>* (?w s1 (Admitted 0)) (?w s2 (InSlot 0 1))"
    by (rule r_into_rtranclp, rule acquire_within [of _ True]) (use e h in \<open>simp_all add: s1_def s2_def is_int32_def\<close>)
  finally have r: "?R\<^sup>*\<^sup>* (requests_init example_start 1) (?w s2 (InSlot 0 1))" .
  have "held_within FixedLimit_ops 4 ?Q 1 (requests_init example_start 1)"
    using h [of example_start Elsewhere] by (simp add: requests_init_def)
  from partition_overshoot_concurrent [OF example_build [OF example_fixed, of "\<lambda>_. ''n''" 0] _ this r]
  have "InflightCount s2 \<le> 4 + (\<Sum>k < 2. ?Q k)" using e(3) by (simp add: s2_def s1_def)
  then show ?thesis using r by (intro exI [of _ "?w s2 (InSlot 0 1)"]) (simp add: InflightCount_def s2_def numeral_2_eq_2)
qed

end
