(* ===== verification/Window_Threads.thy ===== *)
theory Window_Threads
  imports Sample_Windows "HOL-Library.Multiset"
begin

section \<open>Sample windows: samples added at the same time\<close>

text \<open>
  \<^verbatim>\<open>AddSample\<close> is called by request threads without a lock. \<^verbatim>\<open>Sample_Windows\<close> runs it as one
  operation; here any number of threads run it at the same time, one atomic access per step.
  Both classes begin with \<^verbatim>\<open>fetch_add\<close> on the sample count and a second write (the average
  window adds to the sum, the percentile window stores into the array entry it reserved), and
  both end with the same three updates: the exchange loops on the minimum and the maximum, and
  the drop flag.

  The locale \<open>concurrent_window\<close> states what the first two writes must provide; that every
  interleaving ends in a state that some order of the samples gives is proved once in it, and
  holds for both classes by interpretation.
\<close>

subsection \<open>The common tail: minimum, maximum, drop flag\<close>

record extremes =
  ex_min :: int
  ex_max :: int
  ex_drop :: bool

datatype tail = MinLoad | MinLoop int | MaxLoad | MaxLoop int | DropFlag | Done

text \<open>\<open>c\<close>: whether a weak exchange that may succeed does.\<close>

fun tail_action :: "bool \<Rightarrow> sample \<Rightarrow> extremes \<Rightarrow> tail \<Rightarrow> tail \<times> extremes" where
  "tail_action c (r, i, d) e MinLoad = (MinLoop (ex_min e), e)"
| "tail_action c (r, i, d) e (MinLoop current_min) =
     (if r < current_min then
        if ex_min e = current_min \<and> c then (MaxLoad, e\<lparr>ex_min := r\<rparr>) else (MinLoop (ex_min e), e)
      else (MaxLoad, e))"
| "tail_action c (r, i, d) e MaxLoad = (MaxLoop (ex_max e), e)"
| "tail_action c (r, i, d) e (MaxLoop current_max) =
     (if current_max < i then
        if ex_max e = current_max \<and> c then (DropFlag, e\<lparr>ex_max := i\<rparr>) else (MaxLoop (ex_max e), e)
      else (DropFlag, e))"
| "tail_action c (r, i, d) e DropFlag = (Done, if d then e\<lparr>ex_drop := True\<rparr> else e)"
| "tail_action c (r, i, d) e Done = (Done, e)"

subsection \<open>The two classes as atomic actions\<close>

record 'w window_atomics =
  WA_reserve :: "'w \<Rightarrow> int \<times> 'w"
  WA_publish :: "int \<Rightarrow> int \<Rightarrow> 'w \<Rightarrow> 'w res"
  WA_extremes :: "'w \<Rightarrow> extremes"
  WA_put :: "extremes \<Rightarrow> 'w \<Rightarrow> 'w"

definition Average_atomics :: "average_window window_atomics" where
  "Average_atomics =
     \<lparr>WA_reserve = (\<lambda>w. (aw_sample_count w, w\<lparr>aw_sample_count := wrap32 (aw_sample_count w + 1)\<rparr>)),
      WA_publish = (\<lambda>index rtt_ns w. Inr (w\<lparr>aw_sum_rtt_ns := wrap64 (aw_sum_rtt_ns w + rtt_ns)\<rparr>)),
      WA_extremes = (\<lambda>w. \<lparr>ex_min = aw_min_rtt_ns w, ex_max = aw_max_inflight w, ex_drop = aw_did_drop w\<rparr>),
      WA_put = (\<lambda>e w. w\<lparr>aw_min_rtt_ns := ex_min e, aw_max_inflight := ex_max e, aw_did_drop := ex_drop e\<rparr>)\<rparr>"

definition Percentile_atomics :: "percentile_window window_atomics" where
  "Percentile_atomics =
     \<lparr>WA_reserve = (\<lambda>w. (pw_sample_count w, w\<lparr>pw_sample_count := wrap32 (pw_sample_count w + 1)\<rparr>)),
      WA_publish = (\<lambda>index rtt_ns w.
        bind_res (if index < pw_max_samples w then store_at index rtt_ns (pw_rtts w) else Inr (pw_rtts w))
          (\<lambda>rtts. Inr (w\<lparr>pw_rtts := rtts\<rparr>))),
      WA_extremes = (\<lambda>w. \<lparr>ex_min = pw_min_rtt_ns w, ex_max = pw_max_inflight w, ex_drop = pw_did_drop w\<rparr>),
      WA_put = (\<lambda>e w. w\<lparr>pw_min_rtt_ns := ex_min e, pw_max_inflight := ex_max e, pw_did_drop := ex_drop e\<rparr>)\<rparr>"

text \<open>A thread in \<^verbatim>\<open>AddSample\<close>: before the first \<^verbatim>\<open>fetch_add\<close>, before the second write with the
  index the first returned, or in the tail.\<close>

datatype add_pc = AtCount | AtIndex int | AtTail tail

fun add_action :: "'w window_atomics \<Rightarrow> bool \<Rightarrow> sample \<Rightarrow> 'w \<Rightarrow> add_pc \<Rightarrow> (add_pc \<times> 'w) res" where
  "add_action ops c x w AtCount = (case WA_reserve ops w of (index, w') \<Rightarrow> Inr (AtIndex index, w'))"
| "add_action ops c x w (AtIndex index) =
     bind_res (WA_publish ops index (fst x) w) (\<lambda>w'. Inr (AtTail MinLoad, w'))"
| "add_action ops c x w (AtTail t) =
     (case tail_action c x (WA_extremes ops w) t of (t', e) \<Rightarrow> Inr (AtTail t', WA_put ops e w))"

record 'w adding =
  ad_window :: 'w
  ad_threads :: "(sample \<times> add_pc) list"

inductive add_step :: "'w window_atomics \<Rightarrow> 'w adding \<Rightarrow> 'w adding \<Rightarrow> bool" for ops :: "'w window_atomics" where
  act: "k < length (ad_threads s) \<Longrightarrow> ad_threads s ! k = (x, p) \<Longrightarrow>
    add_action ops c x (ad_window s) p = Inr (p', w') \<Longrightarrow>
    add_step ops s \<lparr>ad_window = w', ad_threads = (ad_threads s)[k := (x, p')]\<rparr>"

inductive_cases add_step_E: "add_step ops s s'"

definition adding_init :: "'w \<Rightarrow> sample list \<Rightarrow> 'w adding" where
  "adding_init w ys = \<lparr>ad_window = w, ad_threads = map (\<lambda>y. (y, AtCount)) ys\<rparr>"

definition all_done :: "'w adding \<Rightarrow> bool" where
  "all_done s \<longleftrightarrow> list_all (\<lambda>(x, p). p = AtTail Done) (ad_threads s)"

subsection \<open>The tail keeps the extremes right\<close>

text \<open>What a thread in the tail knows of the extremes.\<close>

fun tail_ok :: "extremes \<Rightarrow> sample \<Rightarrow> tail \<Rightarrow> bool" where
  "tail_ok e (r, i, d) MinLoad = True"
| "tail_ok e (r, i, d) (MinLoop current_min) = (ex_min e \<le> current_min)"
| "tail_ok e (r, i, d) MaxLoad = (ex_min e \<le> r)"
| "tail_ok e (r, i, d) (MaxLoop current_max) = (ex_min e \<le> r \<and> current_max \<le> ex_max e)"
| "tail_ok e (r, i, d) DropFlag = (ex_min e \<le> r \<and> i \<le> ex_max e)"
| "tail_ok e (r, i, d) Done = (ex_min e \<le> r \<and> i \<le> ex_max e \<and> (d \<longrightarrow> ex_drop e))"

definition wider :: "extremes \<Rightarrow> extremes \<Rightarrow> bool" where
  "wider e e' \<longleftrightarrow> ex_min e' \<le> ex_min e \<and> ex_max e \<le> ex_max e' \<and> (ex_drop e \<longrightarrow> ex_drop e')"

text \<open>The extremes are extremes of the samples \<open>xs\<close> and of some of the samples \<open>ys\<close>.\<close>

definition sound :: "sample list \<Rightarrow> sample list \<Rightarrow> extremes \<Rightarrow> bool" where
  "sound xs ys e \<longleftrightarrow> ex_min e \<le> window_min xs \<and> ex_min e \<in> insert (window_min xs) (fst ` set ys)
     \<and> window_max xs \<le> ex_max e \<and> ex_max e \<in> insert (window_max xs) ((fst \<circ> snd) ` set ys)
     \<and> (window_drop xs \<longrightarrow> ex_drop e) \<and> (ex_drop e \<longrightarrow> window_drop xs \<or> window_drop ys)"

lemma tail_ok_wider: "tail_ok e x t \<Longrightarrow> wider e e' \<Longrightarrow> tail_ok e' x t"
  by (cases x; cases t) (auto simp: wider_def)

lemma tail_action_ok:
  assumes "tail_action c x e t = (t', e')" and "tail_ok e x t"
  shows "tail_ok e' x t'" and "wider e e'"
  using assms by (cases x; cases t; auto simp: wider_def split: if_splits)+

lemma tail_action_writes:
  assumes "tail_action c (r, i, d) e t = (t', e')"
  obtains "e' = e" | "e' = e\<lparr>ex_min := r\<rparr>" "r < ex_min e" | "e' = e\<lparr>ex_max := i\<rparr>" "ex_max e < i"
    | "e' = e\<lparr>ex_drop := True\<rparr>" d
  using assms by (cases t) (auto split: if_splits)

lemma tail_action_sound:
  assumes "tail_action c x e t = (t', e')" and "x \<in> set ys" and "sound xs ys e"
  shows "sound xs ys e'"
proof -
  obtain r i d where x: "x = (r, i, d)" by (cases x)
  have m: "r \<in> fst ` set ys" "i \<in> (fst \<circ> snd) ` set ys" "d \<Longrightarrow> window_drop ys"
    using assms(2) by (force simp: x window_drop_def list_ex_iff)+
  from assms(1) [unfolded x] show ?thesis
    by (cases rule: tail_action_writes) (use assms(3) m in \<open>auto simp: sound_def simp del: comp_apply\<close>)
qed

lemma fold_min_eq: "fold min ys (a :: int) = Min (insert a (set ys))"
  using Min.set_eq_fold [of a ys] by simp

lemma fold_max_eq: "fold max ys (a :: int) = Max (insert a (set ys))"
  using Max.set_eq_fold [of a ys] by simp

lemma sound_done:
  assumes "sound xs ys e" and "\<forall>y \<in> set ys. tail_ok e y Done"
  shows "e = \<lparr>ex_min = window_min (xs @ ys), ex_max = window_max (xs @ ys), ex_drop = window_drop (xs @ ys)\<rparr>"
proof -
  have b: "\<forall>y \<in> set ys. ex_min e \<le> fst y \<and> fst (snd y) \<le> ex_max e \<and> (snd (snd y) \<longrightarrow> ex_drop e)"
    using assms(2) by auto
  have "window_min (xs @ ys) = Min (insert (window_min xs) (fst ` set ys))"
    by (simp add: window_min_def fold_min_eq)
  also have "\<dots> = ex_min e" using assms(1) b by (intro Min_eqI) (auto simp: sound_def)
  finally have mn: "window_min (xs @ ys) = ex_min e" .
  have "window_max (xs @ ys) = Max (insert (window_max xs) ((fst \<circ> snd) ` set ys))"
    by (simp add: window_max_def fold_max_eq)
  also have "\<dots> = ex_max e" using assms(1) b by (intro Max_eqI) (auto simp: sound_def)
  finally have mx: "window_max (xs @ ys) = ex_max e" .
  have "window_drop (xs @ ys) = ex_drop e"
    using assms(1) b by (auto simp: sound_def window_drop_def list_ex_iff)
  then show ?thesis using mn mx by simp
qed

subsection \<open>Every interleaving is some order of the samples\<close>

definition started :: "(sample \<times> add_pc) list \<Rightarrow> sample multiset" where
  "started ts = image_mset fst (filter_mset (\<lambda>z. snd z \<noteq> AtCount) (mset ts))"

definition reserved :: "(sample \<times> add_pc) list \<Rightarrow> nat set" where
  "reserved ts = {j. \<exists>k < length ts. snd (ts ! k) = AtIndex (int j)}"

text \<open>Every thread that has an index is the only one with it, and the order has its sample there.\<close>

definition indexed :: "sample list \<Rightarrow> (sample \<times> add_pc) list \<Rightarrow> bool" where
  "indexed zs ts \<longleftrightarrow>
     (\<forall>k < length ts. \<forall>i. snd (ts ! k) = AtIndex i \<longrightarrow>
        (\<exists>j < length zs. i = int j \<and> zs ! j = fst (ts ! k))
        \<and> (\<forall>k' < length ts. snd (ts ! k') = AtIndex i \<longrightarrow> k' = k))"

definition tails_ok :: "extremes \<Rightarrow> (sample \<times> add_pc) list \<Rightarrow> bool" where
  "tails_ok e ts \<longleftrightarrow> (\<forall>k < length ts. \<forall>t. snd (ts ! k) = AtTail t \<longrightarrow> tail_ok e (fst (ts ! k)) t)"

lemma started_update:
  assumes "k < length ts" and "ts ! k = (x, p)"
  shows "started (ts[k := (x, p')]) =
    (if p = AtCount \<and> p' \<noteq> AtCount then add_mset x (started ts)
     else if p \<noteq> AtCount \<and> p' = AtCount then started ts - {#x#} else started ts)"
proof -
  have "(x, p) \<in># mset ts" using assms by (metis nth_mem_mset)
  then obtain M where M: "mset ts = add_mset (x, p) M" by (metis mset_add)
  then have "mset (ts[k := (x, p')]) = add_mset (x, p') M" using assms by (simp add: mset_update)
  then show ?thesis using M by (auto simp: started_def)
qed

lemma started_size:
  assumes "k < length ts" and "snd (ts ! k) = AtCount"
  shows "size (started ts) < length ts"
proof -
  have "ts ! k \<in># mset ts" using assms by (metis nth_mem_mset)
  then obtain M where M: "mset ts = add_mset (ts ! k) M" by (metis mset_add)
  then have "size (started ts) \<le> size M" using assms by (simp add: started_def size_filter_mset_lesseq)
  moreover have "length ts = Suc (size M)" using M by (metis size_add_mset size_mset)
  ultimately show ?thesis by simp
qed

text \<open>The indices reserved by the threads other than \<open>k\<close>.\<close>

definition reserved_others :: "(sample \<times> add_pc) list \<Rightarrow> nat \<Rightarrow> nat set" where
  "reserved_others ts k = {j. \<exists>m < length ts. m \<noteq> k \<and> snd (ts ! m) = AtIndex (int j)}"

lemma reserved_split:
  assumes "k < length ts"
  shows "reserved (ts[k := (x, p)]) = {j. p = AtIndex (int j)} \<union> reserved_others ts k"
    and "reserved ts = {j. snd (ts ! k) = AtIndex (int j)} \<union> reserved_others ts k"
proof -
  have *: "reserved us = {j. snd (us ! k) = AtIndex (int j)} \<union> reserved_others us k" if "k < length us" for us
    using that by (auto simp: reserved_def reserved_others_def)
  have "reserved_others (ts[k := (x, p)]) k = reserved_others ts k" by (auto simp: reserved_others_def)
  then show "reserved (ts[k := (x, p)]) = {j. p = AtIndex (int j)} \<union> reserved_others ts k"
    using * [of "ts[k := (x, p)]"] assms by simp
  show "reserved ts = {j. snd (ts ! k) = AtIndex (int j)} \<union> reserved_others ts k" by (rule * [OF assms])
qed

lemma indexed_alone:
  assumes "indexed zs ts" and "k < length ts" and "snd (ts ! k) = AtIndex (int j)"
  shows "j < length zs" and "zs ! j = fst (ts ! k)" and "j \<notin> reserved_others ts k"
proof -
  have "\<exists>j' < length zs. int j = int j' \<and> zs ! j' = fst (ts ! k)"
    using assms unfolding indexed_def by blast
  then show "j < length zs" "zs ! j = fst (ts ! k)" by auto
  show "j \<notin> reserved_others ts k" using assms unfolding indexed_def reserved_others_def by blast
qed

lemma reserved_update:
  assumes "k < length ts" and "indexed zs ts"
  shows "snd (ts ! k) = AtCount \<Longrightarrow> reserved (ts[k := (x, AtIndex (int j))]) = insert j (reserved ts)"
    and "snd (ts ! k) = AtIndex (int j) \<Longrightarrow> reserved (ts[k := (x, AtTail t)]) = reserved ts - {j}"
    and "snd (ts ! k) = AtTail t \<Longrightarrow> reserved (ts[k := (x, AtTail t')]) = reserved ts"
  using indexed_alone(3) [OF assms(2,1), of j] by (auto simp: reserved_split [OF assms(1)])

lemma indexed_reserve:
  assumes "indexed zs ts" and "k < length ts"
  shows "indexed (zs @ [x]) (ts[k := (x, AtIndex (int (length zs)))])"
  unfolding indexed_def
proof (intro allI impI)
  fix m i
  let ?us = "ts[k := (x, AtIndex (int (length zs)))]"
  assume m: "m < length ?us" "snd (?us ! m) = AtIndex i"
  have old: "\<exists>j < length zs. i' = int j \<and> zs ! j = fst (ts ! n)"
    if "n < length ts" "snd (ts ! n) = AtIndex i'" for n i' using assms(1) that unfolding indexed_def by blast
  have uniq: "n' = n" if "n < length ts" "n' < length ts" "snd (ts ! n) = AtIndex i'" "snd (ts ! n') = AtIndex i'"
    for n n' i' using assms(1) that unfolding indexed_def by blast
  show "(\<exists>j < length (zs @ [x]). i = int j \<and> (zs @ [x]) ! j = fst (?us ! m))
      \<and> (\<forall>k' < length ?us. snd (?us ! k') = AtIndex i \<longrightarrow> k' = m)"
  proof (cases "m = k")
    case True
    have "k' = k" if "k' < length ts" "snd (?us ! k') = AtIndex i" for k'
      using old [of k'] that True m assms(2) by (cases "k' = k") auto
    then show ?thesis using True m assms(2) by (intro conjI exI [of _ "length zs"]) auto
  next
    case False
    then obtain j where j: "j < length zs" "i = int j" "zs ! j = fst (ts ! m)" using old [of m i] m by auto
    have "k' = m" if "k' < length ts" "snd (?us ! k') = AtIndex i" for k'
      using uniq [of m k' i] that False m j(1,2) assms(2) by (cases "k' = k") auto
    then show ?thesis using j False by (intro conjI exI [of _ j]) (auto simp: nth_append)
  qed
qed

lemma indexed_forget: "indexed zs ts \<Longrightarrow> k < length ts \<Longrightarrow> indexed zs (ts[k := (x, AtTail t)])"
  unfolding indexed_def by (auto simp: nth_list_update)

lemma tails_ok_update:
  assumes "tails_ok e ts" and "k < length ts" and "wider e e'" and "case p of AtTail t \<Rightarrow> tail_ok e' x t | _ \<Rightarrow> True"
  shows "tails_ok e' (ts[k := (x, p)])"
  unfolding tails_ok_def
proof (intro allI impI)
  fix n t
  assume n: "n < length (ts[k := (x, p)])" "snd (ts[k := (x, p)] ! n) = AtTail t"
  show "tail_ok e' (fst (ts[k := (x, p)] ! n)) t"
  proof (cases "n = k")
    case True
    then show ?thesis using n assms(2,4) by simp
  next
    case False
    then have "tail_ok e (fst (ts ! n)) t" using n assms(1,2) by (simp add: tails_ok_def)
    then show ?thesis using tail_ok_wider [OF _ assms(3)] False by simp
  qed
qed

lemma wider_refl [simp]: "wider e e"
  by (simp add: wider_def)

text \<open>How far a thread in the tail is from its end when it runs alone.\<close>

fun tail_rank :: "extremes \<Rightarrow> sample \<Rightarrow> tail \<Rightarrow> nat" where
  "tail_rank e x MinLoad = 7"
| "tail_rank e x (MinLoop m) = (if fst x < m \<and> ex_min e \<noteq> m then 6 else 5)"
| "tail_rank e x MaxLoad = 4"
| "tail_rank e x (MaxLoop m) = (if m < fst (snd x) \<and> ex_max e \<noteq> m then 3 else 2)"
| "tail_rank e x DropFlag = 1"
| "tail_rank e x Done = 0"

lemma tail_rank_decreases:
  "tail_action True x e t = (t', e') \<Longrightarrow> t \<noteq> Done \<Longrightarrow> tail_rank e' x t' < tail_rank e x t"
  by (cases x; cases t) (auto split: if_splits)

locale concurrent_window =
  fixes ops :: "'w window_atomics" and core :: "sample list \<Rightarrow> nat set \<Rightarrow> 'w \<Rightarrow> bool"
  assumes reserve: "core zs P w \<Longrightarrow> int (length zs) < INT_MAX \<Longrightarrow>
      \<exists>w'. WA_reserve ops w = (int (length zs), w') \<and> core (zs @ [x]) (insert (length zs) P) w'
        \<and> WA_extremes ops w' = WA_extremes ops w"
    and publish: "core zs P w \<Longrightarrow> j \<in> P \<Longrightarrow> j < length zs \<Longrightarrow> int (length zs) \<le> INT_MAX \<Longrightarrow>
      \<exists>w'. WA_publish ops (int j) (fst (zs ! j)) w = Inr w' \<and> core zs (P - {j}) w'
        \<and> WA_extremes ops w' = WA_extremes ops w"
    and put: "core zs P w \<Longrightarrow> core zs P (WA_put ops e w) \<and> WA_extremes ops (WA_put ops e w) = e"
begin

definition adding_inv :: "sample list \<Rightarrow> sample list \<Rightarrow> 'w adding \<Rightarrow> bool" where
  "adding_inv xs ys s \<longleftrightarrow> map fst (ad_threads s) = ys \<and> int (length xs + length ys) \<le> INT_MAX
     \<and> sound xs ys (WA_extremes ops (ad_window s)) \<and> tails_ok (WA_extremes ops (ad_window s)) (ad_threads s)
     \<and> (\<exists>us. mset us = started (ad_threads s) \<and> indexed (xs @ us) (ad_threads s)
          \<and> core (xs @ us) (reserved (ad_threads s)) (ad_window s))"

lemma invE:
  assumes "adding_inv xs ys s"
  obtains us where "mset us = started (ad_threads s)" and "indexed (xs @ us) (ad_threads s)"
    and "core (xs @ us) (reserved (ad_threads s)) (ad_window s)" and "length us = size (started (ad_threads s))"
proof -
  obtain us where us: "mset us = started (ad_threads s)" "indexed (xs @ us) (ad_threads s)"
      "core (xs @ us) (reserved (ad_threads s)) (ad_window s)" using assms by (auto simp: adding_inv_def)
  moreover have "length us = size (started (ad_threads s))" using us(1) by (metis size_mset)
  ultimately show ?thesis using that by blast
qed

text \<open>What a step of thread \<open>k\<close> has to provide.\<close>

lemma thread_inv:
  assumes inv: "adding_inv xs ys s" and k: "k < length (ad_threads s)" "ad_threads s ! k = (x, p)"
    and "p' \<noteq> AtCount" and "mset us = (if p = AtCount then add_mset x (started (ad_threads s)) else started (ad_threads s))"
    and "indexed (xs @ us) ((ad_threads s)[k := (x, p')])" and "core (xs @ us) (reserved ((ad_threads s)[k := (x, p')])) w'"
    and "wider (WA_extremes ops (ad_window s)) (WA_extremes ops w')" and "sound xs ys (WA_extremes ops w')"
    and "case p' of AtTail t \<Rightarrow> tail_ok (WA_extremes ops w') x t | _ \<Rightarrow> True"
  shows "adding_inv xs ys \<lparr>ad_window = w', ad_threads = (ad_threads s)[k := (x, p')]\<rparr>"
proof -
  let ?ts = "ad_threads s"
  have I: "map fst ?ts = ys" "int (length xs + length ys) \<le> INT_MAX" "tails_ok (WA_extremes ops (ad_window s)) ?ts"
    using inv by (auto simp: adding_inv_def)
  have "map fst (?ts[k := (x, p')]) = ys" using I(1) k by (auto simp: map_update list_update_same_conv)
  moreover have "mset us = started (?ts[k := (x, p')])" using assms(4,5) started_update [OF k] by simp
  moreover have "tails_ok (WA_extremes ops w') (?ts[k := (x, p')])"
    using tails_ok_update [OF I(3) k(1) assms(8,10)] .
  ultimately show ?thesis using assms(6,7,9) I(2) unfolding adding_inv_def by auto
qed

lemma inv_member:
  assumes "adding_inv xs ys s" and "k < length (ad_threads s)" and "ad_threads s ! k = (x, p)"
  shows "x \<in> set ys"
proof -
  have "map fst (ad_threads s) = ys" using assms(1) by (simp add: adding_inv_def)
  then show ?thesis using assms(2,3) by (metis fst_conv length_map nth_map nth_mem)
qed

lemma inv_lengths:
  assumes "adding_inv xs ys s"
  shows "int (length xs + length ys) \<le> INT_MAX" and "length (ad_threads s) = length ys"
    and "size (started (ad_threads s)) \<le> length ys"
proof -
  show "int (length xs + length ys) \<le> INT_MAX" "length (ad_threads s) = length ys"
    using assms by (auto simp: adding_inv_def)
  then show "size (started (ad_threads s)) \<le> length ys"
    unfolding started_def by (metis size_filter_mset_lesseq size_image_mset size_mset)
qed

lemma reserve_inv:
  assumes inv: "adding_inv xs ys s" and k: "k < length (ad_threads s)" "ad_threads s ! k = (x, AtCount)"
  obtains w' j where "add_action ops c x (ad_window s) AtCount = Inr (AtIndex (int j), w')"
    and "adding_inv xs ys \<lparr>ad_window = w', ad_threads = (ad_threads s)[k := (x, AtIndex (int j))]\<rparr>"
  using inv
proof (rule invE)
  let ?ts = "ad_threads s"
  fix us
  assume us: "mset us = started ?ts"
    and zs: "indexed (xs @ us) ?ts" "core (xs @ us) (reserved ?ts) (ad_window s)"
    and len: "length us = size (started ?ts)"
  have "int (length (xs @ us)) < INT_MAX"
    using started_size [OF k(1)] k(2) len inv_lengths [OF inv] by simp
  from reserve [OF zs(2) this, of x] obtain v where v: "WA_reserve ops (ad_window s) = (int (length (xs @ us)), v)"
      "core ((xs @ us) @ [x]) (insert (length (xs @ us)) (reserved ?ts)) v" "WA_extremes ops v = WA_extremes ops (ad_window s)"
    by blast
  let ?us = "?ts[k := (x, AtIndex (int (length (xs @ us))))]"
  have "core (xs @ us @ [x]) (reserved ?us) v" "indexed (xs @ us @ [x]) ?us"
    using v(2) reserved_update(1) [OF k(1) zs(1), of x "length (xs @ us)"] indexed_reserve [OF zs(1) k(1), of x] k(2)
    by simp_all
  then have "adding_inv xs ys \<lparr>ad_window = v, ad_threads = ?us\<rparr>"
    using inv v(3) us by (intro thread_inv [OF inv k, of _ "us @ [x]"]) (auto simp: adding_inv_def)
  then show ?thesis using that [of "length (xs @ us)" v] v(1) by simp
qed

lemma publish_inv:
  assumes inv: "adding_inv xs ys s" and k: "k < length (ad_threads s)" "ad_threads s ! k = (x, AtIndex i)"
  obtains w' where "add_action ops c x (ad_window s) (AtIndex i) = Inr (AtTail MinLoad, w')"
    and "adding_inv xs ys \<lparr>ad_window = w', ad_threads = (ad_threads s)[k := (x, AtTail MinLoad)]\<rparr>"
  using inv
proof (rule invE)
  let ?ts = "ad_threads s"
  fix us
  assume us: "mset us = started ?ts"
    and zs: "indexed (xs @ us) ?ts" "core (xs @ us) (reserved ?ts) (ad_window s)"
    and len: "length us = size (started ?ts)"
  have "snd (?ts ! k) = AtIndex i" using k by simp
  then obtain j where j: "i = int j" using zs(1) k(1) unfolding indexed_def by blast
  have at: "snd (?ts ! k) = AtIndex (int j)" using k j by simp
  have r: "j \<in> reserved ?ts" using at k(1) by (auto simp: reserved_def)
  have "int (length (xs @ us)) \<le> INT_MAX" using len inv_lengths [OF inv] by simp
  from publish [OF zs(2) r indexed_alone(1) [OF zs(1) k(1) at] this] indexed_alone(2) [OF zs(1) k(1) at] k(2) j
  obtain v where v: "WA_publish ops i (fst x) (ad_window s) = Inr v" "core (xs @ us) (reserved ?ts - {j}) v"
      "WA_extremes ops v = WA_extremes ops (ad_window s)" by auto
  have "tail_ok e x MinLoad" for e by (cases x) simp
  then have "adding_inv xs ys \<lparr>ad_window = v, ad_threads = ?ts[k := (x, AtTail MinLoad)]\<rparr>"
    using inv v us reserved_update(2) [OF k(1) zs(1) at]
    by (intro thread_inv [OF inv k, of _ us]) (auto simp: adding_inv_def intro: indexed_forget [OF zs(1) k(1)])
  then show ?thesis using that v(1) by simp
qed

lemma tail_inv:
  assumes inv: "adding_inv xs ys s" and k: "k < length (ad_threads s)" "ad_threads s ! k = (x, AtTail t)"
    and t: "tail_action c x (WA_extremes ops (ad_window s)) t = (t', e)"
  shows "adding_inv xs ys \<lparr>ad_window = WA_put ops e (ad_window s), ad_threads = (ad_threads s)[k := (x, AtTail t')]\<rparr>"
  using inv
proof (rule invE)
  let ?ts = "ad_threads s"
  fix us
  assume us: "mset us = started ?ts"
    and zs: "indexed (xs @ us) ?ts" "core (xs @ us) (reserved ?ts) (ad_window s)"
  have w': "core (xs @ us) (reserved ?ts) (WA_put ops e (ad_window s))" "WA_extremes ops (WA_put ops e (ad_window s)) = e"
    using put [OF zs(2), of e] by auto
  have "tail_ok (WA_extremes ops (ad_window s)) x t" using inv k by (auto simp: adding_inv_def tails_ok_def)
  note ok = tail_action_ok [OF t this]
  have "sound xs ys e" using tail_action_sound [OF t inv_member [OF inv k]] inv by (simp add: adding_inv_def)
  then show ?thesis
    using w' ok us reserved_update(3) [OF k(1) zs(1)] k(2)
    by (intro thread_inv [OF inv k, of _ us]) (auto intro: indexed_forget [OF zs(1) k(1)])
qed

lemma step_inv:
  assumes "add_step ops s s'" and inv: "adding_inv xs ys s"
  shows "adding_inv xs ys s'"
  using assms(1)
proof cases
  case (act k x p c p' w')
  show ?thesis
  proof (cases p)
    case AtCount
    then show ?thesis using reserve_inv [OF inv act(2), of x c] act by force
  next
    case (AtIndex i)
    then show ?thesis using publish_inv [OF inv act(2), of x i c] act by force
  next
    case (AtTail t)
    obtain t' e where "tail_action c x (WA_extremes ops (ad_window s)) t = (t', e)" by fastforce
    then show ?thesis using tail_inv [OF inv act(2), of x t c t' e] act AtTail by simp
  qed
qed

lemma reach_inv: "(add_step ops)\<^sup>*\<^sup>* s s' \<Longrightarrow> adding_inv xs ys s \<Longrightarrow> adding_inv xs ys s'"
  by (induction rule: rtranclp_induct) (auto intro: step_inv)

lemma init_inv:
  assumes "core xs {} w" and "int (length xs + length ys) \<le> INT_MAX"
    and "WA_extremes ops w = \<lparr>ex_min = window_min xs, ex_max = window_max xs, ex_drop = window_drop xs\<rparr>"
  shows "adding_inv xs ys (adding_init w ys)"
proof -
  have "started (map (\<lambda>y. (y, AtCount)) ys) = {#}" by (induction ys) (auto simp: started_def)
  moreover have "reserved (map (\<lambda>y. (y, AtCount)) ys) = {}" by (auto simp: reserved_def)
  moreover have "indexed xs (map (\<lambda>y. (y, AtCount)) ys)" by (auto simp: indexed_def)
  moreover have "tails_ok e (map (\<lambda>y. (y, AtCount)) ys)" for e by (auto simp: tails_ok_def)
  ultimately show ?thesis
    using assms by (auto simp: adding_inv_def adding_init_def sound_def comp_def intro!: exI [of _ "[]"])
qed

lemma tail_finishes:
  assumes "adding_inv xs ys s" and "k < length (ad_threads s)" and "ad_threads s ! k = (x, AtTail t)"
  shows "\<exists>w. (add_step ops)\<^sup>*\<^sup>* s \<lparr>ad_window = w, ad_threads = (ad_threads s)[k := (x, AtTail Done)]\<rparr>"
  using assms
proof (induction "tail_rank (WA_extremes ops (ad_window s)) x t" arbitrary: s t rule: less_induct)
  case less
  show ?case
  proof (cases "t = Done")
    case True
    then have "s = \<lparr>ad_window = ad_window s, ad_threads = (ad_threads s)[k := (x, AtTail Done)]\<rparr>"
      using list_update_id [of "ad_threads s" k] less.prems(3) by simp
    then show ?thesis by (metis rtranclp.rtrancl_refl)
  next
    case False
    obtain t' e where t: "tail_action True x (WA_extremes ops (ad_window s)) t = (t', e)" by fastforce
    define s' where "s' = \<lparr>ad_window = WA_put ops e (ad_window s), ad_threads = (ad_threads s)[k := (x, AtTail t')]\<rparr>"
    have st: "add_step ops s s'"
      unfolding s'_def by (rule add_step.act [OF less.prems(2,3), of ops True]) (simp add: t)
    have inv: "adding_inv xs ys s'" using tail_inv [OF less.prems t] by (simp add: s'_def)
    have "WA_extremes ops (ad_window s') = e"
      using less.prems(1) put unfolding s'_def by (auto elim!: invE)
    then have "\<exists>w. (add_step ops)\<^sup>*\<^sup>* s' \<lparr>ad_window = w, ad_threads = (ad_threads s')[k := (x, AtTail Done)]\<rparr>"
      using less.hyps [OF _ inv, of t'] tail_rank_decreases [OF t False] less.prems(2) by (simp add: s'_def)
    then show ?thesis using st by (auto simp: s'_def intro: converse_rtranclp_into_rtranclp)
  qed
qed

lemma publish_finishes:
  assumes inv: "adding_inv xs ys s" and k: "k < length (ad_threads s)" "ad_threads s ! k = (x, AtIndex i)"
  shows "\<exists>w. (add_step ops)\<^sup>*\<^sup>* s \<lparr>ad_window = w, ad_threads = (ad_threads s)[k := (x, AtTail Done)]\<rparr>"
  using assms
proof (rule publish_inv)
  fix w'
  assume a: "add_action ops True x (ad_window s) (AtIndex i) = Inr (AtTail MinLoad, w')"
    and inv': "adding_inv xs ys \<lparr>ad_window = w', ad_threads = (ad_threads s)[k := (x, AtTail MinLoad)]\<rparr>"
  have "add_step ops s \<lparr>ad_window = w', ad_threads = (ad_threads s)[k := (x, AtTail MinLoad)]\<rparr>"
    by (rule add_step.act [OF k a])
  then show ?thesis
    using tail_finishes [OF inv', of k x MinLoad] k(1) by (auto intro: converse_rtranclp_into_rtranclp)
qed

lemma thread_finishes:
  assumes inv: "adding_inv xs ys s" and k: "k < length (ad_threads s)" "ad_threads s ! k = (x, p)"
  shows "\<exists>w. (add_step ops)\<^sup>*\<^sup>* s \<lparr>ad_window = w, ad_threads = (ad_threads s)[k := (x, AtTail Done)]\<rparr>"
proof (cases p)
  case AtCount
  show ?thesis
  proof (rule reserve_inv [OF inv k(1) k(2) [unfolded AtCount], of True])
    fix w' j
    assume a: "add_action ops True x (ad_window s) AtCount = Inr (AtIndex (int j), w')"
      and inv': "adding_inv xs ys \<lparr>ad_window = w', ad_threads = (ad_threads s)[k := (x, AtIndex (int j))]\<rparr>"
    have "add_step ops s \<lparr>ad_window = w', ad_threads = (ad_threads s)[k := (x, AtIndex (int j))]\<rparr>"
      by (rule add_step.act [OF k(1) k(2) [unfolded AtCount] a])
    then show ?thesis
      using publish_finishes [OF inv', of k x "int j"] k(1) by (auto intro: converse_rtranclp_into_rtranclp)
  qed
next
  case (AtIndex i)
  then show ?thesis using publish_finishes [OF inv k(1)] k(2) by simp
next
  case (AtTail t)
  then show ?thesis using tail_finishes [OF inv k(1)] k(2) by simp
qed

text \<open>From every reachable state, every thread can be run to its end.\<close>

lemma all_finish:
  assumes "adding_inv xs ys s"
  shows "\<exists>s'. (add_step ops)\<^sup>*\<^sup>* s s' \<and> all_done s'"
  using assms
proof (induction "nat (tally (\<lambda>z. snd z \<noteq> AtTail Done) (ad_threads s))" arbitrary: s rule: less_induct)
  case less
  let ?P = "\<lambda>z :: sample \<times> add_pc. snd z \<noteq> AtTail Done"
  show ?case
  proof (cases "all_done s")
    case False
    then obtain k where k: "k < length (ad_threads s)" "?P (ad_threads s ! k)"
      by (auto simp: all_done_def list_all_length case_prod_beta)
    obtain x p where xp: "ad_threads s ! k = (x, p)" by fastforce
    then obtain w where w: "(add_step ops)\<^sup>*\<^sup>* s \<lparr>ad_window = w, ad_threads = (ad_threads s)[k := (x, AtTail Done)]\<rparr>"
      using thread_finishes [OF less.prems k(1)] by blast
    have "1 \<le> tally ?P (ad_threads s)" using k by (rule tally_pos)
    then have "nat (tally ?P ((ad_threads s)[k := (x, AtTail Done)])) < nat (tally ?P (ad_threads s))" using k by simp
    then show ?thesis
      using less.hyps [of "\<lparr>ad_window = w, ad_threads = (ad_threads s)[k := (x, AtTail Done)]\<rparr>"]
        reach_inv [OF w less.prems] w by (auto intro: rtranclp_trans)
  qed auto
qed

text \<open>When every thread has finished, the window is what some order of the samples gives.\<close>

lemma done_core:
  assumes "adding_inv xs ys s" and "all_done s"
  shows "\<exists>us. mset us = mset ys \<and> core (xs @ us) {} (ad_window s)
    \<and> WA_extremes ops (ad_window s)
      = \<lparr>ex_min = window_min (xs @ ys), ex_max = window_max (xs @ ys), ex_drop = window_drop (xs @ ys)\<rparr>"
proof -
  let ?ts = "ad_threads s"
  have d: "\<forall>k < length ?ts. snd (?ts ! k) = AtTail Done"
    using assms(2) by (simp add: all_done_def list_all_length case_prod_beta)
  have I: "map fst ?ts = ys" "sound xs ys (WA_extremes ops (ad_window s))"
      "tails_ok (WA_extremes ops (ad_window s)) ?ts" using assms(1) by (auto simp: adding_inv_def)
  have "filter_mset (\<lambda>z. snd z \<noteq> AtCount) (mset ?ts) = mset ?ts"
    using d by (intro filter_mset_eq_conv [THEN iffD2]) (force simp: in_set_conv_nth)
  then have st: "started ?ts = mset ys" using I(1) by (auto simp: started_def)
  have rs: "reserved ?ts = {}" using d by (auto simp: reserved_def)
  have "\<forall>y \<in> set ys. tail_ok (WA_extremes ops (ad_window s)) y Done"
    using d I(1,3) unfolding tails_ok_def by (metis in_set_conv_nth length_map nth_map)
  then show ?thesis using sound_done [OF I(2)] assms(1) st rs by (auto simp: adding_inv_def)
qed

end

subsection \<open>Both classes provide the two writes\<close>

text \<open>The average window: the sum is that of the samples whose second write has happened.\<close>

definition average_core :: "sample list \<Rightarrow> nat set \<Rightarrow> average_window \<Rightarrow> bool" where
  "average_core zs P w \<longleftrightarrow> aw_sample_count w = int (length zs)
     \<and> aw_sum_rtt_ns w = wrap64 (\<Sum>j \<in> {..< length zs} - P. fst (zs ! j))"

interpretation average_threads: concurrent_window Average_atomics average_core
proof unfold_locales
  fix zs P w x j e
  assume c: "average_core zs P w"
  have "(\<Sum>j \<in> {..< length (zs @ [x])} - insert (length zs) P. fst ((zs @ [x]) ! j))
      = (\<Sum>j \<in> {..< length zs} - P. fst (zs ! j))"
    by (rule sum.cong) (auto simp: nth_append)
  then show "\<exists>w'. WA_reserve Average_atomics w = (int (length zs), w')
      \<and> average_core (zs @ [x]) (insert (length zs) P) w' \<and> WA_extremes Average_atomics w' = WA_extremes Average_atomics w"
    if "int (length zs) < INT_MAX"
    using c that by (simp add: Average_atomics_def average_core_def is_int32_def add.commute)
  show "\<exists>w'. WA_publish Average_atomics (int j) (fst (zs ! j)) w = Inr w' \<and> average_core zs (P - {j}) w'
      \<and> WA_extremes Average_atomics w' = WA_extremes Average_atomics w" if "j \<in> P" "j < length zs"
  proof -
    have "{..< length zs} - (P - {j}) = insert j ({..< length zs} - P)" using that by auto
    then show ?thesis using c that by (simp add: Average_atomics_def average_core_def add.commute)
  qed
  show "average_core zs P (WA_put Average_atomics e w) \<and> WA_extremes Average_atomics (WA_put Average_atomics e w) = e"
    using c by (simp add: Average_atomics_def average_core_def)
qed

lemma average_core_holds:
  "average_holds zs w \<longleftrightarrow> average_core zs {} w \<and> WA_extremes Average_atomics w
     = \<lparr>ex_min = window_min zs, ex_max = window_max zs, ex_drop = window_drop zs\<rparr>"
proof -
  have "(\<Sum>j < length zs. fst (zs ! j)) = sum_list (map fst zs)" by (simp add: sum_list_sum_nth atLeast0LessThan)
  then show ?thesis by (cases w) (auto simp: average_holds_def average_core_def Average_atomics_def)
qed

text \<open>The percentile window: the array has the samples whose second write has happened, up to its
  length.\<close>

definition percentile_core :: "sample list \<Rightarrow> nat set \<Rightarrow> percentile_window \<Rightarrow> bool" where
  "percentile_core zs P w \<longleftrightarrow> percentile_ok w \<and> pw_sample_count w = int (length zs)
     \<and> (\<forall>j < min (length zs) (length (pw_rtts w)). j \<notin> P \<longrightarrow> pw_rtts w ! j = fst (zs ! j))"

lemma percentile_publish:
  assumes "percentile_core zs P w" and "j < length zs"
  shows "\<exists>w'. WA_publish Percentile_atomics (int j) (fst (zs ! j)) w = Inr w' \<and> percentile_core zs (P - {j}) w'
      \<and> WA_extremes Percentile_atomics w' = WA_extremes Percentile_atomics w"
proof (cases "j < length (pw_rtts w)")
  case True
  then have "WA_publish Percentile_atomics (int j) (fst (zs ! j)) w = Inr (w\<lparr>pw_rtts := (pw_rtts w)[j := fst (zs ! j)]\<rparr>)"
    using assms by (auto simp: Percentile_atomics_def percentile_core_def percentile_ok_def store_at_def)
  moreover have "percentile_core zs (P - {j}) (w\<lparr>pw_rtts := (pw_rtts w)[j := fst (zs ! j)]\<rparr>)"
    using assms True by (auto simp: percentile_core_def percentile_ok_def nth_list_update)
  ultimately show ?thesis by (auto simp: Percentile_atomics_def)
next
  case False
  then have "WA_publish Percentile_atomics (int j) (fst (zs ! j)) w = Inr w"
    using assms by (auto simp: Percentile_atomics_def percentile_core_def percentile_ok_def)
  then show ?thesis using assms False by (auto simp: percentile_core_def)
qed

interpretation percentile_threads: concurrent_window Percentile_atomics percentile_core
proof unfold_locales
  fix zs P w x j e
  assume c: "percentile_core zs P w"
  show "\<exists>w'. WA_reserve Percentile_atomics w = (int (length zs), w')
      \<and> percentile_core (zs @ [x]) (insert (length zs) P) w' \<and> WA_extremes Percentile_atomics w' = WA_extremes Percentile_atomics w"
    if "int (length zs) < INT_MAX"
    using c that by (auto simp: Percentile_atomics_def percentile_core_def percentile_ok_def is_int32_def nth_append)
  show "\<exists>w'. WA_publish Percentile_atomics (int j) (fst (zs ! j)) w = Inr w' \<and> percentile_core zs (P - {j}) w'
      \<and> WA_extremes Percentile_atomics w' = WA_extremes Percentile_atomics w" if "j < length zs"
    using percentile_publish [OF c that] .
  show "percentile_core zs P (WA_put Percentile_atomics e w)
      \<and> WA_extremes Percentile_atomics (WA_put Percentile_atomics e w) = e"
    using c by (simp add: Percentile_atomics_def percentile_core_def percentile_ok_def)
qed

lemma percentile_core_holds:
  assumes "percentile_ok w"
  shows "percentile_holds zs w \<longleftrightarrow> percentile_core zs {} w \<and> WA_extremes Percentile_atomics w
     = \<lparr>ex_min = window_min zs, ex_max = window_max zs, ex_drop = window_drop zs\<rparr>"
  using assms
  by (auto simp: percentile_holds_def percentile_core_def Percentile_atomics_def Let_def list_eq_iff_nth_eq)

subsection \<open>Properties\<close>

lemma window_perm:
  assumes "mset us = mset ys"
  shows "window_min (xs @ us) = window_min (xs @ ys)" and "window_max (xs @ us) = window_max (xs @ ys)"
    and "window_drop (xs @ us) = window_drop (xs @ ys)" and "sum_list (map fst (xs @ us)) = sum_list (map fst (xs @ ys))"
    and "length us = length ys" and "set us = set ys"
proof -
  show s: "set us = set ys" using assms by (rule mset_eq_setD)
  show "length us = length ys" using assms by (rule mset_eq_length)
  have "mset (map fst us) = mset (map fst ys)" using assms by simp
  then show "sum_list (map fst (xs @ us)) = sum_list (map fst (xs @ ys))" by (metis map_append sum_list_append sum_mset_sum_list)
  show "window_min (xs @ us) = window_min (xs @ ys)" "window_max (xs @ us) = window_max (xs @ ys)"
    "window_drop (xs @ us) = window_drop (xs @ ys)"
    by (simp_all add: window_min_def window_max_def window_drop_def fold_min_eq fold_max_eq s list_ex_iff)
qed

text \<open>
  C22. Concurrent additions to an average window lose nothing: however the atomic accesses of any
  number of threads in \<^verbatim>\<open>AddSample\<close> interleave, with spurious failures of the weak exchanges,
  once all have returned the window is exactly what adding the samples one after the other
  gives; and from every state on the way all threads can be run to their end.
\<close>

theorem average_concurrent_adds:
  assumes "average_holds xs w" and "samples_ok (xs @ ys)"
    and "(add_step Average_atomics)\<^sup>*\<^sup>* (adding_init w ys) s"
  shows "(all_done s \<longrightarrow> window_add Average_ops ys w = Inr (ad_window s))
    \<and> (\<exists>s'. (add_step Average_atomics)\<^sup>*\<^sup>* s s' \<and> all_done s')"
proof -
  have "average_threads.adding_inv xs ys (adding_init w ys)"
    using average_threads.init_inv assms(1,2) by (simp add: average_core_holds samples_ok_def)
  then have inv: "average_threads.adding_inv xs ys s" by (rule average_threads.reach_inv [OF assms(3)])
  have "window_add Average_ops ys w = Inr (ad_window s)" if fin: "all_done s"
  proof -
    obtain us where us: "mset us = mset ys" "average_core (xs @ us) {} (ad_window s)"
        "WA_extremes Average_atomics (ad_window s)
          = \<lparr>ex_min = window_min (xs @ ys), ex_max = window_max (xs @ ys), ex_drop = window_drop (xs @ ys)\<rparr>"
      using average_threads.done_core [OF inv fin] by blast
    then have "average_holds (xs @ us) (ad_window s)" by (simp add: average_core_holds window_perm [OF us(1)])
    then have "average_holds (xs @ ys) (ad_window s)"
      unfolding average_holds_def length_append by (simp only: window_perm [OF us(1)])
    then show ?thesis
      using average.window_add_holds [OF _ assms(1,2)] by (auto simp: average_holds_def)
  qed
  then show ?thesis using average_threads.all_finish [OF inv] by blast
qed

theorem average_concurrent_adds_witness:
  "\<exists>s. (add_step Average_atomics)\<^sup>*\<^sup>* (adding_init Average_new [(7, 1, False), (5, 2, True)]) s \<and> all_done s
     \<and> ad_window s = \<lparr>aw_sample_count = 2, aw_sum_rtt_ns = 12, aw_min_rtt_ns = 5, aw_max_inflight = 2, aw_did_drop = True\<rparr>"
proof -
  let ?ys = "[(7, 1, False), (5, 2, True)]" and ?s = "adding_init Average_new [(7, 1, False), (5, 2, True)]"
  have h: "average_holds [] Average_new" "samples_ok ([] @ ?ys)"
    by (simp_all add: average_holds_def Average_new_def samples_ok_def is_int64_def is_int32_def)
  obtain s where s: "(add_step Average_atomics)\<^sup>*\<^sup>* ?s s" "all_done s"
    using average_concurrent_adds [OF h, of ?s] by blast
  have "window_add Average_ops ?ys Average_new = Inr (ad_window s)" using average_concurrent_adds [OF h s(1)] s(2) by blast
  then show ?thesis using s
    by (intro exI [of _ s])
       (simp add: Average_ops_def Average_AddSample_def Average_new_def Let_def is_int32_def is_int64_def)
qed

text \<open>
  C34. Concurrent additions to a percentile window give the state some order of the samples gives:
  after any interleaving, once all threads have returned, there is an order of the new samples
  such that the window holds the old samples followed by the new ones in that order, and it
  reports the percentile of those among them that fit the array.
\<close>

theorem percentile_concurrent_adds:
  assumes "percentile_ok w" and "percentile_holds xs w" and "samples_ok (xs @ ys)"
    and "(add_step Percentile_atomics)\<^sup>*\<^sup>* (adding_init w ys) s" and "all_done s"
  shows "\<exists>us. mset us = mset ys \<and> percentile_holds (xs @ us) (ad_window s)
    \<and> Percentile_TrackedRttNs (ad_window s) = Inr (percentile_of (ad_window s) (xs @ us))"
proof -
  have "percentile_threads.adding_inv xs ys (adding_init w ys)"
    using percentile_threads.init_inv assms(1-3) by (simp add: percentile_core_holds samples_ok_def)
  then have inv: "percentile_threads.adding_inv xs ys s" by (rule percentile_threads.reach_inv [OF assms(4)])
  obtain us where us: "mset us = mset ys" "percentile_core (xs @ us) {} (ad_window s)"
      "WA_extremes Percentile_atomics (ad_window s)
        = \<lparr>ex_min = window_min (xs @ ys), ex_max = window_max (xs @ ys), ex_drop = window_drop (xs @ ys)\<rparr>"
    using percentile_threads.done_core [OF inv assms(5)] by blast
  have ok: "percentile_ok (ad_window s)" using us(2) by (simp add: percentile_core_def)
  have h: "percentile_holds (xs @ us) (ad_window s)"
    using us by (simp add: percentile_core_holds [OF ok] window_perm [OF us(1)])
  have "int (length (xs @ us)) \<le> INT_MAX" using assms(3) window_perm(5) [OF us(1)] by (simp add: samples_ok_def)
  then show ?thesis using percentile_tracked_of [OF ok h] us(1) h by blast
qed

text \<open>The median over at most two samples.\<close>

definition example_percentile :: percentile_window where
  "example_percentile = \<lparr>pw_percentile = Fin (1/2), pw_max_samples = 2, pw_rtts = [0, 0], pw_sample_count = 0,
     pw_min_rtt_ns = INT64_MAX, pw_max_inflight = 0, pw_did_drop = False\<rparr>"

lemma example_percentile_ok: "percentile_ok example_percentile" "percentile_holds [] example_percentile"
  by (simp_all add: example_percentile_def percentile_ok_def percentile_holds_def is_int32_def exI [of _ "1/2"])

theorem percentile_concurrent_adds_witness:
  "\<exists>s us. (add_step Percentile_atomics)\<^sup>*\<^sup>* (adding_init example_percentile [(7, 1, False), (5, 2, True)]) s \<and> all_done s
     \<and> mset us = {#(7, 1, False), (5, 2, True)#} \<and> percentile_holds us (ad_window s)"
proof -
  let ?ys = "[(7, 1, False), (5, 2, True)] :: sample list"
  have ok: "samples_ok ([] @ ?ys)" by (simp add: samples_ok_def is_int64_def is_int32_def)
  have "percentile_threads.adding_inv [] ?ys (adding_init example_percentile ?ys)"
    using percentile_threads.init_inv example_percentile_ok by (simp add: percentile_core_holds)
  then obtain s where s: "(add_step Percentile_atomics)\<^sup>*\<^sup>* (adding_init example_percentile ?ys) s" "all_done s"
    using percentile_threads.all_finish by blast
  obtain us where us: "mset us = mset ?ys" "percentile_holds us (ad_window s)"
    using percentile_concurrent_adds [OF example_percentile_ok ok s] by auto
  then show ?thesis using s by auto
qed

text \<open>
  C38. A boundary between the two writes reads the previous window: if a window held samples, was
  reset, and the first thread of the next window has reserved its index but not stored its
  round-trip time yet, the percentile window reports the round-trip time of the first sample of
  the previous window, whatever the thread is about to store.
\<close>

theorem percentile_reserved_entry_stale:
  assumes "percentile_ok w" and "percentile_holds ((r, i, d) # xs) w"
    and "add_step Percentile_atomics (adding_init (Percentile_Reset w) [x]) s"
  shows "Percentile_TrackedRttNs (ad_window s) = Inr r \<and> SW_SampleCount Percentile_ops (ad_window s) = 1"
proof -
  have s: "ad_window s = (Percentile_Reset w)\<lparr>pw_sample_count := 1\<rparr>"
    using assms(3)
    by (auto elim!: add_step_E simp: adding_init_def Percentile_atomics_def Percentile_Reset_def is_int32_def)
  have len: "0 < length (pw_rtts w)" using assms(1) by (auto simp: percentile_ok_def)
  have "take (min (length ((r, i, d) # xs)) (length (pw_rtts w))) (pw_rtts w)
      = take (min (length ((r, i, d) # xs)) (length (pw_rtts w))) (map fst ((r, i, d) # xs))"
    using assms(2) by (simp add: percentile_holds_def Let_def)
  then have "pw_rtts w ! 0 = r" using len by (cases "pw_rtts w") simp_all
  define v where "v = WA_put Percentile_atomics
    \<lparr>ex_min = window_min [(r, i, d)], ex_max = window_max [(r, i, d)], ex_drop = window_drop [(r, i, d)]\<rparr> (ad_window s)"
  have "percentile_core [(r, i, d)] {} (ad_window s)"
    using assms(1) s \<open>pw_rtts w ! 0 = r\<close> by (simp add: percentile_ok_def percentile_core_def Percentile_Reset_def)
  then have ok: "percentile_ok v" and h: "percentile_holds [(r, i, d)] v"
    using percentile_threads.put [of "[(r, i, d)]" "{}" "ad_window s"] percentile_core_holds [of v]
    by (auto simp: v_def percentile_core_def)
  obtain p where p: "pw_percentile v = Fin p" using ok by (auto simp: percentile_ok_def)
  have "0 < length (pw_rtts v)" using ok by (auto simp: percentile_ok_def)
  then have "Percentile_TrackedRttNs v = Inr r"
    using percentile_tracked [OF ok h p] by (simp add: Let_def take_Cons')
  moreover have "Percentile_TrackedRttNs (ad_window s) = Percentile_TrackedRttNs v"
    by (simp add: Percentile_TrackedRttNs_def v_def Percentile_atomics_def Let_def)
  ultimately show ?thesis using s by (simp add: Percentile_ops_def)
qed

theorem percentile_reserved_entry_stale_witness:
  "\<exists>s. add_step Percentile_atomics (adding_init (Percentile_Reset (example_percentile\<lparr>pw_rtts := [900, 0], pw_sample_count := 1,
        pw_min_rtt_ns := 900, pw_max_inflight := 3\<rparr>)) [(5, 1, False)]) s
     \<and> Percentile_TrackedRttNs (ad_window s) = Inr 900"
proof -
  let ?w = "example_percentile\<lparr>pw_rtts := [900, 0], pw_sample_count := 1, pw_min_rtt_ns := 900, pw_max_inflight := 3\<rparr>"
  let ?s = "adding_init (Percentile_Reset ?w) [(5, 1, False)]"
  have h: "percentile_ok ?w" "percentile_holds [(900, 3, False)] ?w"
    by (simp_all add: example_percentile_def percentile_ok_def percentile_holds_def is_int32_def window_min_def
        window_max_def window_drop_def exI [of _ "1/2"])
  obtain s where "add_step Percentile_atomics ?s s"
    using add_step.act [of 0 ?s "(5, 1, False)" AtCount Percentile_atomics]
    by (fastforce simp: adding_init_def Percentile_atomics_def)
  then show ?thesis using percentile_reserved_entry_stale [OF h] by blast
qed

end
