(* ===== verification/Windowed_Threads.thy ===== *)
theory Windowed_Threads
  imports Windowed
begin

section \<open>Windowed: threads at the window boundary\<close>

text \<open>
  \<^verbatim>\<open>Windowed\<close> runs \<^verbatim>\<open>WindowedLimit::OnSample\<close> alone. Here any number of request threads run it
  at the same time, one step for each access of the active index, the due time, the boundary
  mutex or the delegate. The slots are not tracked, which allows every behaviour they can show:
  a thread that folds its sample in, and the boundary thread that resets a slot, may leave any
  slots behind, and the aggregate the boundary thread reads may be anything. (What threads that
  add to one slot do to each other is the subject of \<^verbatim>\<open>Window_Threads\<close>.) \<open>sw_drives\<close> keeps the
  calls of the delegate, latest first; the program does not store it.
\<close>

subsection \<open>Where a thread is\<close>

record aggregate =
  ag_candidate_rtt :: int
  ag_tracked_rtt :: int
  ag_max_inflight :: int
  ag_sample_count :: int
  ag_did_drop :: bool

text \<open>
  The first two numbers are the start and the end time of the request. \<open>Entered\<close>: before the
  load of the active index; \<open>Folding\<close>: in \<^verbatim>\<open>AddSample\<close> of the slot with that index; \<open>CheckDue\<close>:
  before the first look at the due time; \<open>AtTryLock\<close>. With the mutex held: \<open>Recheck\<close>: before the
  second look at the due time; \<open>Reading\<close>: before the aggregate of the old slot is read;
  \<open>Flipping\<close>, \<open>Scheduling\<close>, \<open>Driving\<close>: before the stores of the active index and of the due time
  and the call of the delegate; \<open>Clearing\<close>: before the reset of the old slot; \<open>Unlocking\<close>.
\<close>

datatype sampler = Away | Entered int int | Folding int int int | CheckDue int int | AtTryLock int int
  | Recheck int int | Reading int int int | Flipping int int int aggregate | Scheduling int int int aggregate
  | Driving int int int aggregate | Clearing int | Unlocking

type_synonym drive = "int \<times> (int \<times> int \<times> int \<times> bool)"

record ('l, 'w) sampling =
  sw_limit :: "('l, 'w) windowed"
  sw_threads :: "sampler list"
  sw_drives :: "drive list"

definition window_ready :: "aggregate \<Rightarrow> ('l, 'w) windowed \<Rightarrow> bool" where
  "window_ready ag s \<longleftrightarrow> ag_candidate_rtt ag \<noteq> INT64_MAX \<and> wl_window_size s \<le> ag_sample_count ag"

text \<open>A step of one thread, on the limit, the place and the log of the drives. The lock may be
  refused although it is free.\<close>

inductive sampler_step ::
  "('l, 'cb) limit_ops \<Rightarrow> ('l, 'w) windowed \<times> sampler \<times> drive list \<Rightarrow> ('l, 'w) windowed \<times> sampler \<times> drive list \<Rightarrow> bool"
  for dops :: "('l, 'cb) limit_ops" where
  enter: "\<not> r < wl_min_rtt_threshold_ns s \<Longrightarrow> is_int64 (t + r) \<Longrightarrow>
    sampler_step dops (s, Away, ds) (s, Entered t (t + r), ds)"
| index: "sampler_step dops (s, Entered t e, ds) (s, Folding t e (wl_active_index s), ds)"
| fold: "sampler_step dops (s, Folding t e idx, ds) (s\<lparr>wl_slots := slots\<rparr>, CheckDue t e, ds)"
| early: "e \<le> wl_next_update_time_ns s \<Longrightarrow> sampler_step dops (s, CheckDue t e, ds) (s, Away, ds)"
| due: "wl_next_update_time_ns s < e \<Longrightarrow> sampler_step dops (s, CheckDue t e, ds) (s, AtTryLock t e, ds)"
| refused: "sampler_step dops (s, AtTryLock t e, ds) (s, Away, ds)"
| locked: "\<not> wl_boundary_mu s \<Longrightarrow>
    sampler_step dops (s, AtTryLock t e, ds) (s\<lparr>wl_boundary_mu := True\<rparr>, Recheck t e, ds)"
| overtaken: "e \<le> wl_next_update_time_ns s \<Longrightarrow> sampler_step dops (s, Recheck t e, ds) (s, Unlocking, ds)"
| closing: "wl_next_update_time_ns s < e \<Longrightarrow>
    sampler_step dops (s, Recheck t e, ds) (s, Reading t e (wl_active_index s), ds)"
| read: "sampler_step dops (s, Reading t e old_idx, ds) (s, Flipping t e old_idx ag, ds)"
| flip: "sampler_step dops (s, Flipping t e old_idx ag, ds)
    (s\<lparr>wl_active_index := 1 - old_idx\<rparr>, Scheduling t e old_idx ag, ds)"
| schedule: "Windowed_adaptive_ns (ag_candidate_rtt ag) s = Inr adaptive_ns \<Longrightarrow> is_int64 (e + adaptive_ns) \<Longrightarrow>
    sampler_step dops (s, Scheduling t e old_idx ag, ds)
      (s\<lparr>wl_next_update_time_ns := e + adaptive_ns\<rparr>,
       if window_ready ag s then Driving t e old_idx ag else Clearing old_idx, ds)"
| drive: "OnSample dops t (ag_tracked_rtt ag) (ag_max_inflight ag) (ag_did_drop ag) (wl_delegate s) = Inr (l, cs) \<Longrightarrow>
    sampler_step dops (s, Driving t e old_idx ag, ds)
      (s\<lparr>wl_delegate := l\<rparr>, Clearing old_idx,
       (e, (t, ag_tracked_rtt ag, ag_max_inflight ag, ag_did_drop ag)) # ds)"
| clear: "sampler_step dops (s, Clearing old_idx, ds) (s\<lparr>wl_slots := slots\<rparr>, Unlocking, ds)"
| unlock: "sampler_step dops (s, Unlocking, ds) (s\<lparr>wl_boundary_mu := False\<rparr>, Away, ds)"

inductive sampling_step :: "('l, 'cb) limit_ops \<Rightarrow> ('l, 'w) sampling \<Rightarrow> ('l, 'w) sampling \<Rightarrow> bool"
  for dops :: "('l, 'cb) limit_ops" where
  thread: "k < length (sw_threads w) \<Longrightarrow>
    sampler_step dops (sw_limit w, sw_threads w ! k, sw_drives w) (s, p, ds) \<Longrightarrow>
    sampling_step dops w \<lparr>sw_limit = s, sw_threads = (sw_threads w)[k := p], sw_drives = ds\<rparr>"

inductive_cases sampler_step_E: "sampler_step dops (s, p, ds) (s', p', ds')"
inductive_cases sampling_step_E: "sampling_step dops w w'"

definition sampling_init :: "('l, 'w) windowed \<Rightarrow> nat \<Rightarrow> ('l, 'w) sampling" where
  "sampling_init s n = \<lparr>sw_limit = s, sw_threads = replicate n Away, sw_drives = []\<rparr>"

subsection \<open>Mutual exclusion, and what the holder of the mutex knows\<close>

fun critical :: "sampler \<Rightarrow> bool" where
  "critical Away = False"
| "critical (Entered t e) = False"
| "critical (Folding t e i) = False"
| "critical (CheckDue t e) = False"
| "critical (AtTryLock t e) = False"
| "critical p = True"

text \<open>Every drive so far was made in a window that is over: \<open>behind due ds\<close>.\<close>

definition behind :: "int \<Rightarrow> int \<Rightarrow> drive list \<Rightarrow> bool" where
  "behind lo due ds \<longleftrightarrow> (\<forall>d \<in> set ds. fst d + lo \<le> due)"

fun holder_ok :: "('l, 'w) windowed \<Rightarrow> drive list \<Rightarrow> sampler \<Rightarrow> bool" where
  "holder_ok s ds (Folding t e i) = (i \<in> {0, 1})"
| "holder_ok s ds (Reading t e i) = (i \<in> {0, 1} \<and> wl_next_update_time_ns s < e)"
| "holder_ok s ds (Flipping t e i ag) = (i \<in> {0, 1} \<and> wl_next_update_time_ns s < e)"
| "holder_ok s ds (Scheduling t e i ag) = (i \<in> {0, 1} \<and> wl_next_update_time_ns s < e)"
| "holder_ok s ds (Driving t e i ag) = (i \<in> {0, 1} \<and> e + wl_min_window_time_ns s \<le> wl_next_update_time_ns s
     \<and> behind (wl_min_window_time_ns s) (e - 1) ds)"
| "holder_ok s ds (Clearing i) = (i \<in> {0, 1})"
| "holder_ok s ds p = True"

text \<open>Drives in order, latest first: each more than the minimum window after the one before.\<close>

definition spaced :: "int \<Rightarrow> drive list \<Rightarrow> bool" where
  "spaced lo ds \<longleftrightarrow> sorted_wrt (\<lambda>later earlier. fst earlier + lo < fst later) ds"

definition sampling_inv :: "('l, 'cb) limit_ops \<Rightarrow> ('l, 'w) windowed \<Rightarrow> ('l, 'w) sampling \<Rightarrow> bool" where
  "sampling_inv dops s0 w \<longleftrightarrow>
     (let s = sw_limit w in same_config s s0 \<and> wl_active_index s \<in> {0, 1}
       \<and> tally critical (sw_threads w) = of_bool (wl_boundary_mu s)
       \<and> list_all (holder_ok s (sw_drives w)) (sw_threads w)
       \<and> behind (wl_min_window_time_ns s0) (wl_next_update_time_ns s) (sw_drives w)
       \<and> spaced (wl_min_window_time_ns s0) (sw_drives w)
       \<and> (\<exists>cs. feed dops (rev (map snd (sw_drives w))) (wl_delegate s0) = Inr (wl_delegate s, cs)))"

lemma feed_snoc:
  "feed dops xs l = Inr (l', cs) \<Longrightarrow> OnSample dops t r i d l' = Inr (l'', cs') \<Longrightarrow>
     \<exists>cs''. feed dops (xs @ [(t, r, i, d)]) l = Inr (l'', cs'')"
  by (induction xs arbitrary: l cs) (auto simp: bind_res_Inr split: prod.splits)

lemma adaptive_at_least:
  assumes "Windowed_adaptive_ns c s = Inr n" and "same_config s s0" and "wl_config_ok s0"
  shows "wl_min_window_time_ns s0 \<le> n"
  using assms by (auto simp: Windowed_adaptive_ns_def bind_res_Inr same_config_def wl_config_ok_def split: if_splits)

lemma behind_later: "behind lo a ds \<Longrightarrow> a \<le> b \<Longrightarrow> behind lo b ds"
  by (force simp: behind_def)

text \<open>What one step of one thread does, if the thread holds the mutex exactly when it is in the
  critical section.\<close>

lemma sampler_step_ok:
  assumes "sampler_step dops (s, p, ds) (s', p', ds')" and "same_config s s0" and "wl_config_ok s0"
    and "wl_active_index s \<in> {0, 1}" and "holder_ok s ds p" and "critical p \<Longrightarrow> wl_boundary_mu s"
    and "behind (wl_min_window_time_ns s0) (wl_next_update_time_ns s) ds" and "spaced (wl_min_window_time_ns s0) ds"
    and "\<exists>cs. feed dops (rev (map snd ds)) (wl_delegate s0) = Inr (wl_delegate s, cs)"
  shows "same_config s' s0 \<and> wl_active_index s' \<in> {0, 1} \<and> holder_ok s' ds' p'
    \<and> of_bool (critical p') - of_bool (critical p) = (of_bool (wl_boundary_mu s') - of_bool (wl_boundary_mu s) :: int)
    \<and> (critical p \<or> wl_next_update_time_ns s' = wl_next_update_time_ns s \<and> ds' = ds)
    \<and> behind (wl_min_window_time_ns s0) (wl_next_update_time_ns s') ds' \<and> spaced (wl_min_window_time_ns s0) ds'
    \<and> (\<exists>cs. feed dops (rev (map snd ds')) (wl_delegate s0) = Inr (wl_delegate s', cs))"
  using assms(1)
proof cases
  case (schedule ag adaptive_ns e t old_idx)
  have n: "0 < wl_min_window_time_ns s0" "wl_min_window_time_ns s0 \<le> adaptive_ns" "wl_min_window_time_ns s = wl_min_window_time_ns s0"
    using adaptive_at_least [OF schedule(5) assms(2,3)] assms(2,3) by (auto simp: same_config_def wl_config_ok_def)
  have d: "wl_next_update_time_ns s < e" "old_idx \<in> {0, 1}" using assms(5) schedule by auto
  have b: "behind (wl_min_window_time_ns s0) (e - 1) ds" "behind (wl_min_window_time_ns s0) (e + adaptive_ns) ds"
    using behind_later [OF assms(7)] d n by auto
  show ?thesis
    using schedule assms(2,4,6,8,9) b d n by (auto simp: same_config_def)
next
  case (drive t ag l cs e old_idx)
  have m: "wl_min_window_time_ns s = wl_min_window_time_ns s0" using assms(2) by (simp add: same_config_def)
  obtain cs0 where f: "feed dops (rev (map snd ds)) (wl_delegate s0) = Inr (wl_delegate s, cs0)" using assms(9) by blast
  from feed_snoc [OF f drive(5)]
  have f': "\<exists>cs. feed dops (rev (map snd ds')) (wl_delegate s0) = Inr (wl_delegate s', cs)" using drive by simp
  have "holder_ok s ds (Driving t e old_idx ag)" using assms(5) drive by simp
  then have "behind (wl_min_window_time_ns s0) (e - 1) ds" "e + wl_min_window_time_ns s0 \<le> wl_next_update_time_ns s"
    "old_idx \<in> {0, 1}" using m by auto
  then have "behind (wl_min_window_time_ns s0) (wl_next_update_time_ns s') ds'" "spaced (wl_min_window_time_ns s0) ds'"
    using drive assms(7,8) by (auto simp: behind_def spaced_def)
  then show ?thesis using f' drive assms(2,4,6) \<open>old_idx \<in> {0, 1}\<close> by (auto simp: same_config_def)
qed (use assms(2,4-9) in \<open>auto simp: same_config_def\<close>)

lemma holder_ok_outside: "\<not> critical p \<Longrightarrow> holder_ok s' ds' p = holder_ok s ds p"
  by (cases p) auto

lemma holder_ok_cong:
  assumes "wl_next_update_time_ns s' = wl_next_update_time_ns s" and "wl_min_window_time_ns s' = wl_min_window_time_ns s"
  shows "holder_ok s' ds p = holder_ok s ds p"
  using assms by (cases p) auto

lemma others_ok:
  assumes "list_all (holder_ok s ds) ts" and "k < length ts" and "tally critical ts \<le> 1" and "holder_ok s' ds' p"
    and "critical (ts ! k) \<or> wl_next_update_time_ns s' = wl_next_update_time_ns s \<and> ds' = ds"
    and "wl_min_window_time_ns s' = wl_min_window_time_ns s"
  shows "list_all (holder_ok s' ds') (ts[k := p])"
  unfolding list_all_length
proof (intro allI impI)
  fix j
  assume j: "j < length (ts[k := p])"
  have ok: "holder_ok s ds (ts ! j)" using assms(1) j by (simp add: list_all_length)
  consider "j = k" | "j \<noteq> k" "\<not> critical (ts ! j)" | "j \<noteq> k" "\<not> critical (ts ! k)"
    using tally_alone [OF assms(3,2), of j] j by fastforce
  then show "holder_ok s' ds' (ts[k := p] ! j)"
  proof cases
    case 2
    then show ?thesis using ok holder_ok_outside [OF 2(2), of s' ds' s ds] by simp
  next
    case 3
    then show ?thesis using ok assms(5,6) holder_ok_cong [of s' s ds] by simp
  qed (use assms(2,4) in simp)
qed

lemma sampling_step_inv:
  assumes "sampling_step dops w w'" and inv: "sampling_inv dops s0 w" and "wl_config_ok s0"
  shows "sampling_inv dops s0 w'"
  using assms(1)
proof cases
  case (thread k s p ds)
  let ?s = "sw_limit w" and ?ts = "sw_threads w"
  have I: "same_config ?s s0" "wl_active_index ?s \<in> {0, 1}" "tally critical ?ts = of_bool (wl_boundary_mu ?s)"
      "list_all (holder_ok ?s (sw_drives w)) ?ts"
      "behind (wl_min_window_time_ns s0) (wl_next_update_time_ns ?s) (sw_drives w)"
      "spaced (wl_min_window_time_ns s0) (sw_drives w)"
      "\<exists>cs. feed dops (rev (map snd (sw_drives w))) (wl_delegate s0) = Inr (wl_delegate ?s, cs)"
    using inv by (auto simp: sampling_inv_def Let_def)
  have h: "holder_ok ?s (sw_drives w) (?ts ! k)" using I(4) thread(2) by (simp add: list_all_length)
  have m: "wl_boundary_mu ?s" if "critical (?ts ! k)" using tally_pos [OF thread(2), of critical, OF that] I(3) by (cases "wl_boundary_mu ?s") auto
  note ok = sampler_step_ok [OF thread(3) I(1) assms(3) I(2) h m I(5-7)]
  have "list_all (holder_ok s ds) (?ts[k := p])"
    using others_ok [OF I(4) thread(2), of s ds p] ok I(1,3) by (auto simp: same_config_def)
  then show ?thesis using ok I(3) thread(1,2) by (simp add: sampling_inv_def Let_def)
qed

lemma sampling_reach_inv:
  assumes "(sampling_step dops)\<^sup>*\<^sup>* (sampling_init s n) w" and "wl_config_ok s" and "wl_active_index s \<in> {0, 1}"
    and "\<not> wl_boundary_mu s"
  shows "sampling_inv dops s w"
  using assms(1)
proof (induction rule: rtranclp_induct)
  case base
  show ?case using assms(3,4)
    by (simp add: sampling_inv_def sampling_init_def Let_def same_config_def behind_def spaced_def list_all_length)
next
  case (step w w')
  then show ?case using sampling_step_inv assms(2) by blast
qed

text \<open>A thread that runs alone for a while.\<close>

lemma sampler_run:
  assumes "(sampler_step dops)\<^sup>*\<^sup>* (s, p, ds) (s', p', ds')" and "k < length ts"
  shows "(sampling_step dops)\<^sup>*\<^sup>* \<lparr>sw_limit = s, sw_threads = ts[k := p], sw_drives = ds\<rparr>
    \<lparr>sw_limit = s', sw_threads = ts[k := p'], sw_drives = ds'\<rparr>"
  using assms(1)
proof (induction "(s', p', ds')" arbitrary: s' p' ds' rule: rtranclp_induct)
  case (step y)
  obtain s1 p1 ds1 where y: "y = (s1, p1, ds1)" by (cases y)
  have "sampling_step dops \<lparr>sw_limit = s1, sw_threads = ts[k := p1], sw_drives = ds1\<rparr>
      \<lparr>sw_limit = s', sw_threads = ts[k := p'], sw_drives = ds'\<rparr>"
    using sampling_step.thread [of k "\<lparr>sw_limit = s1, sw_threads = ts[k := p1], sw_drives = ds1\<rparr>" dops s' p' ds']
      step(2) y assms(2) by simp
  then show ?case using step(3) [OF y] by simp
qed simp

subsection \<open>Properties\<close>

lemma Windowed_Build_start:
  assumes "Windowed_Build b l = Inr s"
  shows "wl_config_ok s" and "wl_active_index s = 0" and "\<not> wl_boundary_mu s" and "wl_delegate s = l"
    and "wl_min_window_time_ns s = wb_min_window_time_ns b"
  using assms by (auto simp: Windowed_Build_def Windowed_new_def wl_config_ok_def Let_def split: if_splits)

text \<open>
  C9. Under contention, too, the algorithm is driven once per window and by one thread at a time:
  in every interleaving of any number of threads in \<^verbatim>\<open>OnSample\<close>, whatever their clocks say and
  whatever the slots hold, at most one thread is between lock and unlock, the delegate is in the
  state its samples give one after the other, any two of them come from requests that ended more
  than the minimum window time apart, and the active index is that of one of the two slots.
\<close>

theorem windowed_drives_serialised:
  assumes "Windowed_Build b l = Inr s" and "(sampling_step dops)\<^sup>*\<^sup>* (sampling_init s n) w"
  shows "tally critical (sw_threads w) = of_bool (wl_boundary_mu (sw_limit w))
    \<and> (\<exists>cs. feed dops (rev (map snd (sw_drives w))) l = Inr (wl_delegate (sw_limit w), cs))
    \<and> sorted_wrt (\<lambda>later earlier. fst earlier + wb_min_window_time_ns b < fst later) (sw_drives w)
    \<and> wl_active_index (sw_limit w) \<in> {0, 1}"
  using sampling_reach_inv [OF assms(2)] Windowed_Build_start [OF assms(1)]
  by (simp add: sampling_inv_def Let_def spaced_def)

text \<open>An example: windows of at least one sample over a settable limit.\<close>

definition example_windowed :: "(nat abstract_limit, sample_window) windowed" where
  "example_windowed = Windowed_new (SettableLimit_StartingAt 10) (DynAverage Average_new) (DynAverage Average_new)
     1000000000 1000000000 1 0"

definition example_aggregate :: aggregate where
  "example_aggregate = \<lparr>ag_candidate_rtt = 5, ag_tracked_rtt = 5, ag_max_inflight = 1, ag_sample_count = 1, ag_did_drop = False\<rparr>"

abbreviation example_dops :: "(nat abstract_limit, nat) limit_ops" where
  "example_dops \<equiv> SettableLimit_ops"

lemma example_waits:
  assumes "0 < r" and "is_int64 r"
  shows "(sampler_step example_dops)\<^sup>*\<^sup>* (example_windowed, Away, []) (example_windowed, AtTryLock 0 r, [])"
proof -
  let ?s = example_windowed
  have "(sampler_step example_dops)\<^sup>*\<^sup>* (?s, Away, []) (?s, Entered 0 r, [])"
    using sampler_step.enter [of r ?s 0 example_dops "[]"] assms
    by (intro r_into_rtranclp) (simp add: example_windowed_def Windowed_new_def)
  also have "sampler_step example_dops (?s, Entered 0 r, []) (?s, Folding 0 r 0, [])"
    using sampler_step.index [of example_dops ?s 0 r "[]"] by (simp add: example_windowed_def Windowed_new_def)
  also have "sampler_step example_dops (?s, Folding 0 r 0, []) (?s, CheckDue 0 r, [])"
    using sampler_step.fold [of example_dops ?s 0 r 0 "[]" "wl_slots ?s"] by simp
  also have "sampler_step example_dops (?s, CheckDue 0 r, []) (?s, AtTryLock 0 r, [])"
    using sampler_step.due [of ?s r example_dops 0 "[]"] assms by (simp add: example_windowed_def Windowed_new_def)
  finally show ?thesis .
qed

lemma example_closes:
  "(sampler_step example_dops)\<^sup>*\<^sup>* (example_windowed, AtTryLock 0 5, [])
     (example_windowed\<lparr>wl_active_index := 1, wl_next_update_time_ns := 1000000005\<rparr>, Away, [(5, (0, 5, 1, False))])"
proof -
  let ?s = example_windowed and ?ag = example_aggregate
  let ?m = "?s\<lparr>wl_boundary_mu := True\<rparr>"
  let ?f = "?m\<lparr>wl_active_index := 1\<rparr>"
  let ?n = "?f\<lparr>wl_next_update_time_ns := 1000000005\<rparr>" and ?ds = "[(5, (0, 5, 1, False))] :: drive list"
  note ev = example_windowed_def Windowed_new_def
  have "(sampler_step example_dops)\<^sup>*\<^sup>* (?s, AtTryLock 0 5, []) (?m, Recheck 0 5, [])"
    using sampler_step.locked [of ?s example_dops 0 5 "[]"] by (intro r_into_rtranclp) (simp add: ev)
  also have "sampler_step example_dops (?m, Recheck 0 5, []) (?m, Reading 0 5 0, [])"
    using sampler_step.closing [of ?m 5 example_dops 0 "[]"] by (simp add: ev)
  also have "sampler_step example_dops (?m, Reading 0 5 0, []) (?m, Flipping 0 5 0 ?ag, [])" by (rule sampler_step.read)
  also have "sampler_step example_dops (?m, Flipping 0 5 0 ?ag, []) (?f, Scheduling 0 5 0 ?ag, [])"
    using sampler_step.flip [of example_dops ?m 0 5 0 ?ag "[]"] by simp
  also have "sampler_step example_dops (?f, Scheduling 0 5 0 ?ag, []) (?n, Driving 0 5 0 ?ag, [])"
    using sampler_step.schedule [of ?ag ?f 1000000000 5 example_dops 0 0 "[]"]
    by (simp add: ev example_aggregate_def Windowed_adaptive_ns_def window_ready_def chk64_ok is_int64_def)
  also have "sampler_step example_dops (?n, Driving 0 5 0 ?ag, []) (?n, Clearing 0, ?ds)"
    using sampler_step.drive [of example_dops 0 ?ag ?n "SettableLimit_StartingAt 10" "[]" 5 0 "[]"]
    by (simp add: ev example_aggregate_def SettableLimit_ops_def SettableLimit_Update_def AbstractLimit_ops_def
        abstract_limit_defs SettableLimit_StartingAt_def)
  also have "sampler_step example_dops (?n, Clearing 0, ?ds) (?n, Unlocking, ?ds)"
    using sampler_step.clear [of example_dops ?n 0 ?ds "wl_slots ?n"] by simp
  also have "sampler_step example_dops (?n, Unlocking, ?ds) (?n\<lparr>wl_boundary_mu := False\<rparr>, Away, ?ds)"
    by (rule sampler_step.unlock)
  finally show ?thesis by (simp add: ev)
qed

text \<open>Two threads find the boundary crossed; the first closes the window, the second gets the
  mutex afterwards and finds the window closed.\<close>

theorem windowed_drives_serialised_witness:
  "\<exists>w. Windowed_Build (WindowSize 1 (MinRttThresholdNs 0 Windowed_Builder)) (SettableLimit_StartingAt 10 :: nat abstract_limit)
       = Inr example_windowed
     \<and> (sampling_step example_dops)\<^sup>*\<^sup>* (sampling_init example_windowed 2) w \<and> sw_threads w = [Away, Unlocking]
     \<and> sw_drives w = [(5, (0, 5, 1, False))] \<and> wl_boundary_mu (sw_limit w)"
proof -
  let ?s = example_windowed and ?ds = "[(5, (0, 5, 1, False))] :: drive list"
  let ?s1 = "?s\<lparr>wl_active_index := 1, wl_next_update_time_ns := 1000000005\<rparr>"
  let ?s2 = "?s1\<lparr>wl_boundary_mu := True\<rparr>"
  have b: "Windowed_Build (WindowSize 1 (MinRttThresholdNs 0 Windowed_Builder)) (SettableLimit_StartingAt 10) = Inr ?s"
    by (simp add: Windowed_Build_def WindowSize_def MinRttThresholdNs_def Windowed_Builder_def example_windowed_def)
  have "(sampler_step example_dops)\<^sup>*\<^sup>* (?s1, AtTryLock 0 6, ?ds) (?s2, Recheck 0 6, ?ds)"
    using sampler_step.locked [of ?s1 example_dops 0 6 ?ds]
    by (intro r_into_rtranclp) (simp add: example_windowed_def Windowed_new_def)
  also have "sampler_step example_dops (?s2, Recheck 0 6, ?ds) (?s2, Unlocking, ?ds)"
    by (rule sampler_step.overtaken) simp
  finally have late: "(sampler_step example_dops)\<^sup>*\<^sup>* (?s1, AtTryLock 0 6, ?ds) (?s2, Unlocking, ?ds)" .
  have "(sampling_step example_dops)\<^sup>*\<^sup>* (sampling_init ?s 2) \<lparr>sw_limit = ?s, sw_threads = [AtTryLock 0 5, Away], sw_drives = []\<rparr>"
    using sampler_run [OF example_waits [of 5], of 0 "[Away, Away]"] by (simp add: sampling_init_def numeral_2_eq_2 is_int64_def)
  also have "(sampling_step example_dops)\<^sup>*\<^sup>* \<dots> \<lparr>sw_limit = ?s, sw_threads = [AtTryLock 0 5, AtTryLock 0 6], sw_drives = []\<rparr>"
    using sampler_run [OF example_waits [of 6], of 1 "[AtTryLock 0 5, Away]"] by (simp add: is_int64_def)
  also have "(sampling_step example_dops)\<^sup>*\<^sup>* \<dots> \<lparr>sw_limit = ?s1, sw_threads = [Away, AtTryLock 0 6], sw_drives = ?ds\<rparr>"
    using sampler_run [OF example_closes, of 0 "[AtTryLock 0 5, AtTryLock 0 6]"] by simp
  also have "(sampling_step example_dops)\<^sup>*\<^sup>* \<dots> \<lparr>sw_limit = ?s2, sw_threads = [Away, Unlocking], sw_drives = ?ds\<rparr>"
    using sampler_run [OF late, of 1 "[Away, AtTryLock 0 6]"] by simp
  finally have r: "(sampling_step example_dops)\<^sup>*\<^sup>* (sampling_init ?s 2)
      \<lparr>sw_limit = ?s2, sw_threads = [Away, Unlocking], sw_drives = ?ds\<rparr>" .
  show ?thesis using windowed_drives_serialised [OF b r] b r by (intro exI conjI) auto
qed

end
