(* ===== verification/Codel_Dynamics.thy ===== *)
theory Codel_Dynamics
  imports Codel
begin

section \<open>The filter keeps dropping\<close>

text \<open>
  \<open>Codel\<close> shows that \<^verbatim>\<open>CodelFilter\<close> drops only under sustained overload. This theory shows the other
  half: as long as the sojourn times stay at or above the target, no interval passes without a
  drop. The schedule \<^verbatim>\<open>drop_next_\<close> is moved by \<open>interval / sqrt(count)\<close> from drop to drop, so the argument
  needs the order of the clock's readings and that the episode counter has not wrapped.
\<close>

subsection \<open>Times in order\<close>

text \<open>One more documented law of \<^verbatim>\<open>absl::Time\<close>: adding the same duration keeps the order.\<close>

locale absl_clock = absl_laws tm for tm :: "('t::linorder, 'd::linorder) absl_time" +
  assumes plus_shift: "t \<le> u \<Longrightarrow> time_plus tm t d \<le> time_plus tm u d"

interpretation ticks_clock: absl_clock ticks
  by unfold_locales (simp add: ticks_def)

lemma codel_run_append:
  assumes "codel_run tm (xs @ ys) s = (ds, s')"
  obtains s1 where "codel_run tm xs s = (take (length xs) ds, s1)" and "codel_run tm ys s1 = (drop (length xs) ds, s')"
  using assms
proof (induction xs arbitrary: s ds thesis)
  case Nil
  then show ?case by simp
next
  case (Cons x xs)
  obtain now enq where x: "x = (now, enq)" by (cases x)
  obtain d s2 ds2 where r: "ShouldDrop tm now enq s = (d, s2)" "codel_run tm (xs @ ys) s2 = (ds2, s')" "ds = d # ds2"
    using Cons.prems(2) by (auto simp: x Let_def split: prod.splits)
  obtain s1 where "codel_run tm xs s2 = (take (length xs) ds2, s1)" "codel_run tm ys s1 = (drop (length xs) ds2, s')"
    using Cons.IH [OF _ r(2)] by blast
  then show ?case using Cons.prems(1) r by (simp add: x)
qed

subsection \<open>The schedule never runs ahead\<close>

definition above_target :: "('t, 'd::linorder) absl_time \<Rightarrow> ('t, 'd) codel \<Rightarrow> 't \<times> 't \<Rightarrow> bool" where
  "above_target tm s x \<longleftrightarrow> cf_target s \<le> codel_sojourn tm (fst x) (snd x)"

text \<open>\<open>paced\<close>: what has been scheduled at time \<open>t\<close> is due within one interval, and the counters have not
  wrapped (\<open>n\<close> bounds the drops so far). \<open>due\<close>: the next overloaded call at or after \<open>D\<close> is dropped.\<close>

definition paced :: "('t::linorder, 'd) absl_time \<Rightarrow> 't \<Rightarrow> nat \<Rightarrow> ('t, 'd) codel \<Rightarrow> bool" where
  "paced tm t n s \<longleftrightarrow>
     (cf_first_above_time s = UnixEpoch tm \<or> cf_first_above_time s \<le> time_plus tm t (cf_interval s))
     \<and> (cf_dropping s \<longrightarrow> cf_drop_next s \<le> time_plus tm t (cf_interval s))
     \<and> cf_lastcount s \<le> cf_count s \<and> unat (cf_count s) \<le> n"

definition due :: "('t::linorder, 'd) absl_time \<Rightarrow> 't \<Rightarrow> ('t, 'd) codel \<Rightarrow> bool" where
  "due tm D s \<longleftrightarrow> cf_first_above_time s \<noteq> UnixEpoch tm \<and> cf_first_above_time s \<le> D
     \<and> (cf_dropping s \<longrightarrow> cf_drop_next s \<le> D)"

lemma due_drops:
  assumes "due tm D s" and "above_target tm s (now, enq)" and "ShouldDrop tm now enq s = (d, s')"
  shows "d \<or> now < D \<and> due tm D s'"
  using assms by (auto simp: due_def above_target_def ShouldDrop_def OkToDrop_def Let_def split: if_splits)

lemma due_run:
  assumes "codel_run tm xs s = (ds, s')" and "due tm D s" and "\<forall>x \<in> set xs. above_target tm s x"
    and "xs \<noteq> []" and "D \<le> fst (last xs)"
  shows "True \<in> set ds"
  using assms
proof (induction xs arbitrary: s ds)
  case Nil
  then show ?case by simp
next
  case (Cons x xs)
  obtain now enq where x: "x = (now, enq)" by (cases x)
  obtain d s2 ds2 where r: "ShouldDrop tm now enq s = (d, s2)" "codel_run tm xs s2 = (ds2, s')" "ds = d # ds2"
    using Cons.prems(1) by (auto simp: x Let_def split: prod.splits)
  have o: "\<forall>y \<in> set xs. above_target tm s2 y" "above_target tm s (now, enq)"
    using Cons.prems(3) ShouldDrop_config [OF r(1)] by (simp_all add: above_target_def x)
  from due_drops [OF Cons.prems(2) o(2) r(1)] show ?case
  proof
    assume "now < D \<and> due tm D s2"
    then show ?thesis using Cons.IH [OF r(2) _ o(1)] Cons.prems(5) r(3) by (cases "xs = []") (auto simp: x)
  qed (simp add: r(3))
qed

lemma word_delta:
  assumes "l \<le> (c :: 32 word)" and "unat c \<le> n"
  shows "unat (c - l) \<le> n"
  using assms by (simp add: unat_sub word_le_nat_alt)

lemma word_next:
  assumes "unat (c :: 32 word) \<le> n" and "Suc n < 2 ^ 32" and "l \<le> c"
  shows "c + 1 \<noteq> 0" and "unat (c + 1) \<le> Suc n" and "l \<le> c + 1"
proof -
  have u: "unat (c + 1) = Suc (unat c)" using assms(1,2) by (simp add: unat_word_ariths)
  show "c + 1 \<noteq> 0" "unat (c + 1) \<le> Suc n" "l \<le> c + 1" using u assms by (auto simp: word_le_nat_alt)
qed

context absl_clock
begin

lemma paced_scheduled:
  assumes "c \<noteq> 0" and "ZeroDuration tm < cf_interval s" and "t \<le> now"
  shows "ControlLaw tm t c s \<le> time_plus tm now (cf_interval s)"
proof -
  obtain x where x: "dsqrt (double_of_int (uint c)) = Fin x" "1 \<le> x" using control_law_root [OF assms(1)] by blast
  have "dur_div tm (cf_interval s) (Fin x) \<le> cf_interval s" using div_range [OF _ x(2)] assms(2) by simp
  then have "ControlLaw tm t c s \<le> time_plus tm t (cf_interval s)" by (simp add: ControlLaw_def x(1) plus_mono)
  also have "\<dots> \<le> time_plus tm now (cf_interval s)" by (rule plus_shift [OF assms(3)])
  finally show ?thesis .
qed

lemma paced_step:
  assumes p: "paced tm t n s" and t: "t \<le> now" and i: "ZeroDuration tm < cf_interval s" and n: "Suc n < 2 ^ 32"
    and r: "ShouldDrop tm now enq s = (d, s')"
  shows "paced tm now (Suc n) s'"
proof -
  have l: "cf_lastcount s \<le> cf_count s" "unat (cf_count s) \<le> n" using p by (simp_all add: paced_def)
  note w = word_next [OF l(2) n l(1)] and dl = word_delta [OF l] and sh = plus_shift [OF t, of "cf_interval s"]
  have p': "cf_first_above_time s = UnixEpoch tm \<or> cf_first_above_time s \<le> time_plus tm now (cf_interval s)"
    "cf_dropping s \<longrightarrow> cf_drop_next s \<le> time_plus tm now (cf_interval s)"
    using p sh by (auto simp: paced_def)
  have law: "c \<noteq> 0 \<Longrightarrow> u \<le> now \<Longrightarrow> cf_interval v = cf_interval s \<Longrightarrow> ControlLaw tm u c v \<le> time_plus tm now (cf_interval s)" for c u v
    using paced_scheduled [of c v u now] i by simp
  have nz: "1 < cf_count s - cf_lastcount s \<Longrightarrow> cf_count s \<noteq> cf_lastcount s" by auto
  show ?thesis
    using r p' w dl l law nz unfolding paced_def ShouldDrop_def OkToDrop_def Let_def
    by (auto split: if_splits)
qed

lemma paced_run:
  assumes "codel_run tm xs s = (ds, s')" and "paced tm t n s" and "ZeroDuration tm < cf_interval s"
    and "sorted (t # map fst xs)" and "n + length xs < 2 ^ 32"
  shows "paced tm (last (t # map fst xs)) (n + length xs) s' \<and> cf_target s' = cf_target s \<and> cf_interval s' = cf_interval s"
  using assms
proof (induction xs arbitrary: s ds t n)
  case Nil
  then show ?case by simp
next
  case (Cons x xs)
  obtain now enq where x: "x = (now, enq)" by (cases x)
  obtain d s2 ds2 where r: "ShouldDrop tm now enq s = (d, s2)" "codel_run tm xs s2 = (ds2, s')"
    using Cons.prems(1) by (auto simp: x Let_def split: prod.splits)
  have "paced tm now (Suc n) s2"
    by (rule paced_step [OF Cons.prems(2) _ Cons.prems(3) _ r(1)]) (use Cons.prems(4,5) in \<open>simp_all add: x\<close>)
  then show ?case using Cons.IH [OF r(2), of now "Suc n"] Cons.prems(3-5) ShouldDrop_config [OF r(1)] by (simp add: x)
qed

text \<open>An overloaded call starts the countdown of one interval.\<close>

lemma paced_due:
  assumes p: "paced tm t n s" and t: "t \<le> now" and i: "ZeroDuration tm < cf_interval s" and n: "Suc n < 2 ^ 32"
    and e: "UnixEpoch tm < now" and o: "above_target tm s (now, enq)" and r: "ShouldDrop tm now enq s = (d, s')"
  shows "due tm (time_plus tm now (cf_interval s)) s'"
proof -
  have p': "paced tm now (Suc n) s'" by (rule paced_step [OF p t i n r])
  have "UnixEpoch tm < time_plus tm now (cf_interval s)" using plus_ge [of "cf_interval s" now] i e by (simp add: order_less_le_trans)
  then have "cf_first_above_time s' \<noteq> UnixEpoch tm"
    using o ShouldDrop_first_above [OF r] by (auto simp: above_target_def OkToDrop_def)
  then show ?thesis using p' ShouldDrop_config [OF r] by (simp add: paced_def due_def)
qed

lemma drops_again:
  assumes run: "codel_run tm (xs @ (now, enq) # ys) s = (ds, s')" and p: "paced tm (UnixEpoch tm) 0 s"
    and i: "ZeroDuration tm < cf_interval s" and so: "sorted (map fst (xs @ (now, enq) # ys))"
    and e: "\<forall>x \<in> set (xs @ (now, enq) # ys). UnixEpoch tm < fst x" and n: "length (xs @ (now, enq) # ys) < 2 ^ 32"
    and o: "\<forall>x \<in> set ((now, enq) # ys). above_target tm s x"
    and y: "ys \<noteq> []" "time_plus tm now (cf_interval s) \<le> fst (last ys)"
  shows "True \<in> set (drop (Suc (length xs)) ds)"
proof -
  obtain s1 where s1: "codel_run tm xs s = (take (length xs) ds, s1)"
      "codel_run tm ((now, enq) # ys) s1 = (drop (length xs) ds, s')"
    by (rule codel_run_append [OF run])
  then obtain d s2 es where s2: "ShouldDrop tm now enq s1 = (d, s2)" "codel_run tm ys s2 = (es, s')" "drop (length xs) ds = d # es"
    by (auto simp: Let_def split: prod.splits)
  have es: "drop (Suc (length xs)) ds = es" using s2(3) by (metis drop_Suc list.sel(3) tl_drop)
  have "sorted (UnixEpoch tm # map fst xs)" using so e by (auto simp: sorted_append less_imp_le)
  then have p1: "paced tm (last (UnixEpoch tm # map fst xs)) (length xs) s1" "cf_target s1 = cf_target s" "cf_interval s1 = cf_interval s"
    using paced_run [OF s1(1) p i] n by simp_all
  have "last (UnixEpoch tm # map fst xs) \<le> now"
    using so e by (cases xs rule: rev_cases) (auto simp: sorted_append less_imp_le)
  then have "due tm (time_plus tm now (cf_interval s)) s2"
    using paced_due [OF p1(1) _ _ _ _ _ s2(1)] p1(2,3) i n e o by (simp add: above_target_def)
  moreover have "\<forall>x \<in> set ys. above_target tm s2 x"
    using o p1(2) ShouldDrop_config [OF s2(1)] by (simp add: above_target_def)
  ultimately show ?thesis using due_run [OF s2(2) _ _ y] es by simp
qed

end

text \<open>
  C11. Overload is answered: however a run of the filter went before, from a call with a sojourn time at or above
  the target on, if the sojourn times stay there, then at the latest the first call that is one
  interval later on the filter's clock is preceded by, or is, a drop. So under sustained overload no
  interval passes without one. The clock does not run backwards and reads times after the Unix
  epoch, and the run has less than \<open>2 ^ 32\<close> calls, since after that many drops the episode counter wraps.
\<close>

theorem codel_drops_every_interval:
  assumes "absl_clock tm" and "Codel_Build tm b = Inr s0"
    and "codel_run tm (xs @ (now, enq) # ys) s0 = (ds, s)"
    and "sorted (map fst (xs @ (now, enq) # ys))" and "\<forall>x \<in> set (xs @ (now, enq) # ys). UnixEpoch tm < fst x"
    and "length (xs @ (now, enq) # ys) < 2 ^ 32"
    and "\<forall>(t, q) \<in> set ((now, enq) # ys). cfb_target b \<le> codel_sojourn tm t q"
    and "ys \<noteq> []" and "time_plus tm now (cfb_interval b) \<le> fst (last ys)"
  shows "True \<in> set (drop (Suc (length xs)) ds)"
proof -
  have s0: "cf_target s0 = cfb_target b" "cf_interval s0 = cfb_interval b" "ZeroDuration tm < cf_interval s0"
    "paced tm (UnixEpoch tm) 0 s0"
    using assms(2) by (auto simp: Codel_Build_def Codel_new_def paced_def split: if_splits)
  have "\<forall>x \<in> set ((now, enq) # ys). above_target tm s0 x" using assms(7) s0(1) by (auto simp: above_target_def)
  then show ?thesis
    using absl_clock.drops_again [OF assms(1,3) s0(4,3) assms(4,5,6)] assms(8,9) s0(2) by simp
qed

theorem codel_drops_every_interval_witness:
  "\<exists>s0 ds s. Codel_Build ticks (Codel_Interval 100 (Codel_Target 5 (Codel_Builder ticks))) = Inr s0
    \<and> codel_run ticks ([(10, 9)] @ (20, 1) # [(60, 50), (130, 100)]) s0 = (ds, s) \<and> True \<in> set (drop 2 ds)"
proof -
  let ?b = "Codel_Interval 100 (Codel_Target 5 (Codel_Builder ticks))"
  let ?xs = "[(10, 9)] @ (20, 1) # [(60, 50), (130, 100)] :: (int \<times> int) list"
  obtain s0 where s0: "Codel_Build ticks ?b = Inr s0"
    by (simp add: Codel_Build_def Codel_Interval_def Codel_Target_def Codel_Builder_def ticks_def ticks_params_def)
  obtain ds s where r: "codel_run ticks ?xs s0 = (ds, s)" by fastforce
  have "True \<in> set (drop (Suc (length [(10 :: int, 9 :: int)])) ds)"
    by (rule codel_drops_every_interval [OF ticks_clock.absl_clock_axioms s0 r])
       (simp_all add: Codel_Interval_def Codel_Target_def codel_sojourn_def ticks_def)
  then show ?thesis using s0 r by (auto simp: numeral_2_eq_2)
qed

end
