(* ===== verification/Moving_Average.thy ===== *)
theory Moving_Average
  imports Measurements
begin

section \<open>The moving average stays with its samples\<close>

text \<open>
  \<^verbatim>\<open>ExpAvgMeasurement::Add\<close> averages in binary floating point, first by sum and count, then by
  \<open>value (1 - f) + sample f\<close>. Each of its operations may round away from the samples. This theory
  shows that the errors do not add up: samples between \<open>lo\<close> and \<open>hi\<close> keep the value within a
  thousandth of that interval, however many there are.
\<close>

subsection \<open>One weighted step\<close>

context rounding
begin

lemma rd_weight:
  assumes "0 \<le> f" and "f \<le> 1"
  shows "0 \<le> rd (1 - f)" and "rd (1 - f) \<le> 1" and "\<bar>rd (1 - f) - (1 - f)\<bar> \<le> 1 / 2 ^ 52"
  using rd_between [of 0 "1 - f" 1] rd_err_bound [of "1 - f" 1] assms by simp_all

text \<open>A sample further away than a thousandth pulls the value back, whatever the roundings do.\<close>

lemma rd_pulls_up:
  assumes c: "1/2 \<le> c" and x: "c + c / 1023 \<le> x" and f: "1 / 2 ^ 30 \<le> f" "f \<le> 1"
  shows "c \<le> rd (c * rd (1 - f)) + rd (x * f)"
proof -
  define g where "g = rd (1 - f)"
  have f0: "0 \<le> f" by (rule order_trans [OF _ f(1)]) simp
  have g: "0 \<le> g" "g \<le> 1" "\<bar>g - (1 - f)\<bar> \<le> 1 / 2 ^ 52" using rd_weight [OF f0 f(2)] by (simp_all add: g_def)
  have "\<bar>c * g - c * (1 - f)\<bar> = c * \<bar>g - (1 - f)\<bar>" using c by (simp add: abs_mult flip: right_diff_distrib)
  also have "\<dots> \<le> c * (1 / 2 ^ 52)" using c g(3) by (intro mult_left_mono) auto
  finally have cg: "c - c * f - c / 2 ^ 52 \<le> c * g" unfolding abs_le_iff by (simp add: algebra_simps)
  have "\<bar>c * g\<bar> \<le> c" using c g by (simp add: abs_mult mult_left_le)
  then have A: "c * g - c / 2 ^ 53 - 1 / 2 ^ 60 \<le> rd (c * g)"
    using rd_err_bound [of "c * g" c] unfolding abs_le_iff by linarith
  have y: "c / 2 ^ 30 \<le> c * f" using mult_left_mono [OF f(1), of c] c by simp
  have xf: "c * f + c * f / 1023 \<le> x * f" using mult_right_mono [OF x f0] by (simp add: algebra_simps)
  have "rd (c * f + c * f / 1023) \<le> rd (x * f)" by (rule rd_mono [OF xf])
  moreover have "\<bar>c * f + c * f / 1023\<bar> = c * f + c * f / 1023" using c f0 by simp
  ultimately have B: "(c * f + c * f / 1023) - (c * f + c * f / 1023) / 2 ^ 53 - 1 / 2 ^ 60 \<le> rd (x * f)"
    using rd_err [of "c * f + c * f / 1023"] unfolding abs_le_iff by linarith
  define z where "z = c * f"
  show ?thesis using A B cg y c unfolding g_def [symmetric] z_def [symmetric] by simp
qed

lemma rd_pulls_down:
  assumes c: "1/2 \<le> c" and x: "0 \<le> x" "x \<le> c - c / 1025" and f: "1 / 2 ^ 30 \<le> f" "f \<le> 1"
  shows "rd (c * rd (1 - f)) + rd (x * f) \<le> c"
proof -
  define g where "g = rd (1 - f)"
  have f0: "0 \<le> f" by (rule order_trans [OF _ f(1)]) simp
  have g: "0 \<le> g" "g \<le> 1" "\<bar>g - (1 - f)\<bar> \<le> 1 / 2 ^ 52" using rd_weight [OF f0 f(2)] by (simp_all add: g_def)
  have "\<bar>c * g - c * (1 - f)\<bar> = c * \<bar>g - (1 - f)\<bar>" using c by (simp add: abs_mult flip: right_diff_distrib)
  also have "\<dots> \<le> c * (1 / 2 ^ 52)" using c g(3) by (intro mult_left_mono) auto
  finally have cg: "c * g \<le> c - c * f + c / 2 ^ 52" unfolding abs_le_iff by (simp add: algebra_simps)
  have "\<bar>c * g\<bar> \<le> c" using c g by (simp add: abs_mult mult_left_le)
  then have A: "rd (c * g) \<le> c * g + c / 2 ^ 53 + 1 / 2 ^ 60"
    using rd_err_bound [of "c * g" c] unfolding abs_le_iff by linarith
  have y: "c / 2 ^ 30 \<le> c * f" using mult_left_mono [OF f(1), of c] c by simp
  have xf: "x * f \<le> c * f - c * f / 1025" using mult_right_mono [OF x(2) f0] by (simp add: algebra_simps)
  have "rd (x * f) \<le> rd (c * f - c * f / 1025)" by (rule rd_mono [OF xf])
  moreover have "\<bar>c * f - c * f / 1025\<bar> \<le> c * f" using c f0 by simp
  ultimately have B: "rd (x * f) \<le> (c * f - c * f / 1025) + c * f / 2 ^ 53 + 1 / 2 ^ 60"
    using rd_err_bound [of "c * f - c * f / 1025" "c * f"] unfolding abs_le_iff by linarith
  define z where "z = c * f"
  show ?thesis using A B cg y c unfolding g_def [symmetric] z_def [symmetric] by simp
qed

end

subsection \<open>The invariant of the average\<close>

text \<open>The interval of the samples, a thousandth wider; its ends are exact in binary floating point,
  and so are their multiples during the warm-up.\<close>

definition avg_low :: "int \<Rightarrow> rat" where "avg_low lo = of_int lo * (1023 / 1024)"
definition avg_high :: "int \<Rightarrow> rat" where "avg_high hi = of_int hi * (1025 / 1024)"

definition samples_in :: "int \<Rightarrow> int \<Rightarrow> bool" where
  "samples_in lo hi \<longleftrightarrow> 1 \<le> lo \<and> lo \<le> hi \<and> hi \<le> 2 ^ 39"

definition avg_between :: "int \<Rightarrow> int \<Rightarrow> exp_avg \<Rightarrow> bool" where
  "avg_between lo hi a \<longleftrightarrow> 1 \<le> ea_window a \<and> is_int32 (ea_window a + 1)
     \<and> 0 \<le> ea_count a \<and> ea_count a \<le> ea_warmup_window a \<and> 1 \<le> ea_warmup_window a \<and> ea_warmup_window a \<le> 10
     \<and> (\<exists>u. ea_sum a = Fin u \<and> of_int (ea_count a) * avg_low lo \<le> u \<and> u \<le> of_int (ea_count a) * avg_high hi)
     \<and> (0 < ea_count a \<longrightarrow> (\<exists>v. ea_value a = Fin v \<and> avg_low lo \<le> v \<and> v \<le> avg_high hi))"

lemma avg_ends:
  assumes "samples_in lo hi" and "lo \<le> n" and "n \<le> hi"
  shows "1/2 \<le> avg_low lo" and "avg_low lo \<le> of_int n" and "of_int n \<le> avg_high hi" and "avg_high hi \<le> 2 ^ 40"
    and "avg_low lo + avg_low lo / 1023 \<le> of_int n" and "of_int n \<le> avg_high hi - avg_high hi / 1025"
proof -
  have "(1::rat) \<le> of_int lo" "(of_int lo :: rat) \<le> of_int n" "(of_int n :: rat) \<le> of_int hi" "(of_int hi :: rat) \<le> of_int (2 ^ 39)"
    using assms by (simp_all only: samples_in_def of_int_le_iff of_int_1_le_iff)
  then show "1/2 \<le> avg_low lo" "avg_low lo \<le> of_int n" "of_int n \<le> avg_high hi" "avg_high hi \<le> 2 ^ 40"
    "avg_low lo + avg_low lo / 1023 \<le> of_int n" "of_int n \<le> avg_high hi - avg_high hi / 1025"
    by (simp_all add: avg_low_def avg_high_def)
qed

lemma rnd_ends:
  assumes "samples_in lo hi" and "0 \<le> k" and "k \<le> 10"
  shows "rnd (of_int k * avg_low lo) = of_int k * avg_low lo" and "rnd (of_int k * avg_high hi) = of_int k * avg_high hi"
proof -
  have b: "k * lo \<le> 10 * 2 ^ 39" "k * hi \<le> 10 * 2 ^ 39" "0 \<le> k * lo" "0 \<le> k * hi"
    using mult_mono [of k 10 lo "2 ^ 39"] mult_mono [of k 10 hi "2 ^ 39"] assms by (auto simp: samples_in_def)
  have "\<bar>k * lo * 1023\<bar> \<le> 2 ^ 53" "\<bar>k * hi * 1025\<bar> \<le> 2 ^ 53" using b by simp_all
  from this [THEN rnd_dyadic, of "- 10"]
  show "rnd (of_int k * avg_low lo) = of_int k * avg_low lo" "rnd (of_int k * avg_high hi) = of_int k * avg_high hi"
    by (simp_all add: avg_low_def avg_high_def power_int_minus field_simps)
qed

lemmas rnd_low [simp] = rnd_ends(1) [where k = 1, simplified]
lemmas rnd_high [simp] = rnd_ends(2) [where k = 1, simplified]

lemma rnd_in_ends:
  assumes "samples_in lo hi" and "avg_low lo \<le> x" and "x \<le> avg_high hi"
  shows "avg_low lo \<le> rnd x" and "rnd x \<le> avg_high hi"
  using rnd_mono [OF assms(2)] rnd_mono [OF assms(3)] assms(1) by simp_all

lemma ends_small:
  assumes "samples_in lo hi" and "avg_low lo \<le> x" and "x \<le> avg_high hi"
  shows "\<bar>x\<bar> \<le> 2 ^ 64"
proof -
  have "lo \<le> hi" using assms(1) by (simp add: samples_in_def)
  from avg_ends(1,4) [OF assms(1) order_refl this] show ?thesis using assms(2,3) by simp
qed

subsection \<open>Every sample keeps it\<close>

lemma warmup_between:
  assumes s: "samples_in lo hi" "lo \<le> n" "n \<le> hi" and a: "avg_between lo hi a" and w: "ea_count a < ea_warmup_window a"
  obtains v a' where "ExpAvg_Add (Fin (of_int n)) a = Inr (Fin v, a')" and "avg_between lo hi a'"
    and "avg_low lo \<le> v" and "v \<le> avg_high hi" and "ea_value a' = Fin v" and "0 < ea_count a'"
proof -
  let ?k = "ea_count a + 1"
  obtain u where u: "ea_sum a = Fin u" "of_int (ea_count a) * avg_low lo \<le> u" "u \<le> of_int (ea_count a) * avg_high hi"
    using a by (auto simp: avg_between_def)
  have k: "0 < ?k" "?k \<le> 10" "is_int32 ?k" using a w by (auto simp: avg_between_def is_int32_def)
  note e = avg_ends [OF s] and r = rnd_ends [OF s(1), of ?k]
  have "of_int ?k * avg_low lo \<le> u + of_int n" "u + of_int n \<le> of_int ?k * avg_high hi"
    using u e(2,3) by (simp_all add: algebra_simps)
  then have b: "of_int ?k * avg_low lo \<le> rnd (u + of_int n)" "rnd (u + of_int n) \<le> of_int ?k * avg_high hi"
    using rnd_mono [of "of_int ?k * avg_low lo"] rnd_mono [of _ "of_int ?k * avg_high hi"] r k by fastforce+
  have "of_int (ea_count a) * avg_high hi \<le> 10 * 2 ^ 40" "(0::rat) \<le> of_int (ea_count a) * avg_low lo"
    using mult_mono [of "of_int (ea_count a)" 10 "avg_high hi" "2 ^ 40"] e k a by (simp_all add: avg_between_def)
  then have small: "\<bar>u + of_int n\<bar> \<le> 2 ^ 64" using u(2,3) e by simp
  define S where "S = rnd (u + of_int n)"
  have q: "avg_low lo \<le> S / of_int ?k" "S / of_int ?k \<le> avg_high hi"
    using b k(1) by (simp_all add: S_def pos_le_divide_eq pos_divide_le_eq mult.commute)
  then have "\<bar>S / of_int ?k\<bar> \<le> 2 ^ 64" by (rule ends_small [OF s(1)])
  then have "ExpAvg_Add (Fin (of_int n)) a =
      Inr (Fin (rnd (S / of_int ?k)), a\<lparr>ea_count := ?k, ea_sum := Fin S, ea_value := Fin (rnd (S / of_int ?k))\<rparr>)"
    using w u(1) k small by (simp add: ExpAvg_Add_def chk32_ok Let_def to_double_small S_def)
  moreover note rnd_in_ends [OF s(1) q]
  moreover have "avg_between lo hi (a\<lparr>ea_count := ?k, ea_sum := Fin S, ea_value := Fin (rnd (S / of_int ?k))\<rparr>)"
    using a w b rnd_in_ends [OF s(1) q] by (simp add: avg_between_def S_def)
  ultimately show ?thesis using that k(1) by simp
qed

lemma steady_factor:
  assumes "1 \<le> n" and "is_int32 (n + 1)"
  obtains f where "SteadyStateFactor n = Inr (Fin f)" and "1 / 2 ^ 30 \<le> f" and "f \<le> 1"
proof -
  have n: "(2::rat) \<le> of_int (n + 1)" "(of_int (n + 1) :: rat) \<le> of_int (2 ^ 31)"
    using assms by (simp_all only: of_int_le_iff is_int32_def) auto
  then have b: "1 / 2 ^ 30 \<le> 2 / (of_int (n + 1) :: rat)" "2 / (of_int (n + 1) :: rat) \<le> 1"
    by (simp_all add: field_simps)
  have "rnd (1 / 2 ^ 30) = 1 / 2 ^ 30" using rnd_dyadic [of 1 "- 30"] by (simp add: power_int_minus field_simps)
  then have "1 / 2 ^ 30 \<le> rnd (2 / of_int (n + 1))" "rnd (2 / of_int (n + 1)) \<le> 1"
    using rnd_mono [OF b(1)] rnd_mono [OF b(2)] by simp_all
  moreover have "0 \<le> 2 / (of_int (n + 1) :: rat)" using n(1) by simp
  then have "\<bar>2 / (of_int (n + 1) :: rat)\<bar> \<le> 2 ^ 64" using b(2) by (simp only: abs_of_nonneg) simp
  then have "SteadyStateFactor n = Inr (Fin (rnd (2 / of_int (n + 1))))"
    using assms(2) n(1) by (simp add: SteadyStateFactor_def chk32_ok to_double_small)
  ultimately show ?thesis using that by blast
qed

lemma steady_between:
  assumes s: "samples_in lo hi" "lo \<le> n" "n \<le> hi" and a: "avg_between lo hi a" and w: "\<not> ea_count a < ea_warmup_window a"
  obtains v a' where "ExpAvg_Add (Fin (of_int n)) a = Inr (Fin v, a')" and "avg_between lo hi a'"
    and "avg_low lo \<le> v" and "v \<le> avg_high hi" and "ea_value a' = Fin v" and "0 < ea_count a'"
proof -
  have c: "0 < ea_count a" using a w by (auto simp: avg_between_def)
  then obtain v where v: "ea_value a = Fin v" "avg_low lo \<le> v" "v \<le> avg_high hi" using a by (auto simp: avg_between_def)
  obtain f where f: "SteadyStateFactor (ea_window a) = Inr (Fin f)" "1 / 2 ^ 30 \<le> f" "f \<le> 1"
    using a steady_factor [of "ea_window a"] by (auto simp: avg_between_def)
  have f0: "0 \<le> f" by (rule order_trans [OF _ f(2)]) simp
  note e = avg_ends [OF s] and g = b64.rd_weight [OF f0 f(3)]
  have n0: "(0::rat) \<le> of_int n" and h: "1/2 \<le> avg_high hi" using e by simp_all
  have vg: "rnd (avg_low lo * rnd (1 - f)) \<le> rnd (v * rnd (1 - f))" "rnd (v * rnd (1 - f)) \<le> rnd (avg_high hi * rnd (1 - f))"
    using v g by (simp_all add: rnd_mono mult_right_mono)
  let ?x = "rnd (v * rnd (1 - f)) + rnd (of_int n * f)"
  have x: "avg_low lo \<le> ?x" "?x \<le> avg_high hi"
    using b64.rd_pulls_up [OF e(1,5) f(2,3)] b64.rd_pulls_down [OF h n0 e(6) f(2,3)] vg by linarith+
  have "\<bar>v * rnd (1 - f)\<bar> \<le> \<bar>v\<bar>" "\<bar>of_int n * f\<bar> \<le> \<bar>of_int n :: rat\<bar>" using g f0 f(3) by (simp_all add: abs_mult mult_left_le)
  then have sm: "\<bar>v * rnd (1 - f)\<bar> \<le> 2 ^ 64" "\<bar>of_int n * f\<bar> \<le> 2 ^ 64" "\<bar>1 - f\<bar> \<le> 2 ^ 64" "\<bar>?x\<bar> \<le> 2 ^ 64"
    using ends_small [OF s(1) v(2,3)] ends_small [OF s(1) e(2,3)] ends_small [OF s(1) x] f0 f(3) by (auto intro: order_trans)
  then have "ExpAvg_Add (Fin (of_int n)) a = Inr (Fin (rnd ?x), a\<lparr>ea_value := Fin (rnd ?x)\<rparr>)"
    using w v(1) f(1) by (simp add: ExpAvg_Add_def Let_def dsub_def to_double_small)
  moreover have "avg_between lo hi (a\<lparr>ea_value := Fin (rnd ?x)\<rparr>)"
    using a rnd_in_ends [OF s(1) x] by (simp add: avg_between_def)
  ultimately show ?thesis using that rnd_in_ends [OF s(1) x] c by simp
qed

lemma avg_between_Add:
  assumes "samples_in lo hi" and "lo \<le> n" and "n \<le> hi" and "avg_between lo hi a"
  obtains v a' where "ExpAvg_Add (Fin (of_int n)) a = Inr (Fin v, a')" and "avg_between lo hi a'"
    and "avg_low lo \<le> v" and "v \<le> avg_high hi" and "ea_value a' = Fin v" and "0 < ea_count a'"
proof (cases "ea_count a < ea_warmup_window a")
  case True
  then show ?thesis by (rule warmup_between [OF assms]) (rule that; assumption)
next
  case False
  then show ?thesis by (rule steady_between [OF assms]) (rule that; assumption)
qed

lemma avg_between_new:
  "1 \<le> w \<Longrightarrow> is_int32 (w + 1) \<Longrightarrow> 1 \<le> k \<Longrightarrow> k \<le> 10 \<Longrightarrow> avg_between lo hi (ExpAvg_new w k)"
  by (simp add: avg_between_def ExpAvg_new_def)

lemma double_of_sample: "samples_in lo hi \<Longrightarrow> lo \<le> n \<Longrightarrow> n \<le> hi \<Longrightarrow> double_of_int n = Fin (of_int n)"
  by (rule double_of_int_exact) (auto simp: samples_in_def)

lemma avg_between_samples:
  assumes "samples_in lo hi" and "\<forall>n \<in> set ns. lo \<le> n \<and> n \<le> hi" and "avg_between lo hi a"
  shows "\<exists>a'. add_samples ExpAvg_ops (map double_of_int ns) a = Inr a' \<and> avg_between lo hi a'
    \<and> (ns \<noteq> [] \<or> 0 < ea_count a \<longrightarrow> 0 < ea_count a')"
  using assms(2,3)
proof (induction ns arbitrary: a)
  case Nil
  then show ?case by simp
next
  case (Cons n ns)
  then have n: "lo \<le> n" "n \<le> hi" by simp_all
  obtain v a' where a': "ExpAvg_Add (Fin (of_int n)) a = Inr (Fin v, a')" "avg_between lo hi a'" "0 < ea_count a'"
    by (rule avg_between_Add [OF assms(1) n Cons.prems(2)])
  from Cons.IH [OF _ a'(2)] Cons.prems(1) a'(3) show ?case
    using a'(1) by (simp add: double_of_sample [OF assms(1) n] ExpAvg_ops_def)
qed

text \<open>
  C21. The moving average stays with its samples: after any number of samples between \<open>lo\<close> and \<open>hi\<close>
  (at most nine minutes, in nanoseconds) the value is within a part in 1024 of that interval. Every
  one of the roundings, the weight computed from the window, and the change from the warm-up
  average to the weighted one are accounted for; no error accumulates.
\<close>

theorem moving_average_tracks:
  assumes "1 \<le> window" and "is_int32 (window + 1)" and "1 \<le> warmup" and "warmup \<le> 10"
    and "1 \<le> lo" and "hi \<le> 2 ^ 39" and "ns \<noteq> []" and "\<forall>n \<in> set ns. lo \<le> n \<and> n \<le> hi"
  shows "\<exists>a v. add_samples ExpAvg_ops (map double_of_int ns) (ExpAvg_new window warmup) = Inr a
    \<and> ExpAvg_Get a = Fin v \<and> of_int lo * (1023/1024) \<le> v \<and> v \<le> of_int hi * (1025/1024)"
proof -
  obtain n where "n \<in> set ns" using assms(7) by (meson last_in_set)
  then have s: "samples_in lo hi" using assms(5,6,8) by (auto simp: samples_in_def)
  from avg_between_samples [OF s assms(8) avg_between_new [OF assms(1-4)]]
  obtain a where "add_samples ExpAvg_ops (map double_of_int ns) (ExpAvg_new window warmup) = Inr a" "avg_between lo hi a"
    "0 < ea_count a" using assms(7) by blast
  then show ?thesis by (auto simp: avg_between_def avg_low_def avg_high_def ExpAvg_Get_def)
qed

theorem moving_average_tracks_witness:
  "\<exists>a v. add_samples ExpAvg_ops (map double_of_int (replicate 1000 1000000 @ [1200000])) (ExpAvg_new 600 10) = Inr a
    \<and> ExpAvg_Get a = Fin v \<and> 1000000 * (1023/1024) \<le> v \<and> v \<le> 1200000 * (1025/1024)"
  using moving_average_tracks [of 600 10 1000000 1200000 "replicate 1000 1000000 @ [1200000]"] by (simp add: is_int32_def)

end
