(* ===== verification/Gradient2_Dynamics.thy ===== *)
theory Gradient2_Dynamics
  imports Gradient2 Moving_Average
begin

section \<open>Where the adaptive limit goes\<close>

text \<open>
  The properties of \<open>Gradient2\<close> are about single samples. Here whole runs of \<^verbatim>\<open>Gradient2Limit\<close> are
  followed: under steady latency and full use the published cap climbs to \<^verbatim>\<open>MaxConcurrency\<close> in a
  number of samples that is known beforehand, and a latency spike takes it down at once. Both
  rest on the contract of the moving average (\<open>Moving_Average\<close>), on which the algorithm relies as
  its baseline.
\<close>

subsection \<open>One adaptive sample, as an equation\<close>

lemma Gradient2_observed_queue [simp]: "g2_queue_size_fn (Gradient2_observed r v a q s) = g2_queue_size_fn s"
  by (auto simp: Gradient2_observed_def gradient2_defs ExpAvg_Update_def)

lemma Gradient2_observed_long:
  "g2_long_rtt (Gradient2_observed r v a q s) =
     (if dless (Fin 2) (ddiv v (double_of_int r)) then ExpAvg_Update (\<lambda>v. dmul v (to_double (95/100))) a else a)"
  by (auto simp: Gradient2_observed_def gradient2_defs)

lemma Gradient2_adapts:
  assumes "g2_inv s" and "0 < r" and "g2_estimated_limit s = Fin a"
    and "ExpAvg_Add (double_of_int r) (g2_long_rtt s) = Inr (v, ea)" and "g2_queue_size_fn s (m_limit s) = Inr q"
    and "\<not> dless (double_of_int i) (ddiv (Fin a) (Fin 2))"
    and "Gradient2_new_limit (Fin a) (Gradient2_gradient (g2_tolerance s) v (double_of_int r))
           (double_of_int q) (g2_smoothing s) (g2_min_limit s) (g2_max_limit s) = Fin z"
  obtains cs where "OnSample Gradient2_ops t r i d s =
    Inr ((Gradient2_observed r v ea q s)\<lparr>g2_estimated_limit := Fin z, m_limit := trunc z\<rparr>, cs)"
proof -
  have a: "m_limit s = trunc a" "int_of_double (Fin a) = Inr (trunc a)" "is_int32 (g2_min_limit s)" "is_int32 (g2_max_limit s)"
    using assms(1,3) int_of_double_ok [of a] by (auto simp: g2_inv_def g2_config_def)
  obtain z' where z': "Gradient2_new_limit (Fin a) (Gradient2_gradient (g2_tolerance s) v (double_of_int r))
      (double_of_int q) (g2_smoothing s) (g2_min_limit s) (g2_max_limit s) = Fin z'"
    "of_int INT_MIN \<le> z'" "z' \<le> of_int INT_MAX"
    by (rule new_limit_int32 [OF a(3,4)])
  then have z: "int_of_double (Fin z) = Inr (trunc z)" using assms(7) int_of_double_ok by simp
  let ?s = "(Gradient2_observed r v ea q s)\<lparr>g2_estimated_limit := Fin z\<rparr>"
  have "Gradient2_Update t r i d s = Inr (trunc z, ?s)"
    using assms(2-7) a(1,2) z
    by (simp add: Gradient2_Update_def Let_def Gradient2_observed_def [symmetric] del: int_of_double.simps)
  then show ?thesis
    using that by (simp add: Gradient2_ops_def AbstractLimit_ops_def AbstractLimit_OnSample_def SetLimitLocked_eq)
qed

lemma busy_enough:
  assumes "is_int32 i" and "a \<le> 2 * of_int i" and "0 \<le> a" and "a \<le> of_int INT_MAX"
  shows "\<not> dless (double_of_int i) (ddiv (Fin a) (Fin 2))"
proof -
  have "\<bar>i\<bar> \<le> 2 ^ 53" using assms(1) by (auto simp: is_int32_def)
  moreover have "a / 2 \<le> of_int i" using assms(2) by simp
  ultimately have "rnd (a / 2) \<le> of_int i" using rnd_mono [of "a / 2" "of_int i"] by simp
  moreover have "\<bar>a / 2\<bar> \<le> 2 ^ 64" using assms(3,4) by simp
  ultimately show ?thesis using assms(1) by (simp add: to_double_small)
qed

subsection \<open>The decay of the baseline\<close>

text \<open>A baseline more than twice the latest sample is compressed by five percent: it stays in the
  interval, since it was at twice its lower end.\<close>

lemma decay_between:
  assumes s: "samples_in lo hi" "lo \<le> n" "n \<le> hi" and a: "avg_between lo hi a" "ea_value a = Fin v" "0 < ea_count a"
    and big: "dless (Fin 2) (ddiv (Fin v) (Fin (of_int n)))"
  shows "avg_between lo hi (ExpAvg_Update (\<lambda>v. dmul v (to_double (95/100))) a)"
proof -
  have v: "avg_low lo \<le> v" "v \<le> avg_high hi" using a by (auto simp: avg_between_def)
  note e = avg_ends [OF s]
  have n0: "(0::rat) < of_int n" using s by (simp add: samples_in_def)
  have n1: "(1::rat) \<le> of_int n" using s by (simp add: samples_in_def)
  have v0: "0 \<le> v" using v(1) e(1) by linarith
  have "v / of_int n \<le> v" using n1 v0 by (simp add: divide_le_eq mult_left_le mult_le_cancel_left1)
  moreover have "0 \<le> v / of_int n" using v0 n0 by simp
  ultimately have "\<bar>v / of_int n\<bar> \<le> 2 ^ 64" using ends_small [OF s(1) v] by linarith
  then have "2 < rnd (v / of_int n)" using big n0 by (simp add: to_double_small)
  then have "2 < v / of_int n" using rnd_mono [of "v / of_int n" 2] by (cases "v / of_int n \<le> 2") auto
  then have v2: "2 * of_int n < v" using n0 by (simp add: pos_less_divide_eq)
  define p where "p = rnd (95/100)"
  have "\<bar>p - 95/100\<bar> \<le> 1 / 2 ^ 50" using b64.rd_err_bound [of "95/100" 1] by (simp add: p_def)
  then have p: "1/2 \<le> p" "p \<le> 1" unfolding abs_le_iff by simp_all
  have "of_int n \<le> v * p" using mult_mono [of "2 * of_int n" v "1/2" p] v0 v2 p n0 by simp
  moreover have "v * p \<le> v" using p(2) v0 by (rule mult_left_le)
  ultimately have vp: "avg_low lo \<le> v * p" "v * p \<le> avg_high hi" using v(2) e(2) by linarith+
  have "dmul (Fin v) (to_double (95/100)) = Fin (rnd (v * p))"
    using ends_small [OF s(1) vp] by (simp add: to_double_small p_def)
  then show ?thesis using a rnd_in_ends [OF s(1) vp] by (simp add: avg_between_def ExpAvg_Update_def)
qed

subsection \<open>The climb\<close>

text \<open>
  A limit that has seen latencies between \<open>lo\<close> and \<open>hi\<close> only, with \<open>hi\<close> within the tolerance of the
  baseline. \<open>q\<close> is a lower bound of the queue size over the caps it may publish, \<open>w\<close> its smoothing
  weight.
\<close>

definition g2_climbing :: "int \<Rightarrow> int \<Rightarrow> int \<Rightarrow> rat \<Rightarrow> 'cb gradient2 \<Rightarrow> bool" where
  "g2_climbing lo hi q w s \<longleftrightarrow> samples_in lo hi \<and> g2_inv s \<and> g2_bounded s
     \<and> 0 \<le> g2_min_limit s \<and> g2_min_limit s \<le> g2_max_limit s
     \<and> 0 \<le> q \<and> (\<forall>c. g2_min_limit s \<le> c \<and> c \<le> g2_max_limit s \<longrightarrow>
           (\<exists>k. g2_queue_size_fn s c = Inr k \<and> is_int32 k \<and> q \<le> k))
     \<and> g2_smoothing s = Fin w \<and> 0 \<le> w \<and> w \<le> 1
     \<and> (\<exists>tol. g2_tolerance s = Fin tol \<and> of_int hi \<le> tol * avg_low lo)
     \<and> avg_between lo hi (g2_long_rtt s)"

lemma climbing_gradient:
  assumes c: "g2_climbing lo hi q w s" and r: "lo \<le> r" "r \<le> hi"
  obtains v ea where "ExpAvg_Add (double_of_int r) (g2_long_rtt s) = Inr (Fin v, ea)"
    and "Gradient2_gradient (g2_tolerance s) (Fin v) (double_of_int r) = Fin 1"
    and "\<forall>k. avg_between lo hi (g2_long_rtt (Gradient2_observed r (Fin v) ea k s))"
proof -
  have s: "samples_in lo hi" and b: "avg_between lo hi (g2_long_rtt s)" using c by (simp_all add: g2_climbing_def)
  obtain tol where tol: "g2_tolerance s = Fin tol" "of_int hi \<le> tol * avg_low lo" using c by (auto simp: g2_climbing_def)
  note d = double_of_sample [OF s r] and e = avg_ends [OF s r]
  obtain v ea where v: "ExpAvg_Add (Fin (of_int r)) (g2_long_rtt s) = Inr (Fin v, ea)" "avg_between lo hi ea"
      "avg_low lo \<le> v" "v \<le> avg_high hi" "ea_value ea = Fin v" "0 < ea_count ea"
    by (rule avg_between_Add [OF s r b])
  have r0: "(0::rat) < of_int r" and "(of_int r :: rat) \<le> of_int hi" using s r by (simp_all add: samples_in_def)
  then have t: "of_int r \<le> tol * avg_low lo" using tol(2) by linarith
  have "0 < tol * avg_low lo" using t r0 by linarith
  then have "0 < tol" using e(1) by (simp add: zero_less_mult_iff)
  then have "tol * avg_low lo \<le> tol * v" using v(3) by simp
  then have "of_int r \<le> tol * v" using t by linarith
  moreover have "rnd (of_int r) = of_int r" using s r by (intro rnd_of_int) (auto simp: samples_in_def)
  ultimately have "Gradient2_gradient (g2_tolerance s) (Fin v) (double_of_int r) = Fin 1"
    using gradient_one r0 tol(1) d by simp
  moreover have "avg_between lo hi (g2_long_rtt (Gradient2_observed r (Fin v) ea k s))" for k
    using v(2) decay_between [OF s r v(2,5,6)] d by (simp add: Gradient2_observed_long del: ddiv.simps)
  ultimately show ?thesis using that v(1) d by simp
qed

lemma climbing_step:
  assumes c: "g2_climbing lo hi q w s" and r: "lo \<le> r" "r \<le> hi" and i: "is_int32 i" "g2_max_limit s \<le> 2 * i"
    and a: "g2_estimated_limit s = Fin a"
  obtains s' cs z where "OnSample Gradient2_ops t r i d s = Inr (s', cs)" and "g2_climbing lo hi q w s'"
    and "g2_max_limit s' = g2_max_limit s" and "g2_estimated_limit s' = Fin z"
    and "min (of_int (g2_max_limit s)) (a + (of_int q * w - 1 / 2 ^ 16)) \<le> z"
proof -
  have inv: "g2_inv s" "g2_bounded s" and w: "g2_smoothing s = Fin w" "0 \<le> w" "w \<le> 1" and r0: "0 < r"
    and lohi: "is_int32 (g2_min_limit s)" "is_int32 (g2_max_limit s)" "0 \<le> g2_min_limit s" "g2_min_limit s \<le> g2_max_limit s"
    using c r by (auto simp: g2_climbing_def g2_inv_def g2_config_def samples_in_def)
  have a0: "of_int (g2_min_limit s) \<le> a" "a \<le> of_int (g2_max_limit s)" "a \<le> of_int INT_MAX" "m_limit s = trunc a"
    using inv a by (auto simp: g2_inv_def g2_bounded_def)
  have a1: "0 \<le> a" using lohi(3) a0(1) by (meson of_int_0_le_iff order_trans)
  obtain k where k: "g2_queue_size_fn s (m_limit s) = Inr k" "is_int32 k" "q \<le> k" "0 \<le> k"
    using c g2_bounded_limit [OF inv] by (force simp: g2_climbing_def)
  obtain v ea where v: "ExpAvg_Add (double_of_int r) (g2_long_rtt s) = Inr (Fin v, ea)"
      "Gradient2_gradient (g2_tolerance s) (Fin v) (double_of_int r) = Fin 1"
      "\<forall>k. avg_between lo hi (g2_long_rtt (Gradient2_observed r (Fin v) ea k s))"
    by (rule climbing_gradient [OF c r])
  have "(of_int (g2_max_limit s) :: rat) \<le> of_int (2 * i)" using i(2) by (simp only: of_int_le_iff)
  then have busy: "\<not> dless (double_of_int i) (ddiv (Fin a) (Fin 2))"
    using busy_enough [OF i(1) _ a1 a0(3)] a0(2) by simp
  obtain x where x: "Gradient2_new_limit (Fin a) (Fin 1) (double_of_int k) (Fin w) (g2_min_limit s) (g2_max_limit s)
        = Fin (max (of_int (g2_min_limit s)) (min (of_int (g2_max_limit s)) x))"
      "\<bar>x - (a * (1 - w) + (a * 1 + of_int k) * w)\<bar> \<le> 1 / 2 ^ 16"
    by (rule new_limit_value [of a 1 k w "g2_min_limit s" "g2_max_limit s"]) (use a0 a1 k w lohi in auto)
  let ?z = "max (of_int (g2_min_limit s)) (min (of_int (g2_max_limit s)) x)"
  let ?s = "(Gradient2_observed r (Fin v) ea k s)\<lparr>g2_estimated_limit := Fin ?z, m_limit := trunc ?z\<rparr>"
  obtain cs where o: "OnSample Gradient2_ops t r i d s = Inr (?s, cs)"
    by (rule Gradient2_adapts [OF inv(1) r0 a v(1) k(1) busy]) (use v(2) w(1) x(1) in auto)
  have "g2_inv ?s" by (rule gradient2.sample_inv [OF inv(1) o])
  moreover have "g2_bounded ?s" using lohi(4) by (simp add: g2_bounded_def)
  ultimately have c': "g2_climbing lo hi q w ?s" using c v(3) by (simp add: g2_climbing_def)
  have "of_int q * w \<le> of_int k * w" using k(3) w(2) by (intro mult_right_mono) auto
  moreover have "a * (1 - w) + (a * 1 + of_int k) * w = a + of_int k * w" by (simp add: algebra_simps)
  ultimately have "a + (of_int q * w - 1 / 2 ^ 16) \<le> x" using x(2) unfolding abs_le_iff by linarith
  then have "min (of_int (g2_max_limit s)) (a + (of_int q * w - 1 / 2 ^ 16)) \<le> ?z" by auto
  then show ?thesis using that [OF o c'] by simp
qed

text \<open>Two stretches of a climb, of \<open>k\<close> and \<open>n\<close> steps.\<close>

lemma climb_trans:
  fixes M e z z' h :: rat
  assumes "min M (e + of_nat k * h) \<le> z" and "min M (z + of_nat n * h) \<le> z'" and "0 \<le> h"
  shows "min M (e + (of_nat k + of_nat n) * h) \<le> z'"
proof -
  have "0 \<le> of_nat n * h" using assms(3) by simp
  then have "min M (e + of_nat k * h + of_nat n * h) \<le> z'" using assms(1,2) by (simp add: min_le_iff_disj) linarith
  then show ?thesis by (simp add: algebra_simps)
qed

lemma climbing_feed:
  assumes "g2_climbing lo hi q w s" and "g2_estimated_limit s = Fin a" and "1 / 2 ^ 16 \<le> of_int q * w"
    and "\<forall>(t, r, i, d) \<in> set xs. lo \<le> r \<and> r \<le> hi \<and> is_int32 i \<and> g2_max_limit s \<le> 2 * i"
  shows "\<exists>s' cs z. feed Gradient2_ops xs s = Inr (s', cs) \<and> g2_climbing lo hi q w s' \<and> g2_max_limit s' = g2_max_limit s
    \<and> g2_estimated_limit s' = Fin z
    \<and> min (of_int (g2_max_limit s)) (a + of_nat (length xs) * (of_int q * w - 1 / 2 ^ 16)) \<le> z"
  using assms(1,2,4)
proof (induction xs arbitrary: s a)
  case Nil
  then show ?case by simp
next
  case (Cons x xs)
  obtain t r i d where x: "x = (t, r, i, d)" by (cases x)
  let ?h = "of_int q * w - 1 / 2 ^ 16"
  have g: "lo \<le> r" "r \<le> hi" "is_int32 i" "g2_max_limit s \<le> 2 * i" using Cons.prems(3) by (simp_all add: x)
  obtain s1 cs1 z1 where s1: "OnSample Gradient2_ops t r i d s = Inr (s1, cs1)" "g2_climbing lo hi q w s1"
      "g2_max_limit s1 = g2_max_limit s" "g2_estimated_limit s1 = Fin z1" "min (of_int (g2_max_limit s)) (a + ?h) \<le> z1"
    by (rule climbing_step [OF Cons.prems(1) g Cons.prems(2)])
  obtain s2 cs2 z2 where s2: "feed Gradient2_ops xs s1 = Inr (s2, cs2)" "g2_climbing lo hi q w s2"
      "g2_max_limit s2 = g2_max_limit s" "g2_estimated_limit s2 = Fin z2"
      "min (of_int (g2_max_limit s)) (z1 + of_nat (length xs) * ?h) \<le> z2"
    using Cons.IH [OF s1(2,4)] Cons.prems(3) s1(3) by (auto simp: x)
  have "min (of_int (g2_max_limit s)) (a + (of_nat 1 + of_nat (length xs)) * ?h) \<le> z2"
    by (rule climb_trans [OF _ s2(5)]) (use s1(5) assms(3) in simp_all)
  then show ?case using s1(1) s2(1-4) by (simp add: x)
qed

text \<open>
  A configuration that can climb under latencies between \<open>lo\<close> and \<open>hi\<close>: bounds in order, a smoothing weight \<open>w\<close> and a
  queue size of at least \<open>q\<close> whose product is more than the rounding of one step, and \<open>hi\<close> within the tolerance of \<open>lo\<close>,
  less one part in 1024 for the rounding of the baseline.
\<close>

definition gb_climbs :: "int \<Rightarrow> int \<Rightarrow> int \<Rightarrow> rat \<Rightarrow> gradient2_builder \<Rightarrow> bool" where
  "gb_climbs lo hi q w b \<longleftrightarrow> gb_ok b \<and> 0 \<le> gb_min_limit b \<and> gb_min_limit b \<le> gb_initial_limit b
     \<and> gb_initial_limit b \<le> gb_max_concurrency b \<and> 1 \<le> gb_long_window b
     \<and> gb_smoothing b = Fin w \<and> 0 \<le> w \<and> w \<le> 1 \<and> 0 \<le> q \<and> 1 / 2 ^ 16 \<le> of_int q * w
     \<and> (\<forall>c. gb_min_limit b \<le> c \<and> c \<le> gb_max_concurrency b \<longrightarrow> (\<exists>k. gb_queue_size_fn b c = Inr k \<and> q \<le> k))
     \<and> 1 \<le> lo \<and> lo \<le> hi \<and> hi \<le> 2 ^ 39
     \<and> (\<exists>tol. gb_rtt_tolerance b = Fin tol \<and> of_int hi \<le> tol * (of_int lo * (1023/1024)))"

lemma climbing_built:
  assumes "gb_climbs lo hi q w b"
  shows "g2_climbing lo hi q w (Gradient2_Build b)"
    and "g2_estimated_limit (Gradient2_Build b) = Fin (of_int (gb_initial_limit b))" and "1 / 2 ^ 16 \<le> of_int q * w"
proof -
  let ?M = "gb_max_concurrency b"
  have g: "gb_ok b" using assms by (simp add: gb_climbs_def)
  have b: "is_int32 (gb_min_limit b)" "is_int32 ?M" "is_int32 (gb_initial_limit b)" "is_int32 (gb_long_window b + 1)"
    using g by (simp_all add: gb_ok_def)
  show e: "g2_estimated_limit (Gradient2_Build b) = Fin (of_int (gb_initial_limit b))" using b(3) by simp
  have "\<exists>k. gb_queue_size_fn b c = Inr k \<and> is_int32 k \<and> q \<le> k" if "gb_min_limit b \<le> c \<and> c \<le> ?M" for c
  proof -
    have "is_int32 c" using that b(1,2) by (auto simp: is_int32_def)
    then show ?thesis using g assms that by (force simp: gb_ok_def gb_climbs_def)
  qed
  moreover have "g2_bounded (Gradient2_Build b)" using e assms by (simp add: g2_bounded_def gb_climbs_def)
  moreover have "avg_between lo hi (g2_long_rtt (Gradient2_Build b))"
    using avg_between_new [OF _ b(4)] assms by (simp add: Gradient2_Build_def gb_climbs_def)
  ultimately show "g2_climbing lo hi q w (Gradient2_Build b)"
    using Gradient2_Build_inv [OF g] assms by (auto simp: g2_climbing_def gb_climbs_def Gradient2_Build_def samples_in_def avg_low_def)
  show "1 / 2 ^ 16 \<le> of_int q * w" using assms by (simp add: gb_climbs_def)
qed

lemma climbing_at_max:
  assumes "g2_climbing lo hi q w s" and "g2_estimated_limit s = Fin z" and "of_int (g2_max_limit s) \<le> z"
  shows "GetLimit Gradient2_ops s = g2_max_limit s"
proof -
  have "z \<le> of_int (g2_max_limit s)" "m_limit s = trunc z"
    using assms(1,2) by (auto simp: g2_climbing_def g2_bounded_def g2_inv_def)
  then show ?thesis using assms(3) by (metis Gradient2_GetLimit order_antisym trunc_of_int)
qed

text \<open>
  C2. The cap climbs: if latency is steady (a configuration that can climb between \<open>lo\<close> and \<open>hi\<close>) and every sample shows at least half of
  \<^verbatim>\<open>MaxConcurrency\<close> in flight, then after at most \<open>(MaxConcurrency - InitialLimit) / (q w - 2^-16)\<close> samples the published cap is
  \<^verbatim>\<open>MaxConcurrency\<close>. No sample reaches undefined behaviour, and the samples may be as many as one likes: the cap stays there.
\<close>

theorem gradient2_climbs_to_max:
  assumes "gb_climbs lo hi q w b"
    and "\<forall>(t, r, i, d) \<in> set xs. lo \<le> r \<and> r \<le> hi \<and> is_int32 i \<and> gb_max_concurrency b \<le> 2 * i"
    and "of_int (gb_max_concurrency b - gb_initial_limit b) \<le> of_nat (length xs) * (of_int q * w - 1 / 2 ^ 16)"
  shows "\<exists>s cs. feed Gradient2_ops xs (Gradient2_Build b :: 'cb gradient2) = Inr (s, cs)
    \<and> GetLimit Gradient2_ops s = gb_max_concurrency b"
proof -
  let ?s = "Gradient2_Build b :: 'cb gradient2"
  obtain s' cs z where s': "feed Gradient2_ops xs ?s = Inr (s', cs)" "g2_climbing lo hi q w s'" "g2_max_limit s' = gb_max_concurrency b"
      "g2_estimated_limit s' = Fin z"
      "min (of_int (gb_max_concurrency b)) (of_int (gb_initial_limit b) + of_nat (length xs) * (of_int q * w - 1 / 2 ^ 16)) \<le> z"
    using climbing_feed [OF climbing_built [OF assms(1)], of xs] assms(2) by auto
  have "of_int (g2_max_limit s') \<le> z" using s'(3,5) assms(3) by simp
  then show ?thesis using climbing_at_max [OF s'(2,4)] s'(1,3) by simp
qed

text \<open>The default configuration, with any cap up to that of the defaults.\<close>

lemma default_climbs:
  assumes "20 \<le> cap" and "cap \<le> 200"
  shows "gb_climbs 1000000 1200000 5 (rnd (1/5)) (MaxConcurrency cap Gradient2_Builder)"
    and "49/50 \<le> of_int 5 * rnd (1/5) - 1 / 2 ^ 16"
proof -
  have "\<bar>rnd (1/5) - 1/5\<bar> \<le> 1 / 2 ^ 50" using b64.rd_err_bound [of "1/5" 1] by simp
  then have w: "0 \<le> rnd (1/5)" "rnd (1/5) \<le> 1" "1 / 2 ^ 16 \<le> of_int 5 * rnd (1/5)" "49/50 \<le> of_int 5 * rnd (1/5) - 1 / 2 ^ 16"
    unfolding abs_le_iff by simp_all
  show "49/50 \<le> of_int 5 * rnd (1/5) - 1 / 2 ^ 16" by (rule w(4))
  have q: "\<exists>k. DefaultSqrtQueueSize c = Inr k \<and> 5 \<le> k" if "20 \<le> c \<and> c \<le> cap" for c
  proof -
    have "is_int32 c" using that assms by (simp add: is_int32_def)
    from DefaultSqrtQueueSize_spec [OF this] obtain k where k: "DefaultSqrtQueueSize c = Inr k" "1 \<le> k" "c \<le> k * k" by blast
    have "5 \<le> k" using mult_mono [of k 4 k 4] k that by (cases "k \<le> 4") auto
    then show ?thesis using k(1) by blast
  qed
  have "gb_ok (MaxConcurrency cap Gradient2_Builder)"
    using Gradient2_Builder_ok assms by (simp add: gb_ok_def MaxConcurrency_def is_int32_def)
  then show "gb_climbs 1000000 1200000 5 (rnd (1/5)) (MaxConcurrency cap Gradient2_Builder)"
    using w(1-3) q assms
    by (simp add: gb_climbs_def MaxConcurrency_def Gradient2_Builder_def to_double_small default_tolerance) (rule exI [of _ "3/2"], simp)
qed

text \<open>190 samples of one millisecond with a hundred requests in flight.\<close>

theorem gradient2_climbs_to_max_witness:
  "\<exists>s cs. feed Gradient2_ops (replicate 190 (0, 1000000, 100, False)) (Gradient2_Build (MaxConcurrency 200 Gradient2_Builder))
      = Inr (s :: nat gradient2, cs) \<and> GetLimit Gradient2_ops s = 200"
proof -
  have b: "gb_initial_limit (MaxConcurrency 200 Gradient2_Builder) = 20" "gb_max_concurrency (MaxConcurrency 200 Gradient2_Builder) = 200"
    by (simp_all add: Gradient2_Builder_def MaxConcurrency_def)
  have "of_int (200 - 20) \<le> of_nat (length (replicate 190 (0::int, 1000000::int, 100::int, False))) * (of_int 5 * rnd (1/5) - 1 / 2 ^ 16)"
    using default_climbs(2) [of 200] by simp
  then show ?thesis
    using gradient2_climbs_to_max [OF default_climbs(1) [of 200], of "replicate 190 (0, 1000000, 100, False)"] b by (simp add: is_int32_def)
qed

subsection \<open>The fall\<close>

lemma gradient_half:
  assumes "1 \<le> short" and "rnd short = short" and "short \<le> 2 ^ 64" and "0 \<le> tol * long" and "2 * (tol * long) \<le> short"
  shows "Gradient2_gradient (Fin tol) (Fin long) (Fin short) = Fin (1/2)"
proof -
  let ?m = "rnd (tol * long)"
  have "rnd (short / 2) = short / 2" by (rule rnd_halve [OF assms(2,1)])
  moreover have "tol * long \<le> short / 2" using assms(5) by simp
  ultimately have m: "0 \<le> ?m" "?m \<le> short / 2"
    using rnd_mono [of "tol * long" "short / 2"] rnd_nonneg [OF assms(4)] by simp_all
  have "\<bar>tol * long\<bar> \<le> 2 ^ 64" using assms by simp
  then have d: "dmul (Fin tol) (Fin long) = Fin ?m" by (simp add: to_double_small)
  have q: "0 \<le> ?m / short" "?m / short \<le> 1/2" using m assms(1) by (simp_all add: pos_divide_le_eq)
  then have r: "rnd (?m / short) \<le> 1/2" using rnd_mono [OF q(2)] by simp
  have "?m / short \<le> 2 ^ 64" by (rule order_trans [OF q(2)]) simp
  then have "\<bar>?m / short\<bar> \<le> 2 ^ 64" using q(1) by (simp only: abs_of_nonneg)
  then have "ddiv (Fin ?m) (Fin short) = Fin (rnd (?m / short))" using assms(1) by (simp add: to_double_small)
  then show ?thesis using r unfolding Gradient2_gradient_def d by simp
qed

text \<open>
  C19. Overload is shed at once, and by a known amount: a sample slower than twice the tolerance times the baseline (the
  baseline that includes it), taken while at least half of the estimate \<open>a\<close> was in flight, moves the estimate to \<open>a - w (a / 2 - q)\<close>, up to
  \<open>2^-16\<close> of rounding and clamped to the bounds, and no lower, however slow the sample. The limit is well formed, its
  estimate not negative, the weight \<open>w\<close> between zero and one, the queue size \<open>q\<close> not negative, and
  the round-trip time below \<open>2^53\<close>.
\<close>

theorem gradient2_sheds_overload:
  assumes "g2_inv s" and "g2_estimated_limit s = Fin a" and "0 \<le> a" and "g2_smoothing s = Fin w" and "0 \<le> w" and "w \<le> 1"
    and "g2_queue_size_fn s (m_limit s) = Inr q" and "0 \<le> q" and "is_int32 q"
    and "0 < r" and "r \<le> 2 ^ 53" and "ExpAvg_Add (Fin (of_int r)) (g2_long_rtt s) = Inr (Fin long, ea)"
    and "g2_tolerance s = Fin tol" and "0 \<le> tol * long" and "2 * (tol * long) \<le> of_int r"
    and "is_int32 i" and "a \<le> 2 * of_int i"
  shows "\<exists>s' cs z. OnSample Gradient2_ops t r i d s = Inr (s', cs) \<and> g2_estimated_limit s' = Fin z \<and> m_limit s' = trunc z
    \<and> (\<exists>x. z = max (of_int (g2_min_limit s)) (min (of_int (g2_max_limit s)) x)
         \<and> \<bar>x - (a - w * (a / 2 - of_int q))\<bar> \<le> 1 / 2 ^ 16)"
proof -
  have dr: "double_of_int r = Fin (of_int r)" using assms(10,11) by (intro double_of_int_exact) simp
  have rr: "(1::rat) \<le> of_int r" "(of_int r :: rat) \<le> of_int (2 ^ 53)" "rnd (of_int r) = of_int r"
    using assms(10,11) by (simp_all only: of_int_le_iff of_int_1_le_iff, simp_all)
  then have g: "Gradient2_gradient (g2_tolerance s) (Fin long) (double_of_int r) = Fin (1/2)"
    using gradient_half [of "of_int r" tol long] assms(13-15) dr by simp
  have inv: "is_int32 (g2_min_limit s)" "is_int32 (g2_max_limit s)" "a \<le> of_int INT_MAX"
    using assms(1,2) by (auto simp: g2_inv_def g2_config_def)
  obtain x where x: "Gradient2_new_limit (Fin a) (Fin (1/2)) (double_of_int q) (Fin w) (g2_min_limit s) (g2_max_limit s)
        = Fin (max (of_int (g2_min_limit s)) (min (of_int (g2_max_limit s)) x))"
      "\<bar>x - (a * (1 - w) + (a * (1/2) + of_int q) * w)\<bar> \<le> 1 / 2 ^ 16"
    by (rule new_limit_value [of a "1/2" q w "g2_min_limit s" "g2_max_limit s"]) (use assms inv in auto)
  let ?z = "max (of_int (g2_min_limit s)) (min (of_int (g2_max_limit s)) x)"
  have busy: "\<not> dless (double_of_int i) (ddiv (Fin a) (Fin 2))" by (rule busy_enough [OF assms(16,17,3) inv(3)])
  have add: "ExpAvg_Add (double_of_int r) (g2_long_rtt s) = Inr (Fin long, ea)" using assms(12) dr by simp
  obtain cs where o: "OnSample Gradient2_ops t r i d s =
      Inr ((Gradient2_observed r (Fin long) ea q s)\<lparr>g2_estimated_limit := Fin ?z, m_limit := trunc ?z\<rparr>, cs)"
    by (rule Gradient2_adapts [OF assms(1,10,2) add assms(7) busy]) (use g assms(4) x(1) in auto)
  have "a * (1 - w) + (a * (1/2) + of_int q) * w = a - w * (a / 2 - of_int q)" by (simp add: field_simps)
  then have "\<bar>x - (a - w * (a / 2 - of_int q))\<bar> \<le> 1 / 2 ^ 16" using x(2) by simp
  then show ?thesis using o by fastforce
qed

text \<open>An estimate of a hundred over a baseline of one millisecond (a window of 31 makes the weight a
  sixteenth), and a sample of sixteen milliseconds.\<close>

definition spiked :: "nat gradient2" where
  "spiked = (Gradient2_Build (QueueSize_const 4 (LongWindow 31 Gradient2_Builder)))
     \<lparr>m_limit := 100, g2_estimated_limit := Fin 100,
      g2_long_rtt := \<lparr>ea_value = Fin 1000000, ea_sum = Fin 10000000, ea_count = 10, ea_window = 31, ea_warmup_window = 10\<rparr>\<rparr>"

lemma spiked_simps:
  "g2_inv spiked" "m_limit spiked = 100" "g2_estimated_limit spiked = Fin 100" "g2_smoothing spiked = Fin (rnd (1/5))"
  "g2_queue_size_fn spiked c = Inr 4" "g2_tolerance spiked = Fin (3/2)" "g2_min_limit spiked = 20" "g2_max_limit spiked = 200"
proof -
  have "trunc 100 = 100" using trunc_of_int [of 100] by simp
  then show "g2_inv spiked"
    by (simp add: spiked_def g2_inv_def g2_config_def Gradient2_Build_def QueueSize_const_def LongWindow_def
        Gradient2_Builder_def is_int32_def)
qed (simp_all add: spiked_def Gradient2_Build_def QueueSize_const_def LongWindow_def Gradient2_Builder_def
  to_double_small default_tolerance)

lemma spiked_baseline:
  "\<exists>ea. ExpAvg_Add (Fin (of_int 16000000)) (g2_long_rtt spiked) = Inr (Fin 1937500, ea)"
proof -
  have f: "rnd (1/16) = 1/16" "rnd (15/16) = 15/16"
    using rnd_dyadic [of 1 "- 4"] rnd_dyadic [of 15 "- 4"] by (simp_all add: power_int_minus)
  show ?thesis
    by (simp add: f spiked_def ExpAvg_Add_def SteadyStateFactor_def Let_def chk32_ok is_int32_def dsub_def to_double_small)
qed

theorem gradient2_sheds_overload_witness:
  "\<exists>s' cs z. OnSample Gradient2_ops 0 16000000 60 False spiked = Inr (s', cs) \<and> g2_estimated_limit s' = Fin z
    \<and> (\<exists>x. z = max 20 (min 200 x) \<and> \<bar>x - (100 - rnd (1/5) * (100 / 2 - 4))\<bar> \<le> 1 / 2 ^ 16)"
proof -
  obtain ea where ea: "ExpAvg_Add (Fin (of_int 16000000)) (g2_long_rtt spiked) = Inr (Fin 1937500, ea)"
    using spiked_baseline by blast
  have "\<bar>rnd (1/5) - 1/5\<bar> \<le> 1 / 2 ^ 50" using b64.rd_err_bound [of "1/5" 1] by simp
  then have w: "0 \<le> rnd (1/5)" "rnd (1/5) \<le> 1" unfolding abs_le_iff by simp_all
  show ?thesis
    using gradient2_sheds_overload [OF spiked_simps(1,3) _ spiked_simps(4) w _ _ _ _ _ ea spiked_simps(6), of 4 60 0 False]
    unfolding spiked_simps by (simp add: is_int32_def) blast
qed

end
