(* ===== verification/Windowed_Dynamics.thy ===== *)
theory Windowed_Dynamics
  imports Windowed Gradient2_Dynamics
begin

section \<open>Where the windowed adaptive limit goes\<close>

text \<open>
  \<^verbatim>\<open>Gradient2Limit\<close> is meant to run under a \<^verbatim>\<open>WindowedLimit\<close>. Here the climb of \<open>Gradient2_Dynamics\<close> is
  carried through the window: a run of the decorator is a run of its specification (the contract
  \<open>windowed_client\<close>), and the specification hands on averages of the pending samples, which lie where the
  samples lie, with the largest in-flight count among them.
\<close>

subsection \<open>What a window reports of samples in an interval\<close>

definition sample_within :: "int \<Rightarrow> int \<Rightarrow> int \<Rightarrow> sample \<Rightarrow> bool" where
  "sample_within lo hi cap = (\<lambda>(r, i, d). lo \<le> r \<and> r \<le> hi \<and> is_int32 i \<and> cap \<le> 2 * i)"

lemma sum_list_le: "\<forall>x \<in> set xs. x \<le> m \<Longrightarrow> sum_list xs \<le> int (length xs) * (m::int)"
  by (induction xs) (auto simp: algebra_simps)

lemma average_within:
  assumes "xs \<noteq> []" and "\<forall>x \<in> set xs. sample_within lo hi cap x" and "1 \<le> lo" and "int (length xs) * hi \<le> INT64_MAX"
  shows "lo \<le> average_of xs" and "average_of xs \<le> hi"
proof -
  let ?s = "sum_list (map fst xs)"
  have b: "\<forall>x \<in> set (map fst xs). lo \<le> x" "\<forall>x \<in> set (map fst xs). x \<le> hi"
    using assms(2) by (auto simp: sample_within_def)
  have s: "int (length xs) * lo \<le> ?s" "?s \<le> int (length xs) * hi" using sum_list_ge [OF b(1)] sum_list_le [OF b(2)] by simp_all
  have "0 < ?s" using s(1) assms(1,3) by (smt (verit) length_greater_0_conv of_nat_0_less_iff zero_less_mult_iff)
  moreover have "is_int64 ?s" using s(2) assms(4) calculation by (simp add: is_int64_def)
  ultimately have a: "average_of xs = ?s div int (length xs)" by (simp add: average_of_def Let_def)
  show "lo \<le> average_of xs" unfolding a using mean_bounds [OF _ b(1)] assms(1) by simp
  have "?s div int (length xs) \<le> (int (length xs) * hi) div int (length xs)" using s(2) by (rule zdiv_mono1) (use assms(1) in simp)
  then show "average_of xs \<le> hi" unfolding a using assms(1) by simp
qed

lemma window_max_within:
  assumes "xs \<noteq> []" and "\<forall>x \<in> set xs. sample_within lo hi cap x"
  shows "is_int32 (window_max xs)" and "cap \<le> 2 * window_max xs"
proof -
  have "is_int32 (window_max xs) \<and> (xs \<noteq> [] \<longrightarrow> cap \<le> 2 * window_max xs)"
    using assms(2) by (induction xs rule: rev_induct) (auto simp: sample_within_def is_int32_def window_max_def)
  then show "is_int32 (window_max xs)" "cap \<le> 2 * window_max xs" using assms(1) by simp_all
qed

subsection \<open>The climb of the specification\<close>

text \<open>How many windows of a run end with enough samples to be handed on.\<close>

fun full_windows :: "('l, 'w) windowed \<Rightarrow> (int \<times> int \<times> int \<times> bool) list \<Rightarrow> sample list \<Rightarrow> int \<Rightarrow> nat" where
  "full_windows cfg [] ps due = 0"
| "full_windows cfg ((t, r, i, d) # xs) ps due =
     (if r < wl_min_rtt_threshold_ns cfg then full_windows cfg xs ps due
      else if t + r \<le> due then full_windows cfg xs (ps @ [(r, i, d)]) due
      else (if wl_window_size cfg \<le> int (length ps) + 1 then 1 else 0)
        + full_windows cfg xs [] (t + r
            + window_length (wl_min_window_time_ns cfg) (wl_max_window_time_ns cfg) (window_min (ps @ [(r, i, d)]))))"

lemma window_min_within:
  assumes "xs \<noteq> []" and "\<forall>x \<in> set xs. sample_within lo hi cap x" and "hi \<le> 2 ^ 39"
  shows "window_min xs \<noteq> INT64_MAX"
proof -
  have "window_min xs \<le> fst (hd xs)" using assms(1) by (intro window_min_le) simp
  moreover have "fst (hd xs) \<le> hi" using assms(1,2) hd_in_set by (fastforce simp: sample_within_def)
  ultimately show ?thesis using assms(3) by simp
qed

lemma spec_sample_climbs:
  assumes c: "g2_climbing lo hi q w (ws_delegate a)" and e: "g2_estimated_limit (ws_delegate a) = Fin e"
    and p: "\<forall>x \<in> set (ws_pending a). sample_within lo hi (g2_max_limit (ws_delegate a)) x"
    and x: "sample_within lo hi (g2_max_limit (ws_delegate a)) (r, i, d)"
    and n: "int (Suc (length (ws_pending a))) * hi \<le> INT64_MAX"
  obtains a' cs k z where "spec_sample cfg average_of Gradient2_ops t r i d a = Inr (a', cs)"
    and "g2_climbing lo hi q w (ws_delegate a')" and "g2_max_limit (ws_delegate a') = g2_max_limit (ws_delegate a)"
    and "g2_estimated_limit (ws_delegate a') = Fin z"
    and "\<forall>x \<in> set (ws_pending a'). sample_within lo hi (g2_max_limit (ws_delegate a)) x"
    and "length (ws_pending a') \<le> Suc (length (ws_pending a))"
    and "full_windows cfg ((t, r, i, d) # xs) (ws_pending a) (ws_due a) = k + full_windows cfg xs (ws_pending a') (ws_due a')"
    and "min (of_int (g2_max_limit (ws_delegate a))) (e + of_nat k * (of_int q * w - 1 / 2 ^ 16)) \<le> z"
proof -
  let ?xs = "ws_pending a @ [(r, i, d)]" and ?M = "g2_max_limit (ws_delegate a)"
  have s: "samples_in lo hi" using c by (simp add: g2_climbing_def)
  then have h: "1 \<le> lo" "hi \<le> 2 ^ 39" by (simp_all add: samples_in_def)
  have ok: "?xs \<noteq> []" "\<forall>x \<in> set ?xs. sample_within lo hi ?M x" using p x by auto
  have n': "int (length ?xs) * hi \<le> INT64_MAX" using n by simp
  note av = average_within [OF ok h(1) n'] and mx = window_max_within [OF ok] and mn = window_min_within [OF ok h(2)]
  consider "r < wl_min_rtt_threshold_ns cfg" | "\<not> r < wl_min_rtt_threshold_ns cfg" "t + r \<le> ws_due a"
    | "\<not> r < wl_min_rtt_threshold_ns cfg" "\<not> t + r \<le> ws_due a" "\<not> wl_window_size cfg \<le> int (length ?xs)"
    | "\<not> r < wl_min_rtt_threshold_ns cfg" "\<not> t + r \<le> ws_due a" "wl_window_size cfg \<le> int (length ?xs)" by blast
  then show ?thesis
  proof cases
    case 1
    then show ?thesis by (intro that [of a "[]" e 0]) (use c e p in \<open>simp_all add: spec_sample_def\<close>)
  next
    case 2
    then show ?thesis by (intro that [of "a\<lparr>ws_pending := ?xs\<rparr>" "[]" e 0]) (use c e ok(2) in \<open>simp_all add: spec_sample_def Let_def\<close>)
  next
    case 3
    let ?a = "a\<lparr>ws_pending := [], ws_due := t + r + window_length (wl_min_window_time_ns cfg) (wl_max_window_time_ns cfg) (window_min ?xs)\<rparr>"
    show ?thesis by (intro that [of ?a "[]" e 0]) (use 3 c e in \<open>simp_all add: spec_sample_def Let_def\<close>)
  next
    case 4
    obtain l cs z where l: "OnSample Gradient2_ops t (average_of ?xs) (window_max ?xs) (window_drop ?xs) (ws_delegate a) = Inr (l, cs)"
        "g2_climbing lo hi q w l" "g2_max_limit l = ?M" "g2_estimated_limit l = Fin z"
        "min (of_int ?M) (e + (of_int q * w - 1 / 2 ^ 16)) \<le> z"
      by (rule climbing_step [OF c av mx e])
    let ?a = "a\<lparr>ws_pending := [], ws_due := t + r + window_length (wl_min_window_time_ns cfg) (wl_max_window_time_ns cfg) (window_min ?xs),
      ws_delegate := l\<rparr>"
    show ?thesis by (intro that [of ?a cs z 1]) (use 4 l mn in \<open>simp_all add: spec_sample_def Let_def\<close>)
  qed
qed

lemma spec_climbs:
  assumes "g2_climbing lo hi q w (ws_delegate a)" and "g2_estimated_limit (ws_delegate a) = Fin e" and "1 / 2 ^ 16 \<le> of_int q * w"
    and "\<forall>x \<in> set (ws_pending a). sample_within lo hi (g2_max_limit (ws_delegate a)) x"
    and "\<forall>(t, x) \<in> set xs. sample_within lo hi (g2_max_limit (ws_delegate a)) x"
    and "int (length (ws_pending a) + length xs) * hi \<le> INT64_MAX"
  shows "\<exists>a' cs z. spec_feed cfg average_of Gradient2_ops xs a = Inr (a', cs) \<and> g2_climbing lo hi q w (ws_delegate a')
    \<and> g2_max_limit (ws_delegate a') = g2_max_limit (ws_delegate a) \<and> g2_estimated_limit (ws_delegate a') = Fin z
    \<and> min (of_int (g2_max_limit (ws_delegate a)))
          (e + of_nat (full_windows cfg xs (ws_pending a) (ws_due a)) * (of_int q * w - 1 / 2 ^ 16)) \<le> z"
  using assms(1,2,4,5,6)
proof (induction xs arbitrary: a e)
  case Nil
  then show ?case by simp
next
  case (Cons x xs)
  obtain t r i d where x: "x = (t, r, i, d)" by (cases x)
  let ?M = "g2_max_limit (ws_delegate a)" and ?h = "of_int q * w - 1 / 2 ^ 16"
  have hi: "0 \<le> hi" using Cons.prems(1) by (simp add: g2_climbing_def samples_in_def)
  have "int (Suc (length (ws_pending a))) * hi \<le> int (length (ws_pending a) + length (x # xs)) * hi"
    using hi by (intro mult_right_mono) auto
  then have n: "int (Suc (length (ws_pending a))) * hi \<le> INT64_MAX" using Cons.prems(5) by linarith
  have sx: "sample_within lo hi ?M (r, i, d)" using Cons.prems(4) by (simp add: x)
  obtain a' cs k z where a': "spec_sample cfg average_of Gradient2_ops t r i d a = Inr (a', cs)"
      "g2_climbing lo hi q w (ws_delegate a')" "g2_max_limit (ws_delegate a') = ?M" "g2_estimated_limit (ws_delegate a') = Fin z"
      "\<forall>x \<in> set (ws_pending a'). sample_within lo hi ?M x" "length (ws_pending a') \<le> Suc (length (ws_pending a))"
      "full_windows cfg ((t, r, i, d) # xs) (ws_pending a) (ws_due a) = k + full_windows cfg xs (ws_pending a') (ws_due a')"
      "min (of_int ?M) (e + of_nat k * ?h) \<le> z"
    by (rule spec_sample_climbs [OF Cons.prems(1-3) sx n])
  have "int (length (ws_pending a') + length xs) * hi \<le> int (length (ws_pending a) + length (x # xs)) * hi"
    using hi a'(6) by (intro mult_right_mono) auto
  then have "int (length (ws_pending a') + length xs) * hi \<le> INT64_MAX" using Cons.prems(5) by linarith
  then obtain a2 cs2 z2 where a2: "spec_feed cfg average_of Gradient2_ops xs a' = Inr (a2, cs2)" "g2_climbing lo hi q w (ws_delegate a2)"
      "g2_max_limit (ws_delegate a2) = ?M" "g2_estimated_limit (ws_delegate a2) = Fin z2"
      "min (of_int ?M) (z + of_nat (full_windows cfg xs (ws_pending a') (ws_due a')) * ?h) \<le> z2"
    using Cons.IH [OF a'(2,4)] a'(3,5) Cons.prems(4) by auto
  have "min (of_int ?M) (e + (of_nat k + of_nat (full_windows cfg xs (ws_pending a') (ws_due a'))) * ?h) \<le> z2"
    by (rule climb_trans [OF a'(8) a2(5)]) (use assms(3) in simp)
  then show ?case using a'(1,7) a2(1-4) by (simp add: x)
qed

text \<open>
  C8. The production pair climbs: a \<^verbatim>\<open>WindowedLimit\<close> with its default slots over a \<^verbatim>\<open>Gradient2Limit\<close> that can climb, fed
  samples with latencies between \<open>lo\<close> and \<open>hi\<close> and at least half of \<^verbatim>\<open>MaxConcurrency\<close> in flight, reaches no undefined
  behaviour and publishes \<^verbatim>\<open>MaxConcurrency\<close> once \<open>(MaxConcurrency - InitialLimit) / (q w - 2^-16)\<close> windows have ended with enough samples,
  as long as the sum of the latencies of a window fits 64 bits.
\<close>

theorem windowed_gradient2_climbs:
  assumes "gb_climbs lo hi q w g" and "Windowed_Build b (Gradient2_Build g :: 'cb gradient2) = Inr s0"
    and "wb_sample_window_factory b = None" and "\<forall>x \<in> set xs. tame s0 x" and "int (length xs) \<le> INT_MAX"
    and "\<forall>(t, r, i, d) \<in> set xs. lo \<le> r \<and> r \<le> hi \<and> is_int32 i \<and> gb_max_concurrency g \<le> 2 * i"
    and "int (length xs) * hi \<le> INT64_MAX"
    and "of_int (gb_max_concurrency g - gb_initial_limit g) \<le> of_nat (full_windows s0 xs [] 0) * (of_int q * w - 1 / 2 ^ 16)"
  shows "\<exists>s cs. feed (Windowed_ops SampleWindow_ops Gradient2_ops) xs s0 = Inr (s, cs)
    \<and> GetLimit (Windowed_ops SampleWindow_ops Gradient2_ops) s = gb_max_concurrency g"
proof -
  let ?a = "\<lparr>ws_delegate = Gradient2_Build g :: 'cb gradient2, ws_pending = [], ws_due = 0\<rparr>"
  obtain a' cs z where a': "spec_feed s0 average_of Gradient2_ops xs ?a = Inr (a', cs)" "g2_climbing lo hi q w (ws_delegate a')"
      "g2_max_limit (ws_delegate a') = gb_max_concurrency g" "g2_estimated_limit (ws_delegate a') = Fin z"
      "min (of_int (gb_max_concurrency g)) (of_int (gb_initial_limit g) + of_nat (full_windows s0 xs [] 0) * (of_int q * w - 1 / 2 ^ 16)) \<le> z"
    using spec_climbs [of lo hi q w ?a "of_int (gb_initial_limit g)" xs s0] climbing_built [OF assms(1)] assms(6,7)
    by (auto simp: sample_within_def)
  have "of_int (g2_max_limit (ws_delegate a')) \<le> z" using a'(3,5) assms(8) by simp
  note top = climbing_at_max [OF a'(2,4) this]
  have "res_rel (win_rel dyn_ok dyn_holds dyn_track s0 average_of) (feed (Windowed_ops SampleWindow_ops Gradient2_ops) xs s0)
      (spec_feed s0 average_of Gradient2_ops xs ?a)"
    by (rule windowed_gradient2.refines_feed)
       (use assms(4,5) Windowed_Build_rel [OF assms(2,3)] Windowed_Build_ok [OF assms(2)] in simp_all)
  then obtain s where s: "feed (Windowed_ops SampleWindow_ops Gradient2_ops) xs s0 = Inr (s, cs)"
      "win_rel dyn_ok dyn_holds dyn_track s0 average_of s a'"
    unfolding a'(1) by (cases "feed (Windowed_ops SampleWindow_ops Gradient2_ops) xs s0") auto
  then have "wl_delegate s = ws_delegate a'" by (simp add: win_rel_def)
  then show ?thesis using s(1) top a'(3) by (simp add: Windowed_ops_def)
qed

theorem windowed_gradient2_climbs_witness:
  "\<exists>s0 s cs. Windowed_Build (WindowSize 1 Windowed_Builder) (Gradient2_Build (MaxConcurrency 22 Gradient2_Builder) :: nat gradient2) = Inr s0
    \<and> feed (Windowed_ops SampleWindow_ops Gradient2_ops)
        [(0, 1000000, 20, False), (2000000000, 1100000, 20, False), (4000000000, 1000000, 20, False)] s0 = Inr (s, cs)
    \<and> GetLimit (Windowed_ops SampleWindow_ops Gradient2_ops) s = 22"
proof -
  let ?g = "MaxConcurrency 22 Gradient2_Builder"
  let ?xs = "[(0, 1000000, 20, False), (2000000000, 1100000, 20, False), (4000000000, 1000000, 20, False)] :: (int \<times> int \<times> int \<times> bool) list"
  obtain s0 where s0: "Windowed_Build (WindowSize 1 Windowed_Builder) (Gradient2_Build ?g :: nat gradient2) = Inr s0"
      "wl_min_window_time_ns s0 = 1000000000" "wl_max_window_time_ns s0 = 1000000000" "wl_window_size s0 = 1" "wl_min_rtt_threshold_ns s0 = 100000"
    by (simp add: Windowed_Build_def Windowed_Builder_def WindowSize_def Windowed_new_def)
  have g: "gb_initial_limit ?g = 20" "gb_max_concurrency ?g = 22" by (simp_all add: Gradient2_Builder_def MaxConcurrency_def)
  have f: "full_windows s0 ?xs [] 0 = 3" by (simp add: s0(2-5) window_length_def)
  have "of_int (22 - 20) \<le> of_nat 3 * (of_int 5 * rnd (1/5) - 1 / 2 ^ 16)" using default_climbs(2) [of 22] by simp
  moreover have "\<forall>x \<in> set ?xs. tame s0 x" by (simp add: tame_def s0(3) is_int32_def is_int64_def)
  moreover have "wb_sample_window_factory (WindowSize 1 Windowed_Builder) = None" by (simp add: WindowSize_def Windowed_Builder_def)
  ultimately show ?thesis
    using windowed_gradient2_climbs [OF default_climbs(1) [of 22] s0(1), of ?xs] s0(1) unfolding f g by (simp add: is_int32_def)
qed

end
