(* ===== verification/Limit_Stack.thy ===== *)
theory Limit_Stack
  imports Tracing Blocking Lifo_Blocking
begin

section \<open>Limits under limits, limiters over limiters\<close>

text \<open>
  A deployment stacks the components: a queue (\<^verbatim>\<open>BlockingLimiter\<close>, \<^verbatim>\<open>LifoBlockingLimiter\<close>) over a gate
  (\<^verbatim>\<open>SimpleLimiter\<close>) over a window (\<^verbatim>\<open>WindowedLimit\<close>) over an algorithm (\<^verbatim>\<open>Gradient2Limit\<close>). What the
  operator configures is at the bottom, \<^verbatim>\<open>MaxConcurrency\<close>, and what it is meant to bound is at the top,
  the number of requests that hold a slot. The locale \<open>capped_limit\<close> is the contract that travels through the
  layers: every decorator of a capped limit is capped, and a gate over a capped limit holds at
  most so many slots, whatever the program on top does with them.
\<close>

locale capped_limit =
  fixes ops :: "('l, 'cb) limit_ops" and inv :: "'l \<Rightarrow> bool" and lo hi :: int
  assumes sampled: "inv l \<Longrightarrow> OnSample ops t r i d l = Inr (l', cs) \<Longrightarrow> inv l'"
    and registered: "inv l \<Longrightarrow> inv (NotifyOnChange ops cb l)"
    and cap_range: "inv l \<Longrightarrow> lo \<le> GetLimit ops l \<and> GetLimit ops l \<le> hi"
    and cap_int: "inv l \<Longrightarrow> is_int32 lo \<and> is_int32 hi"

text \<open>What holds of a limiter over such a limit: \<open>n\<close> calls, of which the guards \<open>M\<close> are live.\<close>

definition within_cap :: "('l \<Rightarrow> bool) \<Rightarrow> int \<Rightarrow> nat \<Rightarrow> ('l, 'z) abstract_limiter_scheme \<Rightarrow> slot_guard multiset \<Rightarrow> bool" where
  "within_cap ok hi n s M \<longleftrightarrow> ok (al_limit s) \<and> balanced (int n) (int (size M)) s \<and> int (size M) \<le> max 0 hi"

context capped_limit
begin

subsection \<open>Decorators\<close>

lemma windowed: "capped_limit (Windowed_ops wops ops) (\<lambda>s. inv (wl_delegate s)) lo hi"
proof unfold_locales
  fix s t r i d s' cs
  assume i: "inv (wl_delegate s)" and "OnSample (Windowed_ops wops ops) t r i d s = Inr (s', cs)"
  then have "wl_delegate s' = wl_delegate s \<or> (\<exists>t r i d. OnSample ops t r i d (wl_delegate s) = Inr (wl_delegate s', cs))"
    by (auto simp: Windowed_ops_def elim: Windowed_OnSample_cases)
  then show "inv (wl_delegate s')" using i sampled by auto
qed (use registered cap_range cap_int in \<open>auto simp: Windowed_ops_def\<close>)

lemma traced: "capped_limit (Tracing_ops ops) (\<lambda>s. inv (tr_delegate s)) lo hi"
  by unfold_locales
     (use registered cap_range cap_int in \<open>auto simp: Tracing_ops_def Tracing_OnSample_def Let_def bind_res_Inr intro: sampled\<close>)

subsection \<open>A gate over it\<close>

lemma within_inflight:
  assumes "within_cap inv hi n s M"
  shows "al_inflight s = int (size M)" and "is_int32 (GetLimit ops (al_limit s))" and "is_int32 (al_inflight s)"
proof -
  have i: "inv (al_limit s)" "balanced (int n) (int (size M)) s" "int (size M) \<le> max 0 hi"
    using assms by (simp_all add: within_cap_def)
  have h: "is_int32 lo" "is_int32 hi" using cap_int [OF i(1)] by simp_all
  have "is_int32 (int (size M))" using i(3) h by (auto simp: is_int32_def)
  then show "al_inflight s = int (size M)" by (rule balanced_inflight [OF i(2)])
  then show "is_int32 (al_inflight s)" using \<open>is_int32 (int (size M))\<close> by simp
  show "is_int32 (GetLimit ops (al_limit s))" using cap_range [OF i(1)] h by (auto simp: is_int32_def)
qed

lemma within_admits:
  assumes w: "within_cap inv hi n s M" and a: "DoTryAcquire (Simple_ops ops fails) now ctx s = Inr (res, s')"
  shows "within_cap inv hi (Suc n) s' (case res of Some g \<Rightarrow> if live g then add_mset g M else M | None \<Rightarrow> M)"
proof -
  note f = within_inflight [OF w]
  have b: "balanced (int n) (int (size M)) s" "inv (al_limit s)" "int (size M) \<le> max 0 hi"
    using w by (simp_all add: within_cap_def)
  let ?M = "case res of Some g \<Rightarrow> if live g then add_mset g M else M | None \<Rightarrow> M"
  have bal: "balanced (int (Suc n)) (int (size ?M)) s'"
    using a b(1) simple.books.admitted [where s = s and s' = s' and M = M and n = n] simple.books.turned_away [where s = s and s' = s' and M = M and n = n]
    by (cases res) (force simp: Simple_ops_def)+
  have "al_limit s' = al_limit s \<and> int (size ?M) \<le> max 0 hi"
    using a b(3) f(1) Simple_loop_decides [OF f(2,3), of fails] cap_range [OF b(2)]
    by (auto simp: Simple_ops_def AbstractLimiter_ops_def AbstractLimiter_DoTryAcquire_def Simple_DoAcquire_def
        count_outcome_def MakeSlot_def live_def split: if_splits option.splits)
  then show ?thesis using bal b(2) by (simp add: within_cap_def)
qed

lemma notify_limit:
  assumes "SlotGuard_notify (Simple_ops ops fails) st now g s = Inr (s', cs)" and "inv (al_limit s)"
  shows "inv (al_limit s')"
  using assms sampled
  by (auto simp: SlotGuard_notify_def Simple_ops_def AbstractLimiter_ops_def AbstractLimiter_OnSlotComplete_def
      AbstractLimiter_OnReleasePartition_def Let_def bind_res_Inr count_outcome_def split: if_splits)

end

sublocale capped_limit \<subseteq> gate: guard_invariant "Simple_ops ops fails" "within_cap inv hi" for fails
proof unfold_locales
  fix n :: nat and s s' :: "'l abstract_limiter" and M :: "slot_guard multiset" and now ctx and g :: slot_guard and st cs
  assume w: "within_cap inv hi n s M"
  show "within_cap inv hi (Suc n) s' (if live g then add_mset g M else M)"
    if "DoTryAcquire (Simple_ops ops fails) now ctx s = Inr (Some g, s')" using within_admits [OF w that] by simp
  show "within_cap inv hi (Suc n) s' M" if "DoTryAcquire (Simple_ops ops fails) now ctx s = Inr (None, s')"
    using within_admits [OF w that] by simp
  show "within_cap inv hi n s' M" if "sg_bypassed g" "SlotGuard_notify (Simple_ops ops fails) st now g s = Inr (s', cs)"
    using w that by (simp add: SlotGuard_notify_def Simple_ops_def AbstractLimiter_ops_def AbstractLimiter_OnSlotComplete_def)
next
  fix n :: nat and s s' :: "'l abstract_limiter" and M :: "slot_guard multiset" and now and g :: slot_guard and st cs
  assume w: "within_cap inv hi n s (add_mset g M)" and l: "live g"
    and r: "SlotGuard_notify (Simple_ops ops fails) st now g s = Inr (s', cs)"
  have "balanced (int n) (int (size M)) s'"
    using simple.books.finished [where s = s and s' = s' and M = M and n = n and g = g] w l r
    by (simp add: within_cap_def Simple_ops_def)
  then show "within_cap inv hi n s' M" using w notify_limit [OF r] by (simp add: within_cap_def)
qed

text \<open>The queues over such a gate are programs that use its guards.\<close>

sublocale capped_limit \<subseteq> fifo_room: guarded_room "Simple_ops ops fails" "within_cap inv hi" Blocking_park Blocking_erase for fails
  by unfold_locales

sublocale capped_limit \<subseteq> lifo_room: guarded_room "Simple_ops ops fails" "within_cap inv hi" Lifo_park Lifo_erase for fails
  by unfold_locales

subsection \<open>The stack of the library's own components\<close>

abbreviation gradient2_capped :: "int \<Rightarrow> int \<Rightarrow> 'cb gradient2 \<Rightarrow> bool" where
  "gradient2_capped lo hi s \<equiv> g2_inv s \<and> g2_bounded s \<and> g2_min_limit s = lo \<and> g2_max_limit s = hi"

interpretation gradient2_cap: capped_limit Gradient2_ops "gradient2_capped lo hi" lo hi for lo hi
proof unfold_locales
  fix l l' :: "'cb gradient2" and t r i d cs
  assume l: "gradient2_capped lo hi l" and s: "OnSample Gradient2_ops t r i d l = Inr (l', cs)"
  then have "g2_min_limit l \<le> g2_max_limit l" using g2_bounded_limit [of l] by simp
  then show "gradient2_capped lo hi l'" using l s by (auto elim: Gradient2_OnSample_effect [of l t r i d])
next
  fix l :: "'cb gradient2" and cb
  assume "gradient2_capped lo hi l"
  then show "gradient2_capped lo hi (NotifyOnChange Gradient2_ops cb l)"
    using gradient2.notify_inv [of l cb] by (auto simp: Gradient2_ops_def limen_simps g2_bounded_def)
qed (use g2_bounded_limit in \<open>auto simp: g2_inv_def g2_config_def\<close>)

interpretation windowed_cap: capped_limit "Windowed_ops wops Gradient2_ops" "\<lambda>s. gradient2_capped lo hi (wl_delegate s)" lo hi
  for wops lo hi
  by (rule gradient2_cap.windowed)

interpretation traced_cap: capped_limit "Tracing_ops (Windowed_ops wops Gradient2_ops)"
  "\<lambda>s. gradient2_capped lo hi (wl_delegate (tr_delegate s))" lo hi for wops lo hi
  by (rule windowed_cap.traced)

abbreviation stack_ops :: "bool list \<Rightarrow> ((('cb gradient2, sample_window) windowed) abstract_limiter, 'cb) limiter_ops" where
  "stack_ops fails \<equiv> Simple_ops (Windowed_ops SampleWindow_ops Gradient2_ops) fails"

lemma stack_built:
  assumes "gb_ok g" and "gb_min_limit g \<le> gb_initial_limit g" and "gb_initial_limit g \<le> gb_max_concurrency g"
    and "Windowed_Build wb (Gradient2_Build g) = Inr l" and "Simple_Build (Simple_Limit (Some l) sb) = Inr s"
  shows "within_cap (\<lambda>l. gradient2_capped (gb_min_limit g) (gb_max_concurrency g) (wl_delegate l)) (gb_max_concurrency g) 0 s {#}"
proof -
  have "is_int32 (gb_initial_limit g)" using assms(1) by (simp add: gb_ok_def)
  then have "gradient2_capped (gb_min_limit g) (gb_max_concurrency g) (Gradient2_Build g)"
    using Gradient2_Build_inv [OF assms(1)] assms(2,3) by (simp add: g2_bounded_def)
  moreover have "wl_delegate (al_limit s) = Gradient2_Build g"
    using Windowed_Build_ok(2) [OF assms(4)] assms(5) by (auto simp: Simple_Build_def Simple_Limit_def AbstractLimiter_new_def)
  ultimately show ?thesis using Simple_Build_balanced [OF assms(5)] by (simp add: within_cap_def)
qed

text \<open>
  C5. What is configured at the bottom holds at the top: in a \<^verbatim>\<open>BlockingLimiter\<close> over a \<^verbatim>\<open>SimpleLimiter\<close> over a
  \<^verbatim>\<open>WindowedLimit\<close> over a \<^verbatim>\<open>Gradient2Limit\<close>, each built by its builder, the last with \<^verbatim>\<open>MinLimit\<close> \<open>\<le>\<close> \<^verbatim>\<open>InitialLimit\<close> \<open>\<le>\<close>
  \<^verbatim>\<open>MaxConcurrency\<close> (which the builder does not check, and without which the claim is false) and a queue size function that returns (\<open>gb_ok\<close>), in every interleaving of calls that acquire,
  park, are served, time out and complete with any outcome and any latency, the cap is between \<^verbatim>\<open>MinLimit\<close> and \<^verbatim>\<open>MaxConcurrency\<close>, the
  in-flight count is the number of slots held in the stack, and never more than \<^verbatim>\<open>MaxConcurrency\<close> of them are held
  at once, although the cap moves.
\<close>

theorem stack_within_max_concurrency:
  assumes "gb_ok g" and "gb_min_limit g \<le> gb_initial_limit g" and "gb_initial_limit g \<le> gb_max_concurrency g"
    and "Windowed_Build wb (Gradient2_Build g) = Inr l" and "Simple_Build (Simple_Limit (Some l) sb) = Inr d"
    and "Blocking_Build StrCat (Blocking_Delegate (Some d) b) = Inr s0"
    and "(Blocking_step tm (stack_ops fails))\<^sup>*\<^sup>* (room_init n s0) c"
  shows "let s = wt_delegate (rm_state c); held = int (size (filter_mset live (owned c)));
             cap = Limiter_GetLimit (Windowed_ops SampleWindow_ops Gradient2_ops) s in
    InflightCount s = held \<and> held \<le> max 0 (gb_max_concurrency g)
    \<and> gb_min_limit g \<le> cap \<and> cap \<le> gb_max_concurrency g"
proof -
  let ?lo = "gb_min_limit g" and ?hi = "gb_max_concurrency g"
  note s0 = Blocking_Build_state [OF assms(6)]
  have "wt_delegate s0 = d" using s0(4) by (simp add: Blocking_Delegate_def)
  then have i: "within_cap (\<lambda>l. gradient2_capped ?lo ?hi (wl_delegate l)) ?hi 0 (wt_delegate s0) {#}"
    using stack_built [OF assms(1-5)] by simp
  from windowed_cap.fifo_room.reach_keeps [OF assms(7) room_ok_init [OF s0(1,2)] windowed_cap.fifo_room.init_keeps [OF i s0(2)]]
  obtain m where "within_cap (\<lambda>l. gradient2_capped ?lo ?hi (wl_delegate l)) ?hi m (wt_delegate (rm_state c)) (filter_mset live (owned c))"
    by (auto simp: windowed_cap.fifo_room.keeps_def)
  then show ?thesis
    using windowed_cap.within_inflight(1) windowed_cap.cap_range
    unfolding Let_def InflightCount_def Limiter_GetLimit_def within_cap_def by blast
qed

text \<open>The same behind the last-in-first-out queue, and for a program that holds the guards itself over a
  stack with a tracing decorator in it.\<close>

lemma lifo_stack_within_max_concurrency:
  assumes "gb_ok g" and "gb_min_limit g \<le> gb_initial_limit g" and "gb_initial_limit g \<le> gb_max_concurrency g"
    and "Windowed_Build wb (Gradient2_Build g) = Inr l" and "Simple_Build (Simple_Limit (Some l) sb) = Inr d"
    and "Lifo_Build StrCat (Lifo_Delegate (Some d) b) = Inr s0" and "(Lifo_step tm (stack_ops fails))\<^sup>*\<^sup>* (room_init n s0) c"
  shows "int (size (filter_mset live (owned c))) \<le> max 0 (gb_max_concurrency g)"
proof -
  note s0 = Lifo_Build_state [OF assms(6)]
  have "wt_delegate s0 = d" using s0(4) by (simp add: Lifo_Delegate_def)
  then have i: "within_cap (\<lambda>l. gradient2_capped (gb_min_limit g) (gb_max_concurrency g) (wl_delegate l)) (gb_max_concurrency g)
      0 (wt_delegate s0) {#}"
    using stack_built [OF assms(1-5)] by simp
  from windowed_cap.lifo_room.reach_keeps [OF assms(7) room_ok_init [OF s0(1,2)] windowed_cap.lifo_room.init_keeps [OF i s0(2)]]
  show ?thesis by (auto simp: windowed_cap.lifo_room.keeps_def within_cap_def)
qed

lemma traced_program_within_max_concurrency:
  assumes "within_cap (\<lambda>l. gradient2_capped lo hi (wl_delegate (tr_delegate l))) hi 0 s {#}"
    and "world_reach (Simple_ops (Tracing_ops (Windowed_ops wops Gradient2_ops)) fails) s w"
  shows "live_count (w_guards w) \<le> max 0 hi"
  using traced_cap.gate.reach_invariant [OF assms(2,1)] by (simp add: within_cap_def live_count_size)

text \<open>The defaults of all four builders, and one call that is admitted.\<close>

theorem stack_within_max_concurrency_witness:
  "\<exists>l d s0 c. Windowed_Build Windowed_Builder (Gradient2_Build Gradient2_Builder :: nat gradient2) = Inr l
     \<and> Simple_Build (Simple_Limit (Some l) Simple_Builder) = Inr d
     \<and> Blocking_Build (\<lambda>_. ''3600000'') (Blocking_Delegate (Some d) (Blocking_Timeout 1000 Blocking_Builder)) = Inr s0
     \<and> (Blocking_step ticks (stack_ops []))\<^sup>*\<^sup>* (room_init 1 s0) c
     \<and> InflightCount (wt_delegate (rm_state c)) = 1
     \<and> Limiter_GetLimit (Windowed_ops SampleWindow_ops Gradient2_ops) (wt_delegate (rm_state c)) \<le> 200"
proof -
  obtain l :: "(nat gradient2, sample_window) windowed" where l: "Windowed_Build Windowed_Builder (Gradient2_Build Gradient2_Builder) = Inr l"
    by (simp add: Windowed_Build_def Windowed_Builder_def Let_def)
  obtain d where d: "Simple_Build (Simple_Limit (Some l) Simple_Builder) = Inr d" "d = AbstractLimiter_new l [] None False"
    by (simp add: Simple_Build_def Simple_Limit_def Simple_Builder_def)
  define s0 where "s0 = Blocking_new d 1000"
  have b: "Blocking_Build (\<lambda>_. ''3600000'') (Blocking_Delegate (Some d) (Blocking_Timeout 1000 Blocking_Builder)) = Inr s0"
    by (simp add: Blocking_Build_def Blocking_Delegate_def Blocking_Timeout_def Blocking_Builder_def s0_def kMaxTimeout_def)
  have g: "gb_min_limit Gradient2_Builder = 20" "gb_initial_limit Gradient2_Builder = 20" "gb_max_concurrency Gradient2_Builder = 200"
    by (simp_all add: Gradient2_Builder_def)
  have "GetLimit (Windowed_ops SampleWindow_ops Gradient2_ops) (al_limit d) = 20"
    using Windowed_Build_ok(2) [OF l] g by (simp add: d(2) AbstractLimiter_new_def Windowed_ops_def)
  then have t: "TryAcquire (stack_ops []) 7 ''a'' d = Inr (Some (MakeSlot 7 1 False (- 1)), d\<lparr>al_inflight := 1\<rparr>)"
    using Simple_TryAcquire [of d "Windowed_ops SampleWindow_ops Gradient2_ops" "[]" 7 "''a''"]
    by (simp add: d(2) AbstractLimiter_new_def is_int32_def)
  let ?c0 = "room_init 1 s0 :: ((nat gradient2, sample_window) windowed abstract_limiter blocking, int) room"
  define c where "c = ?c0\<lparr>rm_state := (rm_state ?c0)\<lparr>wt_delegate := d\<lparr>al_inflight := 1\<rparr>\<rparr>, rm_callers := [Wrapping (MakeSlot 7 1 False (- 1))]\<rparr>"
  have "Blocking_step ticks (stack_ops []) ?c0 c"
    using room_step.fast_admits [of 0 ?c0 "stack_ops []" 7 "''a''" "MakeSlot 7 1 False (- 1)" "d\<lparr>al_inflight := 1\<rparr>"] t
    by (simp add: room_init_def c_def s0_def Blocking_new_def)
  then have r: "(Blocking_step ticks (stack_ops []))\<^sup>*\<^sup>* ?c0 c" by (rule r_into_rtranclp)
  have "filter_mset live (owned c) = {#MakeSlot 7 1 False (- 1)#}"
    by (simp add: c_def room_init_def owned_def s0_def Blocking_new_def MakeSlot_def live_def)
  then have "InflightCount (wt_delegate (rm_state c)) = 1"
    "Limiter_GetLimit (Windowed_ops SampleWindow_ops Gradient2_ops) (wt_delegate (rm_state c)) \<le> 200"
    using stack_within_max_concurrency [OF Gradient2_Builder_ok _ _ l d(1) b r] g by (simp_all add: Let_def)
  then show ?thesis using l d(1) b r by blast
qed

end
