(* ===== verification/Waiting_Progress.thy ===== *)
theory Waiting_Progress
  imports Limit_Stack
begin

section \<open>Every call can leave\<close>

text \<open>
  The invariants of the waiting room say that nothing goes wrong; this theory says that nothing gets
  stuck. The mutex of \<^verbatim>\<open>BlockingLimiter\<close> and \<^verbatim>\<open>LifoBlockingLimiter\<close> is held across calls of the delegate, a call
  waits for a notification that may be lost, and a slot changes hands in several steps: from every
  state that can be reached, whoever is where, any call can still be run to its end.
\<close>

subsection \<open>A delegate that answers\<close>

text \<open>Requests and completions return; of a completion it is enough that there is a time at which it
  does (the round-trip time must fit 64 bits).\<close>

locale responsive_delegate =
  fixes dops :: "('d, 'cb) limiter_ops" and good :: "'d \<Rightarrow> bool"
  assumes try_returns: "good d \<Longrightarrow> \<exists>res d'. TryAcquire dops now ctx d = Inr (res, d')"
    and try_good: "good d \<Longrightarrow> TryAcquire dops now ctx d = Inr (res, d') \<Longrightarrow> good d'"
    and notify_returns: "good d \<Longrightarrow> \<exists>now d' cs. SlotGuard_notify dops st now g d = Inr (d', cs)"
    and notify_good: "good d \<Longrightarrow> SlotGuard_notify dops st now g d = Inr (d', cs) \<Longrightarrow> good d'"
begin

lemma destroy_good: "good d \<Longrightarrow> SlotGuard_destroy dops now g d = Inr (d', cs) \<Longrightarrow> good d'"
  by (auto simp: SlotGuard_destroy_def split: if_splits dest: notify_good)

lemma emplace_good: "good (wt_delegate s) \<Longrightarrow> wait_emplace dops now k g s = Inr (s', cs) \<Longrightarrow> good (wt_delegate s')"
  by (auto simp: wait_emplace_def bind_res_Inr split: if_splits dest: destroy_good)

lemma emplace_returns: "good (wt_delegate s) \<Longrightarrow> \<exists>now s' cs. wait_emplace dops now k g s = Inr (s', cs)"
proof -
  assume "good (wt_delegate s)"
  from notify_returns [OF this] obtain now d' cs where "SlotGuard_notify dops kIgnored now g (wt_delegate s) = Inr (d', cs)" by blast
  then have "\<exists>s' cs. wait_emplace dops now k g s = Inr (s', cs)" by (simp add: wait_emplace_def SlotGuard_destroy_def)
  then show ?thesis by blast
qed

lemma mirror_good: "good (wt_delegate s) \<Longrightarrow> wait_mirror dops st now g s = Inr (s', cs) \<Longrightarrow> good (wt_delegate s')"
  by (auto simp: wait_mirror_eq SlotGuard_Complete_def bind_res_Inr split: if_splits dest: notify_good)

lemma mirror_returns: "good (wt_delegate s) \<Longrightarrow> \<exists>now s' cs. wait_mirror dops st now g s = Inr (s', cs)"
proof -
  assume "good (wt_delegate s)"
  from notify_returns [OF this] obtain now d' cs where "SlotGuard_notify dops st now g (wt_delegate s) = Inr (d', cs)" by blast
  then have "\<exists>s' cs. wait_mirror dops st now g s = Inr (s', cs)" by (simp add: wait_mirror_eq SlotGuard_Complete_def)
  then show ?thesis by blast
qed

lemma round_good: "good (wt_delegate s) \<Longrightarrow> wait_round dops now s = Inr (b, s') \<Longrightarrow> good (wt_delegate s')"
  by (auto simp: wait_round_def bind_res_Inr split: list.splits option.splits dest: try_good) (blast dest: try_good destroy_good)+

end

subsection \<open>The mutex\<close>

definition mutex_ok :: "('s, 't) room \<Rightarrow> bool" where
  "mutex_ok c \<longleftrightarrow> (\<forall>j. rm_mu c = Some j \<longleftrightarrow> j < length (rm_callers c) \<and> rm_callers c ! j = Walking)"

lemma mutex_moves:
  assumes "mutex_ok c" and "rm_callers c' = (rm_callers c)[i := x]" and "rm_mu c' = rm_mu c" and "x \<noteq> Walking" and "rm_callers c ! i \<noteq> Walking"
  shows "mutex_ok c'"
  unfolding mutex_ok_def
proof
  fix j
  have "rm_mu c = Some j \<longleftrightarrow> j < length (rm_callers c) \<and> rm_callers c ! j = Walking" using assms(1) by (simp add: mutex_ok_def)
  then show "rm_mu c' = Some j \<longleftrightarrow> j < length (rm_callers c') \<and> rm_callers c' ! j = Walking"
    using assms(2-5) by (cases "j = i") (simp_all add: nth_list_update)
qed

lemma mutex_changes:
  assumes "mutex_ok c" and "i < length (rm_callers c)" and "rm_callers c' = (rm_callers c)[i := x]"
    and "rm_mu c = None \<and> x = Walking \<and> rm_mu c' = Some i \<or> rm_callers c ! i = Walking \<and> x = Outside \<and> rm_mu c' = None"
  shows "mutex_ok c'"
  unfolding mutex_ok_def
proof
  fix j
  have m: "rm_mu c = Some k \<longleftrightarrow> k < length (rm_callers c) \<and> rm_callers c ! k = Walking" for k using assms(1) by (simp add: mutex_ok_def)
  show "rm_mu c' = Some j \<longleftrightarrow> j < length (rm_callers c') \<and> rm_callers c' ! j = Walking"
    using assms(2-4) m [of j] m [of i] by (cases "j = i") (auto simp: nth_list_update)
qed

lemma step_mutex:
  assumes "room_step park erase deadline dops c c'" and m: "mutex_ok c"
  shows "mutex_ok c'"
  using assms(1)
proof cases
  case (locks i)
  then show ?thesis using mutex_changes [OF m, of i c' Walking] by simp
next
  case (serves i now s)
  then show ?thesis using m by (simp add: mutex_ok_def)
next
  case (unlocks i now s)
  then show ?thesis using mutex_changes [OF m, of i c' Outside] by simp
qed (use mutex_moves [OF m, of c'] in auto)

lemma mutex_init: "mutex_ok (room_init n s)"
  by (auto simp: mutex_ok_def room_init_def)

subsection \<open>No guard is left behind\<close>

text \<open>Every guard in the slot map is there for an outer guard that is with the application, even after the
  ids have wrapped around and two outer guards share one.\<close>

definition keyed :: "(('d, 'z) waiting_scheme, 't) room \<Rightarrow> bool" where
  "keyed c \<longleftrightarrow> (\<forall>k \<in> fst ` set (wt_active_slots (rm_state c)). Returned k \<in> set (rm_callers c))"

lemma keyed_moves:
  assumes "keyed c" and "i < length (rm_callers c)" and "rm_callers c' = (rm_callers c)[i := x]"
    and "\<And>k. k \<in> fst ` set (wt_active_slots (rm_state c')) \<Longrightarrow> x = Returned k
      \<or> k \<in> fst ` set (wt_active_slots (rm_state c)) \<and> rm_callers c ! i \<noteq> Returned k"
  shows "keyed c'"
  unfolding keyed_def
proof
  fix k assume k: "k \<in> fst ` set (wt_active_slots (rm_state c'))"
  show "Returned k \<in> set (rm_callers c')"
  proof (cases "x = Returned k")
    case True
    then show ?thesis using assms(2,3) by (simp add: set_update_memI)
  next
    case False
    then have "Returned k \<in> set (rm_callers c)" and ne: "rm_callers c ! i \<noteq> Returned k" using assms(1) assms(4) [OF k] by (auto simp: keyed_def)
    then obtain j where "j < length (rm_callers c)" "rm_callers c ! j = Returned k" by (auto simp: in_set_conv_nth)
    then show ?thesis using ne assms(3) by (cases "j = i") (auto simp: in_set_conv_nth intro!: exI [of _ j])
  qed
qed

lemma step_keyed:
  assumes "room_step park erase deadline dops c c'" and k: "keyed c"
  shows "keyed c'"
  using assms(1)
proof cases
  case (stores i n g now s cs)
  then have "k = n \<or> k \<in> fst ` set (wt_active_slots (rm_state c))" if "k \<in> fst ` set (wt_active_slots s)" for k
    using that by (auto simp: wait_emplace_def bind_res_Inr split: if_splits)
  then show ?thesis by (intro keyed_moves [OF k stores(2), of c' "Returned n"]) (auto simp: stores(1,3))
next
  case (takes i n inner s st)
  then have "k \<in> fst ` set (wt_active_slots (rm_state c)) \<and> k \<noteq> n" if "k \<in> fst ` set (wt_active_slots s)" for k
    using that by (auto simp: wait_take_def map_of_eq_None_iff split: option.splits)
  then show ?thesis using keyed_moves [OF k takes(2), of c' "Finishing st inner"] takes(1,3) by auto
next
  case (mirrors i st g now s cs)
  then have "wt_active_slots s = wt_active_slots (rm_state c)" by (auto simp: wait_mirror_def bind_res_Inr)
  then show ?thesis using keyed_moves [OF k mirrors(2), of c' Unblocking] mirrors(1,3) by auto
next
  case (serves i now s)
  then have "wt_active_slots s = wt_active_slots (rm_state c)"
    by (auto simp: wait_round_def bind_res_Inr split: list.splits option.splits)
  then show ?thesis using k serves(1) by (simp add: keyed_def)
next
  case (unlocks i now s)
  from unlocks(4) have "wt_active_slots s = wt_active_slots (rm_state c)" by (cases rule: wait_round_stops) simp_all
  then show ?thesis using keyed_moves [OF k unlocks(2), of c' Outside] unlocks(1,3) by auto
qed (use keyed_moves [OF k, where c' = c'] in \<open>auto simp: wait_issue_def\<close>)

subsection \<open>Leaving\<close>

text \<open>How far a call is from its end.\<close>

fun leave_rank :: "'t caller \<Rightarrow> nat" where
  "leave_rank Outside = 0"
| "leave_rank Walking = 1"
| "leave_rank Unblocking = 2"
| "leave_rank (Finishing st g) = 3"
| "leave_rank (Returned k) = 4"
| "leave_rank (Storing k g) = 5"
| "leave_rank (Wrapping g) = 6"
| "leave_rank (Waiting dl) = 7"
| "leave_rank (Parking ctx) = 8"

locale progress_room = responsive_delegate dops good + queue_discipline park erase
  for dops :: "('d, 'cb) limiter_ops" and good and park :: "nat \<Rightarrow> ('d, 'z) waiting_scheme \<Rightarrow> nat list option" and erase
begin

definition orderly :: "(('d, 'z) waiting_scheme, 't) room \<Rightarrow> bool" where
  "orderly c \<longleftrightarrow> room_ok c \<and> mutex_ok c \<and> good (wt_delegate (rm_state c))"

lemma step_good:
  assumes "room_step park erase deadline dops c c'" and "good (wt_delegate (rm_state c))"
  shows "good (wt_delegate (rm_state c'))"
  using assms
  by (induction rule: room_step.induct)
     (auto simp: wait_issue_def wait_take_def split: option.splits dest: try_good emplace_good mirror_good round_good)

lemma step_orderly: "room_step park erase deadline dops c c' \<Longrightarrow> orderly c \<Longrightarrow> orderly c'"
  using step_ok step_mutex step_good unfolding orderly_def by blast

lemma reach_orderly: "(room_step park erase deadline dops)\<^sup>*\<^sup>* c c' \<Longrightarrow> orderly c \<Longrightarrow> orderly c'"
  by (induction rule: rtranclp_induct) (auto intro: step_orderly)

lemma round_returns:
  assumes "orderly c"
  shows "\<exists>b s. wait_round dops now (rm_state c) = Inr (b, s)"
proof (cases "wt_queue (rm_state c)")
  case Nil
  then show ?thesis by (auto simp: wait_round_def)
next
  case (Cons w q)
  have ok: "room_ok c" and g: "good (wt_delegate (rm_state c))" using assms by (simp_all add: orderly_def)
  have "w \<in> set (wt_queue (rm_state c))" using Cons by simp
  then obtain dl x where x: "w < length (rm_callers c)" "wt_waiters (rm_state c) ! w = Some x" "wtr_slot x = None"
    by (rule queued_waiter [OF ok])
  have "length (wt_waiters (rm_state c)) = length (rm_callers c)" using ok by (simp add: room_ok_def all_slots_def)
  then have l: "load_waiter (wt_waiters (rm_state c)) w = Inr x" using x(1,2) by (simp add: load_waiter_Inr)
  obtain res d where "TryAcquire dops now (wtr_context x) (wt_delegate (rm_state c)) = Inr (res, d)"
    using try_returns [OF g] by blast
  then show ?thesis using Cons l x(3) by (cases res) (auto simp: wait_round_def)
qed

text \<open>Whoever holds the mutex can finish \<^verbatim>\<open>Unblock\<close> and release it.\<close>

lemma unlocks:
  assumes "orderly c" and "rm_mu c = Some j"
  shows "\<exists>c'. (room_step park erase deadline dops)\<^sup>*\<^sup>* c c' \<and> rm_mu c' = None \<and> rm_callers c' = (rm_callers c)[j := Outside]"
  using assms
proof (induction "length (wt_queue (rm_state c))" arbitrary: c rule: less_induct)
  case less
  have j: "j < length (rm_callers c)" "rm_callers c ! j = Walking" using less.prems by (auto simp: orderly_def mutex_ok_def)
  obtain b s where s: "wait_round dops 0 (rm_state c) = Inr (b, s)" using round_returns [OF less.prems(1)] by blast
  show ?case
  proof (cases b)
    case True
    then have s': "wait_round dops 0 (rm_state c) = Inr (True, s)" using s by simp
    have st: "room_step park erase deadline dops c (c\<lparr>rm_state := s\<rparr>)" by (rule room_step.serves [OF j s'])
    obtain c' where "(room_step park erase deadline dops)\<^sup>*\<^sup>* (c\<lparr>rm_state := s\<rparr>) c'" "rm_mu c' = None"
        "rm_callers c' = (rm_callers c)[j := Outside]"
      using less.hyps [of "c\<lparr>rm_state := s\<rparr>"] wait_round_shrinks [OF s'] step_orderly [OF st less.prems(1)] less.prems(2) by auto
    then show ?thesis using st converse_rtranclp_into_rtranclp by metis
  next
    case False
    then have "room_step park erase deadline dops c (c\<lparr>rm_state := s, rm_callers := (rm_callers c)[j := Outside], rm_mu := None\<rparr>)"
      using room_step.unlocks [OF j] s by simp
    then show ?thesis by (intro exI conjI) (rule r_into_rtranclp, assumption, simp_all)
  qed
qed

text \<open>With the mutex free, every call that is inside has a next step, which brings it closer to its end; a call that waits can
  always take its deadline.\<close>

lemma advances:
  assumes o: "orderly c" and free: "rm_mu c = None" and i: "i < length (rm_callers c)" and "rm_callers c ! i \<noteq> Outside"
  shows "\<exists>c' x. room_step park erase deadline dops c c' \<and> rm_callers c' = (rm_callers c)[i := x]
    \<and> leave_rank x < leave_rank (rm_callers c ! i)"
proof -
  have g: "good (wt_delegate (rm_state c))" using o by (simp add: orderly_def)
  have a: "all_slots (rm_callers c) (wt_waiters (rm_state c)) (set (wt_queue (rm_state c)))" using o by (simp add: orderly_def room_ok_def)
  have len: "length (wt_waiters (rm_state c)) = length (rm_callers c)" using a by (simp add: all_slots_def)
  have closer: ?thesis if "room_step park erase deadline dops c c'" "rm_callers c' = (rm_callers c)[i := x]"
      "leave_rank x < leave_rank (rm_callers c ! i)" for c' x
    using that by blast
  show ?thesis
  proof (cases "rm_callers c ! i")
    case (Parking ctx)
    show ?thesis
    proof (cases "park i (rm_state c)")
      case None
      show ?thesis by (rule closer [OF room_step.backlog_full [where park = park, OF i Parking free None]], simp, simp add: Parking)
    next
      case (Some q)
      show ?thesis by (rule closer [OF room_step.parks [where park = park, OF i Parking free Some]], simp, simp add: Parking)
    qed
  next
    case (Waiting dl)
    obtain w where w: "load_waiter (wt_waiters (rm_state c)) i = Inr w"
      using all_slotsD [OF a i] Waiting i len by (auto simp: load_waiter_Inr)
    show ?thesis
    proof (cases "wtr_slot w")
      case None
      show ?thesis by (rule closer [OF room_step.times_out [OF i Waiting free w _ None, of dl]], simp, simp, simp add: Waiting)
    next
      case (Some h)
      show ?thesis by (rule closer [OF room_step.collects [OF i Waiting free w _ Some, of dl]], simp, simp, simp add: Waiting)
    qed
  next
    case (Wrapping h)
    obtain k s where e: "wait_issue (rm_state c) = (k, s)" by (cases "wait_issue (rm_state c)")
    show ?thesis by (rule closer [OF room_step.issues [OF i Wrapping e]], simp, simp add: Wrapping)
  next
    case (Storing k h)
    obtain now s cs where e: "wait_emplace dops now k h (rm_state c) = Inr (s, cs)" using emplace_returns [OF g] by blast
    show ?thesis by (rule closer [OF room_step.stores [OF i Storing free e]], simp, simp add: Storing)
  next
    case (Returned k)
    obtain inner s where e: "wait_take k (rm_state c) = (inner, s)" by (cases "wait_take k (rm_state c)")
    show ?thesis by (rule closer [OF room_step.takes [OF i Returned free e, where st = kSuccess]], simp, simp add: Returned)
  next
    case (Finishing st inner)
    show ?thesis
    proof (cases inner)
      case None
      then show ?thesis using closer [OF room_step.skips [OF i, of st]] Finishing by simp
    next
      case (Some h)
      then have f: "rm_callers c ! i = Finishing st (Some h)" using Finishing by simp
      obtain now s cs where e: "wait_mirror dops st now h (rm_state c) = Inr (s, cs)" using mirror_returns [OF g] by blast
      show ?thesis by (rule closer [OF room_step.mirrors [OF i f e]], simp, simp add: f)
    qed
  next
    case Unblocking
    show ?thesis by (rule closer [OF room_step.locks [OF i Unblocking free]], simp, simp add: Unblocking)
  next
    case Walking
    then show ?thesis using o free i by (auto simp: orderly_def mutex_ok_def)
  qed (use assms(4) in simp)
qed

definition leavers :: "(('d, 'z) waiting_scheme, 't) room \<Rightarrow> nat set" where
  "leavers c = {k. k < length (rm_callers c) \<and> rm_callers c ! k \<noteq> Outside}"

lemma leavers_update: "rm_callers c' = (rm_callers c)[i := x] \<Longrightarrow> leavers c' - {i} = leavers c - {i}"
  by (auto simp: leavers_def nth_list_update)

lemma leavers_outside:
  assumes "rm_callers c' = (rm_callers c)[j := Outside]" and "k \<in> leavers c'"
  shows "k \<in> leavers c \<and> rm_callers c' ! k = rm_callers c ! k"
  using assms by (cases "k = j") (auto simp: leavers_def)

text \<open>A call that is inside can leave, and nobody else enters meanwhile.\<close>

lemma can_leave:
  assumes "orderly c"
  shows "\<exists>c'. (room_step park erase deadline dops)\<^sup>*\<^sup>* c c' \<and> leavers c' \<subseteq> leavers c - {i}"
  using assms
proof (induction "leave_rank (rm_callers c ! i)" arbitrary: c rule: less_induct)
  case less
  obtain u where u: "(room_step park erase deadline dops)\<^sup>*\<^sup>* c u" "rm_mu u = None" "leavers u \<subseteq> leavers c"
      "i \<in> leavers u \<Longrightarrow> rm_callers u ! i = rm_callers c ! i"
  proof (cases "rm_mu c")
    case None
    then show ?thesis using that [of c] by simp
  next
    case (Some j)
    obtain u where u: "(room_step park erase deadline dops)\<^sup>*\<^sup>* c u" "rm_mu u = None" "rm_callers u = (rm_callers c)[j := Outside]"
      using unlocks [OF less.prems(1) Some] by blast
    have "leavers u \<subseteq> leavers c" "i \<in> leavers u \<Longrightarrow> rm_callers u ! i = rm_callers c ! i"
      using leavers_outside [OF u(3)] by blast+
    then show ?thesis using that [OF u(1,2)] by blast
  qed
  show ?case
  proof (cases "i \<in> leavers u")
    case False
    then show ?thesis using u(1,3) by blast
  next
    case True
    have o: "orderly u" by (rule reach_orderly [OF u(1) less.prems(1)])
    have i: "i < length (rm_callers u)" "rm_callers u ! i \<noteq> Outside" using True by (simp_all add: leavers_def)
    obtain v x where v: "room_step park erase deadline dops u v" "rm_callers v = (rm_callers u)[i := x]"
        "leave_rank x < leave_rank (rm_callers u ! i)"
      using advances [OF o u(2) i] by blast
    then obtain c' where c': "(room_step park erase deadline dops)\<^sup>*\<^sup>* v c'" "leavers c' \<subseteq> leavers v - {i}"
      using less.hyps [of v] u(4) [OF True] i(1) step_orderly [OF v(1) o] by auto
    have "leavers c' \<subseteq> leavers c - {i}" using c'(2) leavers_update [OF v(2)] u(3) by blast
    moreover have "(room_step park erase deadline dops)\<^sup>*\<^sup>* c c'" using u(1) v(1) c'(1) by (meson converse_rtranclp_into_rtranclp rtranclp_trans)
    ultimately show ?thesis by blast
  qed
qed

lemma can_drain:
  assumes "orderly c"
  shows "\<exists>c'. (room_step park erase deadline dops)\<^sup>*\<^sup>* c c' \<and> leavers c' = {}"
  using assms
proof (induction "card (leavers c)" arbitrary: c rule: less_induct)
  case less
  show ?case
  proof (cases "leavers c = {}")
    case True
    then show ?thesis by blast
  next
    case False
    then obtain i where i: "i \<in> leavers c" by blast
    obtain u where u: "(room_step park erase deadline dops)\<^sup>*\<^sup>* c u" "leavers u \<subseteq> leavers c - {i}" using can_leave [OF less.prems] by blast
    have "finite (leavers c)" by (simp add: leavers_def)
    then have "card (leavers u) < card (leavers c)" using u(2) i by (intro psubset_card_mono) auto
    then obtain c' where "(room_step park erase deadline dops)\<^sup>*\<^sup>* u c'" "leavers c' = {}"
      using less.hyps [of u] reach_orderly [OF u(1) less.prems] by blast
    then show ?thesis using u(1) by (meson rtranclp_trans)
  qed
qed

text \<open>An empty room holds nothing.\<close>

lemma sum_list_empty: "\<forall>x \<in> set xs. f x = {#} \<Longrightarrow> sum_list (map f xs) = ({#} :: 'x multiset)"
  by (induction xs) simp_all

lemma drained_empty:
  assumes "orderly c" and "keyed c" and "leavers c = {}"
  shows "wt_queue (rm_state c) = []" and "wt_active_slots (rm_state c) = []" and "owned c = {#}"
proof -
  have out: "rm_callers c ! i = Outside" if "i < length (rm_callers c)" for i using assms(3) that by (auto simp: leavers_def)
  have a: "all_slots (rm_callers c) (wt_waiters (rm_state c)) (set (wt_queue (rm_state c)))" using assms(1) by (simp add: orderly_def room_ok_def)
  have w: "wt_waiters (rm_state c) ! i = None \<and> i \<notin> set (wt_queue (rm_state c))" if "i < length (rm_callers c)" for i
    using all_slotsD [OF a that] out [OF that] by simp
  have len: "length (wt_waiters (rm_state c)) = length (rm_callers c)" "set (wt_queue (rm_state c)) \<subseteq> {..<length (rm_callers c)}"
    using a by (simp_all add: all_slots_def)
  then have "i \<notin> set (wt_queue (rm_state c))" for i using w [of i] by auto
  then show "wt_queue (rm_state c) = []" by (metis last_in_set)
  show k: "wt_active_slots (rm_state c) = []"
  proof (rule ccontr)
    assume "wt_active_slots (rm_state c) \<noteq> []"
    then obtain k where "Returned k \<in> set (rm_callers c)" using assms(2) by (auto simp: keyed_def neq_Nil_conv)
    then show False using out by (auto simp: in_set_conv_nth)
  qed
  have "\<forall>x \<in> set (rm_callers c). caller_guards x = {#}" using out by (auto simp: in_set_conv_nth)
  moreover have "\<forall>x \<in> set (wt_waiters (rm_state c)). waiter_guards x = {#}" using w len(1) by (auto simp: in_set_conv_nth)
  ultimately have "sum_list (map caller_guards (rm_callers c)) = {#}" "sum_list (map waiter_guards (wt_waiters (rm_state c))) = {#}"
    by (simp_all add: sum_list_empty)
  then show "owned c = {#}" using k by (simp add: owned_def)
qed

lemma reach_keyed: "(room_step park erase deadline dops)\<^sup>*\<^sup>* c c' \<Longrightarrow> keyed c \<Longrightarrow> keyed c'"
  by (induction rule: rtranclp_induct) (auto intro: step_keyed)

lemma drains:
  assumes "(room_step park erase deadline dops)\<^sup>*\<^sup>* (room_init n s0) c"
    and "wt_queue s0 = []" and "wt_active_slots s0 = []" and "good (wt_delegate s0)"
  obtains c' where "(room_step park erase deadline dops)\<^sup>*\<^sup>* c c'" and "\<forall>x \<in> set (rm_callers c'). x = Outside"
    and "wt_queue (rm_state c') = []" and "wt_active_slots (rm_state c') = []" and "owned c' = {#}"
proof -
  have "orderly (room_init n s0)"
    unfolding orderly_def by (intro conjI room_ok_init [OF assms(2,3)] mutex_init) (simp add: room_init_def assms(4))
  then have c: "orderly c" by (rule reach_orderly [OF assms(1)])
  have "keyed (room_init n s0)" using assms(3) by (simp add: keyed_def room_init_def)
  then have k: "keyed c" by (rule reach_keyed [OF assms(1)])
  obtain c' where c': "(room_step park erase deadline dops)\<^sup>*\<^sup>* c c'" "leavers c' = {}" using can_drain [OF c] by blast
  note e = drained_empty [OF reach_orderly [OF c'(1) c] reach_keyed [OF c'(1) k] c'(2)]
  have "\<forall>x \<in> set (rm_callers c'). x = Outside" using c'(2) by (auto simp: leavers_def in_set_conv_nth)
  then show ?thesis by (rule that [OF c'(1) _ e])
qed

end

subsection \<open>The gate over a capped limit is such a delegate\<close>

locale responsive_limit = capped_limit ops inv lo hi
  for ops :: "('l, 'cb) limit_ops" and inv :: "'l \<Rightarrow> bool" and lo hi :: int +
  assumes sample_returns: "inv l \<Longrightarrow> \<exists>l' cs. OnSample ops t 0 i d l = Inr (l', cs)"
begin

definition sound_gate :: "'l abstract_limiter \<Rightarrow> bool" where
  "sound_gate s \<longleftrightarrow> inv (al_limit s) \<and> is_int32 (al_inflight s)"

lemma gate_limit: "sound_gate s \<Longrightarrow> is_int32 (GetLimit ops (al_limit s))"
  using cap_range [of "al_limit s"] cap_int [of "al_limit s"] by (auto simp: sound_gate_def is_int32_def)

lemma gate_try:
  assumes "sound_gate s"
  shows "\<exists>res s'. TryAcquire (Simple_ops ops fails) now ctx s = Inr (res, s') \<and> sound_gate s'"
proof -
  have i: "is_int32 (al_inflight s)" "inv (al_limit s)" using assms by (simp_all add: sound_gate_def)
  note l = gate_limit [OF assms]
  have "is_int32 (al_inflight s + 1)" if "al_inflight s < GetLimit ops (al_limit s)" using that i(1) l by (simp add: is_int32_def)
  then show ?thesis using i Simple_loop_decides [OF l i(1), of fails]
    by (simp add: TryAcquire_def Simple_ops_def AbstractLimiter_ops_def AbstractLimiter_DoTryAcquire_def Simple_DoAcquire_def
        count_outcome_def sound_gate_def)
qed

lemma gate_notify:
  assumes "sound_gate s"
  shows "\<exists>s' cs. SlotGuard_notify (Simple_ops ops fails) st (sg_start_time_ns g) g s = Inr (s', cs)"
proof -
  have i: "inv (al_limit s)" using assms by (simp add: sound_gate_def)
  obtain l1 c1 l2 c2 where
    "OnSample ops (sg_start_time_ns g) 0 (sg_inflight_at_acquire g) False (al_limit s) = Inr (l1, c1)"
    "OnSample ops (sg_start_time_ns g) 0 (sg_inflight_at_acquire g) True (al_limit s) = Inr (l2, c2)"
    using sample_returns [OF i] by metis
  then show ?thesis
    by (cases st) (simp_all add: SlotGuard_notify_def Simple_ops_def AbstractLimiter_ops_def AbstractLimiter_OnSlotComplete_def
        AbstractLimiter_OnReleasePartition_def Let_def count_outcome_def chk64_def is_int64_def)
qed

lemma gate_notify_sound:
  assumes "sound_gate s" and r: "SlotGuard_notify (Simple_ops ops fails) st now g s = Inr (s', cs)"
  shows "sound_gate s'"
proof -
  have "is_int32 (al_inflight s')" using assms
    by (auto simp: SlotGuard_notify_def Simple_ops_def AbstractLimiter_ops_def AbstractLimiter_OnSlotComplete_def sound_gate_def
        AbstractLimiter_OnReleasePartition_def Let_def bind_res_Inr count_outcome_def split: if_splits)
  then show ?thesis using notify_limit [OF r] assms(1) by (simp add: sound_gate_def)
qed

end

sublocale responsive_limit \<subseteq> answers: responsive_delegate "Simple_ops ops fails" sound_gate for fails
proof unfold_locales
  fix d d' :: "'l abstract_limiter" and now ctx res st and g :: slot_guard and cs
  assume d: "sound_gate d"
  show "\<exists>res d'. TryAcquire (Simple_ops ops fails) now ctx d = Inr (res, d')" using gate_try [OF d] by blast
  show "sound_gate d'" if "TryAcquire (Simple_ops ops fails) now ctx d = Inr (res, d')" using gate_try [OF d, of fails now ctx] that by auto
  show "\<exists>now d' cs. SlotGuard_notify (Simple_ops ops fails) st now g d = Inr (d', cs)" using gate_notify [OF d] by blast
  show "sound_gate d'" if "SlotGuard_notify (Simple_ops ops fails) st now g d = Inr (d', cs)" by (rule gate_notify_sound [OF d that])
qed

sublocale responsive_limit \<subseteq> fifo_progress: progress_room "Simple_ops ops fails" sound_gate Blocking_park Blocking_erase for fails
  by unfold_locales

sublocale responsive_limit \<subseteq> lifo_progress: progress_room "Simple_ops ops fails" sound_gate Lifo_park Lifo_erase for fails
  by unfold_locales

context responsive_limit
begin

lemma within_sound: "within_cap inv hi n s M \<Longrightarrow> sound_gate s"
  using within_inflight(3) by (simp add: within_cap_def sound_gate_def)

lemma fifo_drains:
  assumes "(room_step Blocking_park Blocking_erase deadline (Simple_ops ops fails))\<^sup>*\<^sup>* (room_init n s0) c"
    and "wt_queue s0 = []" and "wt_active_slots s0 = []" and w: "within_cap inv hi 0 (wt_delegate s0) {#}"
  shows "\<exists>c'. (room_step Blocking_park Blocking_erase deadline (Simple_ops ops fails))\<^sup>*\<^sup>* c c' \<and> (\<forall>x \<in> set (rm_callers c'). x = Outside)
    \<and> wt_queue (rm_state c') = [] \<and> wt_active_slots (rm_state c') = [] \<and> al_inflight (wt_delegate (rm_state c')) = 0"
proof -
  obtain c' where c': "(room_step Blocking_park Blocking_erase deadline (Simple_ops ops fails))\<^sup>*\<^sup>* c c'" "\<forall>x \<in> set (rm_callers c'). x = Outside"
      "wt_queue (rm_state c') = []" "wt_active_slots (rm_state c') = []" "owned c' = {#}"
    by (rule fifo_progress.drains [OF assms(1-3) within_sound [OF w]])
  from fifo_room.reach_keeps [OF rtranclp_trans [OF assms(1) c'(1)] room_ok_init [OF assms(2,3)] fifo_room.init_keeps [OF w assms(3)]]
  obtain m where "within_cap inv hi m (wt_delegate (rm_state c')) {#}" using c'(5) by (auto simp: fifo_room.keeps_def)
  then have "al_inflight (wt_delegate (rm_state c')) = 0" using within_inflight(1) by fastforce
  then show ?thesis using c' by blast
qed

lemma lifo_drains:
  assumes "(room_step Lifo_park Lifo_erase deadline (Simple_ops ops fails))\<^sup>*\<^sup>* (room_init n s0) c"
    and "wt_queue s0 = []" and "wt_active_slots s0 = []" and w: "within_cap inv hi 0 (wt_delegate s0) {#}"
  shows "\<exists>c'. (room_step Lifo_park Lifo_erase deadline (Simple_ops ops fails))\<^sup>*\<^sup>* c c' \<and> (\<forall>x \<in> set (rm_callers c'). x = Outside)
    \<and> wt_queue (rm_state c') = [] \<and> wt_active_slots (rm_state c') = [] \<and> al_inflight (wt_delegate (rm_state c')) = 0"
proof -
  obtain c' where c': "(room_step Lifo_park Lifo_erase deadline (Simple_ops ops fails))\<^sup>*\<^sup>* c c'" "\<forall>x \<in> set (rm_callers c'). x = Outside"
      "wt_queue (rm_state c') = []" "wt_active_slots (rm_state c') = []" "owned c' = {#}"
    by (rule lifo_progress.drains [OF assms(1-3) within_sound [OF w]])
  from lifo_room.reach_keeps [OF rtranclp_trans [OF assms(1) c'(1)] room_ok_init [OF assms(2,3)] lifo_room.init_keeps [OF w assms(3)]]
  obtain m where "within_cap inv hi m (wt_delegate (rm_state c')) {#}" using c'(5) by (auto simp: lifo_room.keeps_def)
  then have "al_inflight (wt_delegate (rm_state c')) = 0" using within_inflight(1) by fastforce
  then show ?thesis using c' by blast
qed

end

interpretation gradient2_answers: responsive_limit Gradient2_ops "gradient2_capped lo hi" lo hi for lo hi
  by unfold_locales (metis Gradient2_OnSample_effect)

lemma gate_built:
  assumes "gb_ok g" and "gb_min_limit g \<le> gb_initial_limit g" and "gb_initial_limit g \<le> gb_max_concurrency g"
    and "Simple_Build (Simple_Limit (Some (Gradient2_Build g)) sb) = Inr s"
  shows "within_cap (gradient2_capped (gb_min_limit g) (gb_max_concurrency g)) (gb_max_concurrency g) 0 s {#}"
proof -
  have "is_int32 (gb_initial_limit g)" using assms(1) by (simp add: gb_ok_def)
  then have "gradient2_capped (gb_min_limit g) (gb_max_concurrency g) (Gradient2_Build g)"
    using Gradient2_Build_inv [OF assms(1)] assms(2,3) by (simp add: g2_bounded_def)
  moreover have "al_limit s = Gradient2_Build g"
    using assms(4) by (auto simp: Simple_Build_def Simple_Limit_def AbstractLimiter_new_def)
  ultimately show ?thesis using Simple_Build_balanced [OF assms(4)] by (simp add: within_cap_def)
qed

text \<open>
  C15. No deadlock, no leak: from every state that calls of a \<^verbatim>\<open>BlockingLimiter\<close> over a \<^verbatim>\<open>SimpleLimiter\<close> over a
  \<^verbatim>\<open>Gradient2Limit\<close>, built with \<^verbatim>\<open>MinLimit\<close> \<open>\<le>\<close> \<^verbatim>\<open>InitialLimit\<close> \<open>\<le>\<close> \<^verbatim>\<open>MaxConcurrency\<close> and a queue size function that returns, can reach in any interleaving, with the mutex held or free, wake-ups lost, slots on their way from one
  call to another and ids wrapped around, the limiter can be run empty: there is a continuation, of
  steps none of which fails, to a state in which every call has left, the queue and the slot map are empty and the in-flight
  count is zero.
\<close>

theorem blocking_drains:
  assumes "gb_ok g" and "gb_min_limit g \<le> gb_initial_limit g" and "gb_initial_limit g \<le> gb_max_concurrency g"
    and "Simple_Build (Simple_Limit (Some (Gradient2_Build g :: 'cb gradient2)) sb) = Inr d"
    and "Blocking_Build StrCat (Blocking_Delegate (Some d) b) = Inr s0"
    and "(Blocking_step tm (Simple_ops Gradient2_ops fails))\<^sup>*\<^sup>* (room_init n s0) c"
  shows "\<exists>c'. (Blocking_step tm (Simple_ops Gradient2_ops fails))\<^sup>*\<^sup>* c c' \<and> (\<forall>x \<in> set (rm_callers c'). x = Outside)
    \<and> wt_queue (rm_state c') = [] \<and> wt_active_slots (rm_state c') = [] \<and> InflightCount (wt_delegate (rm_state c')) = 0"
proof -
  note s0 = Blocking_Build_state [OF assms(5)]
  have "wt_delegate s0 = d" using s0(4) by (simp add: Blocking_Delegate_def)
  then show ?thesis
    using gradient2_answers.fifo_drains [OF assms(6) s0(1,2)] gate_built [OF assms(1-4)] by (simp add: InflightCount_def)
qed

text \<open>The same with the last-in-first-out queue.\<close>

lemma lifo_blocking_drains:
  assumes "gb_ok g" and "gb_min_limit g \<le> gb_initial_limit g" and "gb_initial_limit g \<le> gb_max_concurrency g"
    and "Simple_Build (Simple_Limit (Some (Gradient2_Build g)) sb) = Inr d"
    and "Lifo_Build StrCat (Lifo_Delegate (Some d) b) = Inr s0"
    and "(Lifo_step tm (Simple_ops Gradient2_ops fails))\<^sup>*\<^sup>* (room_init n s0) c"
  shows "\<exists>c'. (Lifo_step tm (Simple_ops Gradient2_ops fails))\<^sup>*\<^sup>* c c' \<and> (\<forall>x \<in> set (rm_callers c'). x = Outside)
    \<and> wt_queue (rm_state c') = [] \<and> wt_active_slots (rm_state c') = [] \<and> InflightCount (wt_delegate (rm_state c')) = 0"
proof -
  note s0 = Lifo_Build_state [OF assms(5)]
  have "wt_delegate s0 = d" using s0(4) by (simp add: Lifo_Delegate_def)
  then show ?thesis
    using gradient2_answers.lifo_drains [OF assms(6) s0(1,2)] gate_built [OF assms(1-4)] by (simp add: InflightCount_def)
qed

text \<open>The default builders; one call has been admitted and is about to store its guard.\<close>

theorem blocking_drains_witness:
  "\<exists>d s0 c c'. Simple_Build (Simple_Limit (Some (Gradient2_Build Gradient2_Builder :: nat gradient2)) Simple_Builder) = Inr d
     \<and> Blocking_Build (\<lambda>_. ''3600000'') (Blocking_Delegate (Some d) (Blocking_Timeout 1000 Blocking_Builder)) = Inr s0
     \<and> (Blocking_step ticks (Simple_ops Gradient2_ops []))\<^sup>*\<^sup>* (room_init 1 s0) c \<and> InflightCount (wt_delegate (rm_state c)) = 1
     \<and> (Blocking_step ticks (Simple_ops Gradient2_ops []))\<^sup>*\<^sup>* c c' \<and> InflightCount (wt_delegate (rm_state c')) = 0"
proof -
  define d where "d = AbstractLimiter_new (Gradient2_Build Gradient2_Builder :: nat gradient2) [] None False"
  have sb: "Simple_Build (Simple_Limit (Some (Gradient2_Build Gradient2_Builder :: nat gradient2)) Simple_Builder) = Inr d"
    by (simp add: d_def Simple_Build_def Simple_Limit_def Simple_Builder_def)
  define s0 where "s0 = Blocking_new d 1000"
  have b: "Blocking_Build (\<lambda>_. ''3600000'') (Blocking_Delegate (Some d) (Blocking_Timeout 1000 Blocking_Builder)) = Inr s0"
    by (simp add: Blocking_Build_def Blocking_Delegate_def Blocking_Timeout_def Blocking_Builder_def s0_def kMaxTimeout_def)
  have g: "gb_min_limit Gradient2_Builder = 20" "gb_initial_limit Gradient2_Builder = 20" "gb_max_concurrency Gradient2_Builder = 200"
    by (simp_all add: Gradient2_Builder_def)
  have t: "TryAcquire (Simple_ops Gradient2_ops []) 7 ''a'' d = Inr (Some (MakeSlot 7 1 False (- 1)), d\<lparr>al_inflight := 1\<rparr>)"
    using Simple_TryAcquire [of d Gradient2_ops "[]" 7 "''a''"] g by (simp add: d_def AbstractLimiter_new_def is_int32_def)
  let ?c0 = "room_init 1 s0 :: (nat gradient2 abstract_limiter blocking, int) room"
  define c where "c = ?c0\<lparr>rm_state := (rm_state ?c0)\<lparr>wt_delegate := d\<lparr>al_inflight := 1\<rparr>\<rparr>, rm_callers := [Wrapping (MakeSlot 7 1 False (- 1))]\<rparr>"
  have "Blocking_step ticks (Simple_ops Gradient2_ops []) ?c0 c"
    using room_step.fast_admits [of 0 ?c0 "Simple_ops Gradient2_ops []" 7 "''a''" "MakeSlot 7 1 False (- 1)" "d\<lparr>al_inflight := 1\<rparr>"] t
    by (simp add: room_init_def c_def s0_def Blocking_new_def)
  then have r: "(Blocking_step ticks (Simple_ops Gradient2_ops []))\<^sup>*\<^sup>* ?c0 c" by (rule r_into_rtranclp)
  have "InflightCount (wt_delegate (rm_state c)) = 1" by (simp add: c_def InflightCount_def room_init_def s0_def Blocking_new_def)
  moreover obtain c' where "(Blocking_step ticks (Simple_ops Gradient2_ops []))\<^sup>*\<^sup>* c c'" "InflightCount (wt_delegate (rm_state c')) = 0"
    using blocking_drains [OF Gradient2_Builder_ok _ _ sb b r] g by auto
  ultimately show ?thesis using sb b r by blast
qed

end
