(* ===== verification/Spec2Isabelle.thy ===== *)
theory Spec2Isabelle
  imports Quickstart Telemetry Blocking_Partitioned Partitioned_Overshoot Window_Threads Windowed_Threads
    Codel_Dynamics Windowed_Dynamics Waiting_Progress
begin

text \<open>
  \<^bold>\<open>Limen: a verification library.\<close> Limen is a C++ library for adaptive concurrency limits and
  queue management. This development models its implementation files, \<^verbatim>\<open>include/limen\<close> and \<^verbatim>\<open>src\<close>,
  and the program \<^verbatim>\<open>examples/quickstart.cc\<close>, and proves the properties a user of the library relies
  on. Paths below are relative to the root of the repository.

  \<^bold>\<open>The program.\<close> A \<^emph>\<open>limit\<close> is an algorithm that turns samples (start time, round-trip time,
  requests in flight, whether the request was dropped) into a cap and tells registered
  callbacks when the cap changes. A \<^emph>\<open>limiter\<close> admits requests up to the cap: \<^verbatim>\<open>TryAcquire\<close> returns
  a slot guard, whose completion gives the slot back and feeds the limit one sample. Limits wrap
  limits (\<^verbatim>\<open>WindowedLimit\<close>, \<^verbatim>\<open>TracingLimitDecorator\<close>) and limiters wrap limiters (\<^verbatim>\<open>BlockingLimiter\<close>,
  \<^verbatim>\<open>LifoBlockingLimiter\<close>). A \<^verbatim>\<open>CodelFilter\<close> decides, at the point where work is dequeued, what to
  drop.

  \<^bold>\<open>How the code is modelled.\<close> A class is a record of its members, a virtual interface a record
  of operations (a vtable), an override a definition that takes the operations it calls as
  arguments. An operation passes the state explicitly and returns \<open>ub + result\<close>: \<open>Inl\<close> is
  undefined behaviour (signed overflow, a conversion out of range, an access out of bounds, a
  stale pointer), so that a result \<open>Inr\<close> is also a proof that none occurs. Builders return
  \<open>status + limiter\<close> with the messages of the source. \<^verbatim>\<open>int\<close> and \<^verbatim>\<open>int64_t\<close> are integers whose
  arithmetic is checked (\<open>chk32\<close>, \<open>chk64\<close>), or wraps where the code uses atomics (\<open>wrap32\<close>,
  \<open>wrap64\<close>); \<^verbatim>\<open>uint32_t\<close> is \<open>32 word\<close>; \<^verbatim>\<open>double\<close> is a type of rationals, infinities and NaN with
  every operation rounded to IEEE binary64. Change callbacks are values; an operation returns
  the invocations it makes, in order. Readings of clocks are arguments. A critical section under
  a mutex, and one atomic instruction, is one step wherever calls are interleaved.

  \<^bold>\<open>The theories.\<close>
  \<^item> \<open>Prelude\<close>: results, checked and wrapping integers, array accesses, the collection
    \<open>limen_simps\<close>, and the tally of a list, in which the interleaving models state their invariants.
  \<^item> \<open>Limit_Base\<close> (\<^verbatim>\<open>limit.h\<close>, \<^verbatim>\<open>abstract_limit\<close>, \<^verbatim>\<open>fixed_limit.h\<close>, \<^verbatim>\<open>settable_limit.h\<close>): the interface, the
    locale \<open>limit_contract\<close> that every limit is proved to meet, and that callbacks mirror the cap.
  \<^item> \<open>Binary64\<close>: rounding, the operations on \<^verbatim>\<open>double\<close>, their error bounds and monotonicity.
  \<^item> \<open>Measurements\<close> (\<^verbatim>\<open>measurement.h\<close>, \<^verbatim>\<open>exp_avg_measurement\<close>, \<^verbatim>\<open>minimum_measurement.h\<close>,
    \<^verbatim>\<open>single_measurement.h\<close>): the three measurements, the least sample is reported. \<open>Moving_Average\<close>: over any number of samples the moving average
    stays with them, no rounding error accumulates.
  \<^item> \<open>Gradient2\<close> (\<^verbatim>\<open>gradient2_limit\<close>): builder, \<^verbatim>\<open>Update\<close>, and that the cap stays within its bounds, is
    not lowered without cause, falls by a bounded factor per sample, and ignores samples taken
    when the application does not use the cap. \<open>Gradient2_Dynamics\<close>: whole runs; under load with steady latency the cap
    climbs to its maximum in a computed number of samples, and a latency spike takes it down at once.
  \<^item> \<open>Sample_Windows\<close> (\<^verbatim>\<open>sample_window.h\<close>, \<^verbatim>\<open>average_sample_window\<close>, \<^verbatim>\<open>percentile_sample_window\<close>): what a
    window reports of the samples added to it, as the locale \<open>sample_window_contract\<close>.
  \<^item> \<open>Window_Threads\<close>: \<^verbatim>\<open>AddSample\<close> of both classes as atomic accesses of many threads. The locale
    \<open>concurrent_window\<close> says what the first two writes provide; every interleaving gives what some
    order of the samples gives. A boundary between the two writes of a percentile window reads an
    entry of the previous window.
  \<^item> \<open>Windowed\<close> (\<^verbatim>\<open>windowed_limit\<close>): the two slots with their index flip refine a specification with one list of
    pending samples; the delegate sees at most one sample per window. \<open>Windowed_Threads\<close>: \<^verbatim>\<open>OnSample\<close> as steps of many threads; the boundary is closed by one thread
    at a time and the delegate driven once per window, whatever the slots hold. \<open>Windowed_Dynamics\<close>: the refinement carries the climb of the delegate
    to the pair, counted in windows.
  \<^item> \<open>Tracing\<close> (\<^verbatim>\<open>tracing_limit_decorator\<close>): transparency, and the log line read back: count, round-trip time and drop flag, through every format the number is printed in.
  \<^item> \<open>Limiter_Core\<close> (\<^verbatim>\<open>limiter.h\<close>, \<^verbatim>\<open>abstract_limiter\<close>): guards with their move semantics, outcome
    counters, the locales \<open>guard_invariant\<close> and \<open>admission_gate\<close> for invariants of programs that use guards.
  \<^item> \<open>Simple_Limiter\<close> (\<^verbatim>\<open>simple_limiter\<close>): the compare-and-swap gate, alone and as the atomic
    actions of many threads; slots are conserved and the cap is not overshot.
  \<^item> \<open>Partitioned\<close>, \<open>Partitioned_Properties\<close> (\<^verbatim>\<open>partition.h\<close>, \<^verbatim>\<open>abstract_partitioned_limiter\<close>): builder,
    resolution, burst into idle capacity, quotas, reject delays; conservation per partition, the
    bound on the overshoot of calls one after the other, quotas that track the cap. \<open>Partitioned_Threads\<close>: the atomic actions of many
    requests, on the same state; no slot is lost, the delay budget is strict, a partition below its
    quota turns no request away, and what a request decides that runs alone, whatever it reads first. \<open>Partitioned_Overshoot\<close>: how far concurrent bursts
    exceed the cap, by the number of requests that race.
  \<^item> \<open>Absl_Time\<close>: the part of \<^verbatim>\<open>absl::Time\<close> the code calls, a parameter with its documented laws as the
    locale \<open>absl_laws\<close>, met by a clock of nanoseconds.
  \<^item> \<open>Codel\<close> (\<^verbatim>\<open>codel_filter\<close>): only sustained overload is dropped, the drop schedule, recovery.
    \<open>Codel_Dynamics\<close>: on a clock that adds up (locale \<open>absl_clock\<close>), sustained overload is answered by a drop in every interval.
  \<^item> \<open>Waiting_Room\<close>, \<open>Waiting_Service\<close>, \<open>Waiting_Alone\<close>: the code \<^verbatim>\<open>BlockingLimiter\<close> and
    \<^verbatim>\<open>LifoBlockingLimiter\<close> have in common, with the step relation \<open>room_step\<close> over any number of
    interleaved calls. The locales \<open>queue_discipline\<close>, \<open>guarded_room\<close>, \<open>ordered_discipline\<close> and
    \<open>bounded_discipline\<close> say what a way to queue must provide: the invariants of the waiter slots, that no
    guard of the delegate is lost, the order of service and the bound of the backlog follow from
    them once for both classes.
  \<^item> \<open>Blocking\<close> (\<^verbatim>\<open>blocking_limiter\<close>) and \<open>Lifo_Blocking\<close> (\<^verbatim>\<open>lifo_blocking_limiter\<close>): builders, disciplines and deadlines;
    first come first served, or last come first served within the backlog; a single thread
    sees the delegate; the run that loses a wakeup. \<open>Blocking_Partitioned\<close>: both over a partitioned
    limiter, where the contract of the waiting room meets that of the partitions.
  \<^item> \<open>Limit_Stack\<close>: the locale \<open>capped_limit\<close> is passed up through decorators, gate and queues, so that the maximum configured
    at the bottom bounds the slots held at the top, for the stack of queue, gate, window and adaptive limit.
    \<open>Waiting_Progress\<close>: over a limit that answers (locales \<open>responsive_limit\<close>, \<open>responsive_delegate\<close>, \<open>progress_room\<close>) both
    queues are free of deadlock and leaks: from every reachable state they can be run empty.
  \<^item> \<open>Telemetry\<close>: the instruments, views and bucket boundaries the components register with a meter
    provider, and that the rows of a collection account for every call.
  \<^item> \<open>Quickstart\<close> (\<^verbatim>\<open>examples/quickstart.cc\<close>): the main program over the models of the four
    components it wires. The property that spans them is below.

  \<^bold>\<open>Loops and bounds.\<close> No definition uses fuel: every loop is a terminating recursion, the
  compare-and-swap loops because a list of spurious failures is an argument, \<^verbatim>\<open>Unblock\<close> because
  every round that continues shortens the queue. In the interleaving models a loop is a cycle of
  steps, which other threads may prolong; that a thread left alone leaves it, and that
  every waiting room can be run empty, is proved there. Where a counter of the code wraps (slot ids
  after \<open>2 ^ 32\<close>, outcome counters after \<open>2 ^ 64\<close>, samples of a window after \<open>2 ^ 31\<close>), the model
  wraps too and the property names the bound it holds below.

  \<^bold>\<open>Not modelled.\<close> What OpenTelemetry does with registered instruments and views, beyond running a
  callback per collection, and the lifetime of the registered observers; what the sleep functions
  and clocks of the application do (which one is installed is modelled, the calls of the sleep
  function are recorded, the reading of the clock is an argument); the memory orders of atomics (steps are
  sequentially consistent); destructors of the limiters themselves; null delegates and null products of a window
  factory where a builder does not check for them; \<^verbatim>\<open>operator<<\<close> of streams is the standard library's, modelled in its default format only; exceptions thrown by
  application callbacks; tests, benchmarks and build files.
\<close>

section \<open>The quickstart chain\<close>

text \<open>
  C14. End to end: if the steady clock does not run backwards within a request and stays in range, and
  every request is dequeued less than five milliseconds after it is enqueued, the quickstart
  program builds its chain of adaptive limit, window, limiter and filter, ends without undefined
  behaviour, whatever spurious failures the gate meets, admits each of its thousand requests,
  drops none, and prints a final cap of twenty: with one request at a time no window of samples
  moves the adaptive limit.
\<close>

theorem quickstart_prints:
  assumes "ZeroDuration tm < Milliseconds tm 5" and "ZeroDuration tm < Milliseconds tm 100"
    and "\<forall>i < 1000. 0 \<le> rd_acquired (readings i) \<and> rd_acquired (readings i) \<le> rd_completed (readings i)
      \<and> rd_completed (readings i) \<le> 2 ^ 61
      \<and> time_minus tm (rd_dequeue (readings i)) (rd_enqueue (readings i)) < Milliseconds tm 5"
  shows "quick_main tm readings = Inr (Inr (''admitted=1000 rejected=0 dropped=0 final_cap=20'' @ [CHR 0x0A]))"
proof (rule quick_prints [OF assms(1,2)])
  show "\<forall>i < 1000. reading_ok tm (readings i)" using assms(3) by (simp add: reading_ok_def)
qed

text \<open>Requests two milliseconds apart that take one millisecond each, dequeued after three
  microseconds; every exchange of an odd request fails once.\<close>

definition steady_readings :: "nat \<Rightarrow> int reading" where
  "steady_readings i =
     \<lparr>rd_acquired = 2000000 * int i, rd_enqueue = 2000000 * int i, rd_dequeue = 2000000 * int i + 3000,
      rd_completed = 2000000 * int i + 1000000, rd_fails = [odd i]\<rparr>"

theorem quickstart_prints_witness:
  "quick_main ticks steady_readings = Inr (Inr (''admitted=1000 rejected=0 dropped=0 final_cap=20'' @ [CHR 0x0A]))"
  by (rule quickstart_prints) (auto simp: ticks_def steady_readings_def)

end
